(* ===== verification/Db_Prelude.thy ===== *)
theory Db_Prelude
  imports Main "HOL-Library.Word" "HOL-Library.Monad_Syntax"
begin

text \<open>
  The shared vocabulary of the development: the machine integers of the Go code as words, Go's
  error values, Go's slice expressions and in-place writes on byte lists, and the big-endian
  codec of \<^verbatim>\<open>encoding/binary\<close>.

  A Go call that panics has no result: the model of an operation that may panic returns an
  \<^typ>\<open>'a option\<close> and \<^const>\<open>None\<close> is the panic. An error return is a value of
  \<open>err + 'a\<close> with \<^const>\<open>Inl\<close> the error.
\<close>

unbundle bit_operations_syntax

subsection \<open>Types\<close>

type_synonym byte = "8 word"
type_synonym u8 = "8 word"
type_synonym u16 = "16 word"
type_synonym u32 = "32 word"
type_synonym u64 = "64 word"

text \<open>
  A Go error is a package-level sentinel (\<^verbatim>\<open>errors.New\<close> bound to a variable), a fresh
  error built by \<^verbatim>\<open>fmt.Errorf\<close> without \<^verbatim>\<open>%w\<close>, or one that wraps another with \<^verbatim>\<open>%w\<close>. Each is
  named by the constant text of its format; the printed arguments are not kept.
\<close>

datatype err = Sentinel string | Errorf string | Wrap string err

text \<open>\<^verbatim>\<open>errors.Is\<close>: the error itself or one it wraps is the target.\<close>

fun errors_Is :: "err \<Rightarrow> err \<Rightarrow> bool" where
  "errors_Is (Wrap s e) t = (Wrap s e = t \<or> errors_Is e t)"
| "errors_Is e t = (e = t)"

subsection \<open>Indexing, slices and in-place writes\<close>

text \<open>An index expression panics out of range.\<close>

definition idx :: "'a list \<Rightarrow> nat \<Rightarrow> 'a option" where
  "idx xs i = (if i < length xs then Some (xs ! i) else None)"

text \<open>The bytes \<open>[lo, hi)\<close> of a buffer, and Go's slice expression, which panics out of range.\<close>

definition subslice :: "nat \<Rightarrow> nat \<Rightarrow> 'a list \<Rightarrow> 'a list" where
  "subslice lo hi xs = take (hi - lo) (drop lo xs)"

definition go_slice :: "'a list \<Rightarrow> nat \<Rightarrow> nat \<Rightarrow> 'a list option" where
  "go_slice xs lo hi = (if lo \<le> hi \<and> hi \<le> length xs then Some (subslice lo hi xs) else None)"

text \<open>Writing \<open>bs\<close> over the bytes of \<open>xs\<close> that start at \<open>off\<close>, and the write that panics when
  the destination does not reach that far.\<close>

definition overwrite :: "nat \<Rightarrow> 'a list \<Rightarrow> 'a list \<Rightarrow> 'a list" where
  "overwrite off bs xs = take off xs @ bs @ drop (off + length bs) xs"

definition go_overwrite :: "nat \<Rightarrow> 'a list \<Rightarrow> 'a list \<Rightarrow> 'a list option" where
  "go_overwrite off bs xs = (if off + length bs \<le> length xs then Some (overwrite off bs xs) else None)"

subsection \<open>Big-endian integers\<close>

text \<open>
  \<^verbatim>\<open>binary.BigEndian.UintN\<close> folds the bytes most significant first;
  \<^verbatim>\<open>binary.BigEndian.PutUintN\<close> stores the \<open>n\<close> bytes of a value most significant first.
\<close>

definition be_uint :: "byte list \<Rightarrow> 'a::len word" where
  "be_uint bs = foldl (\<lambda>acc b. push_bit 8 acc OR ucast b) 0 bs"

definition be_bytes :: "nat \<Rightarrow> 'a::len word \<Rightarrow> byte list" where
  "be_bytes n w = map (\<lambda>i. ucast (drop_bit (8 * (n - 1 - i)) w)) [0..<n]"

subsection \<open>Lemma collections\<close>

named_theorems slice_simps \<open>reading slices of spliced buffers\<close>
named_theorems layout_simps \<open>sizes and offsets of the on-disk layouts as numerals\<close>

subsection \<open>Facts on words\<close>

lemma unat_of_nat_small: "n < 2 ^ LENGTH('a) \<Longrightarrow> unat (of_nat n :: 'a::len word) = n"
  by (simp add: unat_of_nat)

lemma unat_add_small:
  "unat a + unat b < 2 ^ LENGTH('a) \<Longrightarrow> unat (a + b :: 'a::len word) = unat a + unat b"
  by (simp add: unat_word_ariths)

lemma unat_sub_small: "unat b \<le> unat a \<Longrightarrow> unat (a - b :: 'a::len word) = unat a - unat b"
  by (simp add: unat_sub word_le_nat_alt)

lemma unat_mult_small:
  "unat a * unat b < 2 ^ LENGTH('a) \<Longrightarrow> unat (a * b :: 'a::len word) = unat a * unat b"
  by (simp add: unat_word_ariths)

lemma unat_plus_1: "i < n \<Longrightarrow> unat (i + 1 :: 'a::len word) = Suc (unat i)"
proof -
  assume "i < n"
  then have "unat i < unat n" by (simp add: word_less_nat_alt)
  moreover have "unat n < 2 ^ LENGTH('a)" by simp
  ultimately have "unat i + unat (1 :: 'a word) < 2 ^ LENGTH('a)"
    by (metis Suc_eq_plus1 Suc_leI le_less_trans unsigned_1)
  then have "unat (i + 1) = unat i + unat (1 :: 'a word)" by (rule unat_add_small)
  then show ?thesis by simp
qed

lemma u32_distance: "(i :: 32 word) < n \<Longrightarrow> 2 ^ 32 - unat (i + 1) < 2 ^ 32 - unat i"
  using unsigned_less[of i, where 'a = nat] unat_plus_1[of i n] by simp

lemma unat_ucast_widen:
  assumes "LENGTH('a) \<le> LENGTH('b)"
  shows "unat (ucast (w :: 'a::len word) :: 'b::len word) = unat w"
proof -
  have "unat w < 2 ^ LENGTH('b)"
    using unsigned_less[of w, where 'a = nat] power_increasing[OF assms, of "2 :: nat"]
    by linarith
  then show ?thesis by (simp add: unsigned_ucast_eq take_bit_nat_eq_self)
qed

lemma bit_imp_less_width:
  assumes "unat (w :: 'a::len word) < 2 ^ n" "bit w j"
  shows "j < n"
proof (rule ccontr)
  assume "\<not> j < n"
  then have "unat w < 2 ^ j"
    using assms(1) power_increasing[of n j "2 :: nat"] by linarith
  then have "\<not> bit (unat w) j" by (simp add: bit_iff_odd)
  then show False using assms(2) by (simp add: bit_unsigned_iff)
qed

lemma bit_low_mask: "bit (2 ^ n - 1 :: 'a::len word) i \<longleftrightarrow> i < n \<and> i < LENGTH('a)"
  by (auto simp: bit_mask_iff simp flip: mask_eq_exp_minus_1)

subsection \<open>Facts on indexing and slices\<close>

lemma idx_Some_iff: "idx xs i = Some x \<longleftrightarrow> i < length xs \<and> xs ! i = x"
  by (auto simp: idx_def)

lemma idx_less [simp]: "i < length xs \<Longrightarrow> idx xs i = Some (xs ! i)"
  by (simp add: idx_def)

lemma idx_None_iff: "idx xs i = None \<longleftrightarrow> length xs \<le> i"
  by (auto simp: idx_def)

lemma length_subslice [slice_simps]:
  "hi \<le> length xs \<Longrightarrow> length (subslice lo hi xs) = hi - lo"
  by (simp add: subslice_def)

lemma nth_subslice [slice_simps]:
  "i < hi - lo \<Longrightarrow> hi \<le> length xs \<Longrightarrow> subslice lo hi xs ! i = xs ! (lo + i)"
  by (simp add: subslice_def)

lemma subslice_all [simp]: "subslice 0 (length xs) xs = xs"
  by (simp add: subslice_def)

lemma subslice_empty [simp]: "subslice lo lo xs = []"
  by (simp add: subslice_def)

lemma subslice_subslice [slice_simps]:
  "b \<le> hi - lo \<Longrightarrow> subslice a b (subslice lo hi xs) = subslice (lo + a) (lo + b) xs"
  by (simp add: subslice_def drop_take min_def add.commute)

lemma subslice_append_left:
  "hi \<le> length xs \<Longrightarrow> subslice lo hi (xs @ ys) = subslice lo hi xs"
  by (simp add: subslice_def)

lemma subslice_append_right:
  "subslice (length xs) (length xs + n) (xs @ ys) = take n ys"
  by (simp add: subslice_def)

lemma subslice_eqI:
  assumes "length xs = length ys" "hi \<le> length xs"
    and "\<And>i. lo \<le> i \<Longrightarrow> i < hi \<Longrightarrow> xs ! i = ys ! i"
  shows "subslice lo hi xs = subslice lo hi ys"
  using assms by (intro nth_equalityI) (auto simp: slice_simps)

lemma length_overwrite [simp]:
  "off + length bs \<le> length xs \<Longrightarrow> length (overwrite off bs xs) = length xs"
  by (simp add: overwrite_def)

lemma nth_overwrite:
  assumes "off + length bs \<le> length xs" "i < length xs"
  shows "overwrite off bs xs ! i =
    (if off \<le> i \<and> i < off + length bs then bs ! (i - off) else xs ! i)"
  using assms by (auto simp: overwrite_def nth_append)

lemma subslice_overwrite_same [slice_simps]:
  assumes "off + length bs \<le> length xs" "hi = off + length bs"
  shows "subslice off hi (overwrite off bs xs) = bs"
  using assms by (simp add: subslice_def overwrite_def)

lemma subslice_overwrite_disjoint [slice_simps]:
  assumes "off + length bs \<le> length xs" "hi \<le> off \<or> off + length bs \<le> lo"
  shows "subslice lo hi (overwrite off bs xs) = subslice lo hi xs"
proof -
  have "subslice lo hi (overwrite off bs xs) = subslice lo hi xs" if "hi \<le> length xs"
    using assms that by (intro subslice_eqI) (auto simp: nth_overwrite)
  moreover have "subslice lo hi (overwrite off bs xs) = subslice lo hi xs" if "length xs < hi"
  proof -
    have "drop lo (overwrite off bs xs) = drop lo xs"
      using assms that by (simp add: overwrite_def)
    then show ?thesis by (simp add: subslice_def)
  qed
  ultimately show ?thesis by linarith
qed

lemma subslice_overwrite_within:
  assumes "off + length bs \<le> length xs" "lo \<le> off" "off + length bs \<le> hi" "hi \<le> length xs"
  shows "subslice lo hi (overwrite off bs xs) = overwrite (off - lo) bs (subslice lo hi xs)"
  using assms by (intro nth_equalityI) (auto simp: slice_simps nth_overwrite add.commute)

lemma overwrite_subslice_id:
  assumes "lo \<le> hi" "hi \<le> length xs"
  shows "overwrite lo (subslice lo hi xs) xs = xs"
  using assms by (intro nth_equalityI) (auto simp: slice_simps nth_overwrite)

lemma overwrite_overwrite_same:
  assumes "length bs = length cs" "off + length bs \<le> length xs"
  shows "overwrite off bs (overwrite off cs xs) = overwrite off bs xs"
  using assms by (intro nth_equalityI) (auto simp: nth_overwrite)

lemma overwrite_append:
  assumes "pos + length xs + length ys \<le> length buf"
  shows "overwrite (pos + length xs) ys (overwrite pos xs buf) = overwrite pos (xs @ ys) buf"
  using assms by (intro nth_equalityI) (auto simp: nth_overwrite nth_append)

lemma go_slice_Some_iff:
  "go_slice xs lo hi = Some ys \<longleftrightarrow> lo \<le> hi \<and> hi \<le> length xs \<and> ys = subslice lo hi xs"
  by (auto simp: go_slice_def)

lemma go_overwrite_Some_iff:
  "go_overwrite off bs xs = Some ys \<longleftrightarrow> off + length bs \<le> length xs \<and> ys = overwrite off bs xs"
  by (auto simp: go_overwrite_def)

subsection \<open>Facts on big-endian integers\<close>

lemma length_be_bytes [simp]: "length (be_bytes n w) = n"
  by (simp add: be_bytes_def)

lemma be_uint_Nil [simp]: "be_uint [] = 0"
  by (simp add: be_uint_def)

lemma be_uint_snoc: "be_uint (bs @ [b]) = push_bit 8 (be_uint bs) OR ucast b"
  by (simp add: be_uint_def)

lemma bit_byte_less: "bit (b :: byte) n \<Longrightarrow> n < 8"
  using bit_imp_le_length by fastforce

lemma bit_be_uint:
  "bit (be_uint bs :: 'a::len word) i \<longleftrightarrow>
     i < LENGTH('a) \<and> i < 8 * length bs \<and> bit (bs ! (length bs - 1 - i div 8)) (i mod 8)"
proof (induction bs arbitrary: i rule: rev_induct)
  case Nil
  then show ?case by simp
next
  case (snoc b bs)
  show ?case
  proof (cases "i < 8")
    case True
    then show ?thesis
      by (auto simp: be_uint_snoc bit_or_iff bit_push_bit_iff bit_ucast_iff)
  next
    case False
    then obtain j where j: "i = j + 8"
      by (metis add.commute le_add_diff_inverse not_less)
    have d: "(j + 8) div 8 = Suc (j div 8)" by simp
    have nb: "\<not> bit b i" using False bit_byte_less by blast
    have less: "length bs - Suc (j div 8) < length bs" if "j < 8 * length bs"
      using that by (cases bs) auto
    show ?thesis
      using nb less snoc.IH[of j]
      by (auto simp: be_uint_snoc j d bit_or_iff bit_push_bit_iff bit_ucast_iff nth_append
          dest: bit_imp_le_length)
  qed
qed

lemma bit_nth_be_bytes:
  assumes "k < n"
  shows "bit (be_bytes n w ! k) i \<longleftrightarrow> i < 8 \<and> bit w (8 * (n - 1 - k) + i)"
  using assms by (simp add: be_bytes_def bit_ucast_iff bit_drop_bit_eq)

lemma be_uint_be_bytes [simp]:
  assumes "LENGTH('a) \<le> 8 * n"
  shows "be_uint (be_bytes n (w :: 'a::len word)) = w"
proof (rule bit_word_eqI)
  fix i assume i: "i < LENGTH('a)"
  then have lt: "i < 8 * n" using assms by simp
  then have "i div 8 < n" by auto
  then have "8 * (n - Suc (n - Suc (i div 8))) + i mod 8 = i" by auto
  then show "bit (be_uint (be_bytes n w) :: 'a word) i = bit w i"
    using i lt \<open>i div 8 < n\<close> by (simp add: bit_be_uint bit_nth_be_bytes)
qed

lemma be_bytes_be_uint [simp]:
  assumes "length bs = n" "8 * n \<le> LENGTH('a)"
  shows "be_bytes n (be_uint bs :: 'a::len word) = bs"
proof (rule nth_equalityI)
  show "length (be_bytes n (be_uint bs :: 'a word)) = length bs" using assms by simp
  fix k assume "k < length (be_bytes n (be_uint bs :: 'a word))"
  then have k: "k < n" by simp
  show "be_bytes n (be_uint bs :: 'a word) ! k = bs ! k"
  proof (rule bit_word_eqI)
    fix i assume "i < LENGTH(8)"
    then have i: "i < 8" by simp
    have "8 * (n - 1 - k) + i < 8 * n" using k i by (cases n) auto
    moreover have "length bs - 1 - (8 * (n - 1 - k) + i) div 8 = k" using assms k i by auto
    ultimately show "bit (be_bytes n (be_uint bs :: 'a word) ! k) i = bit (bs ! k) i"
      using assms k i by (simp add: bit_nth_be_bytes bit_be_uint)
  qed
qed

lemma be_uint_inject:
  assumes "length as = length bs" "8 * length bs \<le> LENGTH('a)"
    and "(be_uint as :: 'a::len word) = be_uint bs"
  shows "as = bs"
  using assms by (metis be_bytes_be_uint)

subsection \<open>Callbacks\<close>

text \<open>The effect of a scan: a callback with a state of its own, run over a list of items until it reports
  an error.\<close>

fun visit :: "('a \<Rightarrow> 'b \<Rightarrow> 'c \<Rightarrow> (err + unit) \<times> 'c) \<Rightarrow> ('a \<times> 'b) list \<Rightarrow> 'c \<Rightarrow> (err + unit) \<times> 'c" where
  "visit fn [] c = (Inr (), c)"
| "visit fn ((a, b) # xs) c =
     (case fn a b c of (Inl e, c) \<Rightarrow> (Inl e, c) | (Inr _, c) \<Rightarrow> visit fn xs c)"

lemma strict_singleton:
  assumes "set xs = {(a, b)}" "sorted_wrt R (map fst xs)" "\<not> R a a"
  shows "xs = [(a, b)]"
proof (cases xs)
  case (Cons x ys)
  then have x: "x = (a, b)" and "\<forall>y \<in> set ys. y = (a, b) \<and> R a (fst y)" using assms(1,2) by auto
  then have "ys = []" using assms(3) by (cases ys) auto
  then show ?thesis using Cons x by simp
qed (use assms(1) in simp)

lemma visit_append:
  "visit fn (xs @ ys) c = (case visit fn xs c of (Inl e, c) \<Rightarrow> (Inl e, c) | (Inr _, c) \<Rightarrow> visit fn ys c)"
  by (induction xs arbitrary: c) (auto split: prod.split sum.split)

end
