(* ===== verification/Bit_Fields.thy ===== *)
theory Bit_Fields
  imports Db_Prelude
begin

text \<open>
  The bit-field helpers of \<^verbatim>\<open>internal/util/bits.go\<close>: \<open>ReadBits\<close> and \<open>WriteBits\<close> move a run of
  1 to 16 bits at an arbitrary bit offset of a byte slice. The offsets and the window arithmetic
  keep Go's widths (\<^verbatim>\<open>uint16\<close>, \<^verbatim>\<open>uint32\<close>), so their wrap-around is part of the model; a slice
  expression out of range is \<^const>\<open>None\<close>. The specification is the big-endian bit stream of
  the buffer, \<open>stream_bit\<close>.
\<close>

subsection \<open>The code\<close>

definition maxBitLength :: u8 where
  "maxBitLength = 16"

definition bits_window :: "byte list \<Rightarrow> u16 \<Rightarrow> u8 \<Rightarrow> (nat \<times> byte list \<times> u16) option" where
  \<comment> \<open>the shared head of both helpers: first byte, bytes spanned, bits after the target\<close>
  "bits_window bytes offset len =
     (let startByte = offset div 8;
          endByte = (offset + ucast len - 1) div 8
      in do {
        window \<leftarrow> go_slice bytes (unat startByte) (unat (endByte + 1));
        Some (unat startByte, window, of_nat (length window) * 8 - offset mod 8 - ucast len)
      })"

definition ReadBits :: "byte list \<Rightarrow> u16 \<Rightarrow> u8 \<Rightarrow> (err + u16) option" where
  "ReadBits bytes offset len =
     (if len = 0 \<or> len > maxBitLength then Some (Inl (Errorf ''length out of range''))
      else if (ucast offset :: u32) + ucast len > of_nat (length bytes) * 8
        then Some (Inl (Errorf ''read range exceeds bits''))
      else do {
        (startByte, window, tail) \<leftarrow> bits_window bytes offset len;
        let windowVal = (be_uint window :: u32);
        let mask = (push_bit (unat len) 1 - 1 :: u32);
        Some (Inr (ucast (drop_bit (unat tail) windowVal AND mask)))
      })"

text \<open>The loop that writes the window back, last byte first.\<close>

fun put_window :: "nat \<Rightarrow> u32 \<Rightarrow> byte list \<Rightarrow> byte list" where
  "put_window 0 windowVal window = window"
| "put_window (Suc i) windowVal window =
     put_window i (drop_bit 8 windowVal) (window[i := ucast windowVal])"

text \<open>\<open>WriteBits\<close> returns the written buffer; its boolean result is \<^verbatim>\<open>true\<close> exactly when the
  error is nil. On an error the buffer is as it was.\<close>

definition WriteBits :: "byte list \<Rightarrow> u16 \<Rightarrow> u8 \<Rightarrow> u16 \<Rightarrow> (err + byte list) option" where
  "WriteBits bytes offset len val =
     (if len = 0 \<or> len > maxBitLength then Some (Inl (Errorf ''length out of range''))
      else if (ucast offset :: u32) + ucast len > of_nat (length bytes) * 8
        then Some (Inl (Errorf ''write range exceeds bits''))
      else if (ucast val :: u32) > push_bit (unat len) 1 - 1
        then Some (Inl (Errorf ''value does not fit''))
      else do {
        (startByte, window, tail) \<leftarrow> bits_window bytes offset len;
        let windowVal = (be_uint window :: u32);
        let mask = push_bit (unat tail) (push_bit (unat len) 1 - 1);
        let windowVal' = (windowVal AND NOT mask) OR push_bit (unat tail) (ucast val);
        Some (Inr (overwrite startByte (put_window (length window) windowVal' window) bytes))
      })"

subsection \<open>The specification\<close>

text \<open>Bit \<open>p\<close> of a buffer read as one big-endian bit stream, and when a field lies inside it.\<close>

definition stream_bit :: "byte list \<Rightarrow> nat \<Rightarrow> bool" where
  "stream_bit bs p = bit (bs ! (p div 8)) (7 - p mod 8)"

definition bit_range :: "byte list \<Rightarrow> u16 \<Rightarrow> u8 \<Rightarrow> bool" where
  "bit_range bs offset len \<longleftrightarrow>
     0 < unat len \<and> unat len \<le> 16 \<and> unat offset + unat len \<le> 8 * length bs"

subsection \<open>The window\<close>

lemma put_window_be_bytes_aux:
  "n \<le> length w \<Longrightarrow> put_window n v w = be_bytes n v @ drop n w"
proof (induction n arbitrary: v w)
  case 0
  then show ?case by (simp add: be_bytes_def)
next
  case (Suc n)
  have shift: "be_bytes n (drop_bit 8 v) = butlast (be_bytes (Suc n) v)"
  proof (rule nth_equalityI)
    fix i assume "i < length (be_bytes n (drop_bit 8 v))"
    then have "i < n" and "8 + 8 * (n - Suc i) = 8 * (n - i)" by auto
    then show "be_bytes n (drop_bit 8 v) ! i = butlast (be_bytes (Suc n) v) ! i"
      by (simp add: be_bytes_def nth_butlast add.commute)
  qed simp
  have last: "last (be_bytes (Suc n) v) = ucast v"
    by (simp add: be_bytes_def)
  have drp: "drop n (w[n := ucast v]) = ucast v # drop (Suc n) w"
    using Suc.prems by (simp add: drop_update_swap Cons_nth_drop_Suc[symmetric])
  have split: "be_bytes (Suc n) v = butlast (be_bytes (Suc n) v) @ [ucast v]"
    by (metis last append_butlast_last_id length_be_bytes list.size(3) nat.distinct(1))
  show ?case
    using Suc by (simp add: drp shift) (metis split)
qed

lemma put_window_be_bytes: "put_window (length w) v w = be_bytes (length w) v"
  by (simp add: put_window_be_bytes_aux)

lemma bits_window_ok:
  assumes "length bs \<le> 8192" and rng: "bit_range bs offset len"
  obtains s window tail where
    "bits_window bs offset len = Some (s, window, tail)"
    "window = subslice s (s + length window) bs" "s + length window \<le> length bs"
    "8 * s + 8 * length window = unat offset + unat len + unat tail"
    "8 * s \<le> unat offset" "length window \<le> 3" "0 < length window" "unat tail < 8"
proof -
  define p l where p: "p = unat offset" and l: "l = unat len"
  define s e where s: "s = p div 8" and e: "e = (p + l - 1) div 8"
  have pl: "0 < l" "l \<le> 16" "p + l \<le> 8 * length bs" "p + l \<le> 65536"
    using assms by (auto simp: bit_range_def p l)
  have pm: "p = 8 * s + p mod 8" by (simp add: s)
  have em: "p + l - 1 = 8 * e + (p + l - 1) mod 8" by (simp add: e)
  have "offset + ucast len - 1 = of_nat (p + l - 1)"
    using pl by (simp add: p l)
  then have end1: "unat (offset + ucast len - 1) = p + l - 1"
    by (simp only:) (rule unat_of_nat_small, use pl in simp)
  have ele: "e \<le> 8191" "e < length bs" "s \<le> e" "e \<le> s + 2"
    using pl by (auto simp: e s)
  have endw: "unat ((offset + ucast len - 1) div 8 + 1) = Suc e"
  proof -
    have "(offset + ucast len - 1) div 8 = of_nat e"
      by (rule word_unat_eq_iff[THEN iffD2]) (use ele in \<open>simp add: unat_div end1 e unat_of_nat_small\<close>)
    then have "(offset + ucast len - 1) div 8 + 1 = of_nat (Suc e)" by simp
    then show ?thesis by (simp only:) (rule unat_of_nat_small, use ele in simp)
  qed
  have start: "unat (offset div 8) = s" by (simp add: unat_div s p)
  define w where w: "w = subslice s (Suc e) bs"
  have lw: "length w = Suc e - s" using ele by (simp add: w slice_simps)
  have sp: "8 * s + 8 * length w = p + l + (8 * length w - p mod 8 - l)"
    "8 * length w - p mod 8 - l < 8" "p mod 8 + l \<le> 8 * length w"
    using lw ele pl pm em by linarith+
  have "of_nat (length w) * 8 - offset mod 8 - ucast len = (of_nat (8 * length w - p mod 8 - l) :: u16)"
  proof -
    have "(of_nat (p mod 8) :: u16) = offset mod 8"
      by (simp add: p word_unat_eq_iff unat_mod unat_of_nat_small)
    then show ?thesis using sp(3) by (simp add: l mult.commute)
  qed
  then have tail: "unat (of_nat (length w) * 8 - offset mod 8 - ucast len :: u16) = 8 * length w - p mod 8 - l"
    by (simp only:) (rule unat_of_nat_small, use sp(2) in simp)
  have res: "bits_window bs offset len =
      Some (s, w, of_nat (length w) * 8 - offset mod 8 - ucast len)"
    using ele by (simp add: bits_window_def start endw go_slice_def w)
  have sub: "w = subslice s (s + length w) bs" "s + length w \<le> length bs"
    using ele lw by (auto simp: w)
  have w3: "length w \<le> 3" "0 < length w" using lw ele by auto
  show thesis
    using that[OF res sub] sp(1,2) tail pm w3 by (simp add: p l)
qed

text \<open>A position of the window counted from its least significant end is a position of the
  stream counted from its start.\<close>

lemma stream_bit_window:
  assumes "q < 8 * n" "s + n \<le> length bs"
  shows "bit (subslice s (s + n) bs ! (n - Suc (q div 8))) (q mod 8) =
    stream_bit bs (8 * s + 8 * n - Suc q)"
proof -
  have q: "q = 8 * (q div 8) + q mod 8" and m: "q mod 8 < 8" and "q div 8 < n"
    using assms by auto
  define c r where c: "c = s + n - Suc (q div 8)" and r: "r = 7 - q mod 8"
  have "8 * s + 8 * n - Suc q = 8 * c + r" and "r < 8" and "7 - r = q mod 8"
    using q m \<open>q div 8 < n\<close> unfolding c r by linarith+
  then have "(8 * s + 8 * n - Suc q) div 8 = c" "7 - (8 * s + 8 * n - Suc q) mod 8 = q mod 8"
    by simp_all
  then show ?thesis
    using assms m \<open>q div 8 < n\<close> by (simp add: stream_bit_def slice_simps c)
qed

lemma range_check:
  assumes "length bs \<le> 8192"
  shows "(ucast (offset :: u16) :: u32) + ucast (len :: u8) > of_nat (length bs) * 8 \<longleftrightarrow>
    unat offset + unat len > 8 * length bs"
proof -
  have "unat (ucast offset + ucast len :: u32) = unat offset + unat len"
    using unsigned_less[of offset, where 'a = nat] unsigned_less[of len, where 'a = nat]
    by (subst unat_add_small) (simp_all add: unat_ucast_widen)
  moreover have "unat (of_nat (length bs) * 8 :: u32) = 8 * length bs"
    using assms by (subst unat_mult_small) (simp_all add: unat_of_nat_small)
  ultimately show ?thesis by (simp add: word_less_nat_alt)
qed

lemma length_check:
  "(len :: u8) = 0 \<or> len > maxBitLength \<longleftrightarrow> \<not> (0 < unat len \<and> unat len \<le> 16)"
  by (auto simp: maxBitLength_def word_less_nat_alt unat_eq_0)

subsection \<open>What the helpers compute\<close>

lemma ReadBits_in_range:
  assumes bs: "length bs \<le> 8192" and rng: "bit_range bs offset len"
  obtains v where "ReadBits bs offset len = Some (Inr v)"
    "\<And>i. bit v i \<longleftrightarrow> i < unat len \<and> stream_bit bs (unat offset + unat len - 1 - i)"
proof -
  obtain s w t where w: "bits_window bs offset len = Some (s, w, t)"
    "w = subslice s (s + length w) bs" "s + length w \<le> length bs"
    "8 * s + 8 * length w = unat offset + unat len + unat t"
    "8 * s \<le> unat offset" "length w \<le> 3"
    using bits_window_ok[OF bs rng] by metis
  define v where "v = (ucast (drop_bit (unat t) (be_uint w :: u32) AND (push_bit (unat len) 1 - 1)) :: u16)"
  have len: "unat len \<le> 16" "0 < unat len" using rng by (auto simp: bit_range_def)
  have "ReadBits bs offset len = Some (Inr v)"
    using rng range_check[OF bs, of offset len] length_check[of len]
    by (auto simp: ReadBits_def w(1) v_def bit_range_def)
  moreover have "bit v i \<longleftrightarrow> i < unat len \<and> stream_bit bs (unat offset + unat len - 1 - i)" for i
  proof (cases "i < unat len")
    case True
    then have q: "unat t + i < 8 * length w" using w(4,5) by linarith
    have "bit v i = bit (w ! (length w - 1 - (unat t + i) div 8)) ((unat t + i) mod 8)"
      using True len q w(6)
      by (simp add: v_def bit_ucast_iff bit_and_iff bit_drop_bit_eq bit_be_uint bit_low_mask add.commute)
    also have "\<dots> = stream_bit bs (8 * s + 8 * length w - 1 - (unat t + i))"
      by (subst w(2)) (simp add: stream_bit_window[OF q w(3)])
    also have "8 * s + 8 * length w - 1 - (unat t + i) = unat offset + unat len - 1 - i"
      using w(4) by simp
    finally show ?thesis using True by simp
  next
    case False
    then show ?thesis by (simp add: v_def bit_ucast_iff bit_and_iff bit_low_mask)
  qed
  ultimately show thesis by (rule that)
qed

lemma fits_check:
  assumes "unat (len :: u8) \<le> 16"
  shows "(ucast (val :: u16) :: u32) > push_bit (unat len) 1 - 1 \<longleftrightarrow> 2 ^ unat len \<le> unat val"
proof -
  have lt: "(2 :: nat) ^ unat len < 2 ^ 32"
    using assms by (intro power_strict_increasing) auto
  have "unat (push_bit (unat len) 1 - 1 :: u32) = 2 ^ unat len - 1"
  proof -
    have "(push_bit (unat len) 1 :: u32) = of_nat (2 ^ unat len)" by (simp add: push_bit_eq_mult)
    then have "unat (push_bit (unat len) 1 :: u32) = 2 ^ unat len"
      by (simp only:) (rule unat_of_nat_small, use lt in simp)
    then show ?thesis by (subst unat_sub_small) simp_all
  qed
  then show ?thesis
    by (auto simp: word_less_nat_alt unat_ucast_widen less_diff_conv2 not_le)
qed

lemma stream_bit_overwrite:
  assumes "s + length w \<le> length bs" "p < 8 * length bs"
  shows "stream_bit (overwrite s w bs) p =
    (if 8 * s \<le> p \<and> p < 8 * s + 8 * length w
     then bit (w ! (p div 8 - s)) (7 - p mod 8) else stream_bit bs p)"
proof -
  have "p div 8 < length bs" using assms by auto
  moreover have "s \<le> p div 8 \<and> p div 8 < s + length w \<longleftrightarrow> 8 * s \<le> p \<and> p < 8 * s + 8 * length w"
    by auto
  ultimately show ?thesis using assms by (auto simp: stream_bit_def nth_overwrite)
qed

text \<open>The bits of a window of bytes, read as a word and written back from one.\<close>

lemma window_read:
  assumes w: "w = subslice s (s + length w) bs" "s + length w \<le> length bs" and q: "q < 8 * length w" "q < 32"
  shows "bit (be_uint w :: u32) q = stream_bit bs (8 * s + 8 * length w - 1 - q)"
proof -
  have "bit (be_uint w :: u32) q = bit (w ! (length w - 1 - q div 8)) (q mod 8)" using q by (simp add: bit_be_uint)
  also have "\<dots> = stream_bit bs (8 * s + 8 * length w - 1 - q)" by (subst w(1)) (simp add: stream_bit_window[OF q(1) w(2)])
  finally show ?thesis .
qed

lemma window_written:
  assumes "s + n \<le> length bs" "q < 8 * n"
  shows "stream_bit (overwrite s (be_bytes n (v :: u32)) bs) (8 * s + 8 * n - 1 - q) = bit v q"
proof -
  have "subslice s (s + n) (overwrite s (be_bytes n v) bs) = be_bytes n v" using assms(1) by (simp add: slice_simps)
  then have "stream_bit (overwrite s (be_bytes n v) bs) (8 * s + 8 * n - 1 - q) = bit (be_bytes n v ! (n - 1 - q div 8)) (q mod 8)"
    using stream_bit_window[OF assms(2), of s "overwrite s (be_bytes n v) bs"] assms(1) by simp
  moreover have "n - 1 - q div 8 < n" "8 * (n - 1 - (n - 1 - q div 8)) + q mod 8 = q"
    using assms(2) by (auto simp: less_mult_imp_div_less)
  ultimately show ?thesis by (simp add: bit_nth_be_bytes)
qed

lemma WriteBits_in_range:
  assumes bs: "length bs \<le> 8192" and rng: "bit_range bs offset len" and fit: "unat val < 2 ^ unat len"
  obtains bs' where "WriteBits bs offset len val = Some (Inr bs')" "length bs' = length bs"
    "\<And>p. p < 8 * length bs \<Longrightarrow> stream_bit bs' p =
       (if unat offset \<le> p \<and> p < unat offset + unat len
        then bit val (unat offset + unat len - 1 - p) else stream_bit bs p)"
proof -
  obtain s w t where w: "bits_window bs offset len = Some (s, w, t)"
    "w = subslice s (s + length w) bs" "s + length w \<le> length bs"
    "8 * s + 8 * length w = unat offset + unat len + unat t"
    "8 * s \<le> unat offset" "length w \<le> 3"
    using bits_window_ok[OF bs rng] by metis
  define m where "m = (push_bit (unat t) (push_bit (unat len) 1 - 1) :: u32)"
  define v where "v = (be_uint w AND NOT m) OR push_bit (unat t) (ucast val :: u32)"
  define bs' where "bs' = overwrite s (be_bytes (length w) v) bs"
  have len: "unat len \<le> 16" "0 < unat len" using rng by (auto simp: bit_range_def)
  have "WriteBits bs offset len val = Some (Inr bs')"
    using rng fit range_check[OF bs, of offset len] length_check[of len] fits_check[OF len(1), of val]
    by (auto simp: WriteBits_def w(1) v_def m_def bs'_def bit_range_def put_window_be_bytes)
  moreover have "length bs' = length bs" using w(3) by (simp add: bs'_def)
  moreover have "stream_bit bs' p =
       (if unat offset \<le> p \<and> p < unat offset + unat len
        then bit val (unat offset + unat len - 1 - p) else stream_bit bs p)"
    if p: "p < 8 * length bs" for p
  proof (cases "8 * s \<le> p \<and> p < 8 * s + 8 * length w")
    case False
    then have "\<not> (unat offset \<le> p \<and> p < unat offset + unat len)" using w(4,5) by linarith
    then show ?thesis using False w(3) p by (auto simp: bs'_def stream_bit_overwrite)
  next
    case True
    define q where "q = 8 * s + 8 * length w - 1 - p"
    have q: "q < 8 * length w" "8 * s + 8 * length w - 1 - q = p" using True by (auto simp: q_def)
    have q32: "q < 32" using q(1) w(6) by linarith
    have "stream_bit bs' p = bit v q" using window_written[OF w(3) q(1), of v] q(2) by (simp add: bs'_def)
    moreover have "bit (be_uint w :: u32) q = stream_bit bs p" using window_read[OF w(2,3) q(1) q32] q(2) by simp
    moreover have "bit v q \<longleftrightarrow> (if unat t \<le> q \<and> q < unat t + unat len
        then bit val (q - unat t) else bit (be_uint w :: u32) q)"
      using q32 len bit_imp_less_width[OF fit, of "q - unat t"]
      by (auto simp: v_def m_def bit_or_iff bit_and_iff bit_not_iff bit_push_bit_iff bit_ucast_iff
          bit_low_mask)
    moreover have "unat t \<le> q \<and> q < unat t + unat len \<longleftrightarrow>
        unat offset \<le> p \<and> p < unat offset + unat len"
      using True w(4,5) by (auto simp: q_def)
    moreover have "q - unat t = unat offset + unat len - 1 - p"
      using w(4) by (simp add: q_def)
    ultimately show ?thesis by simp
  qed
  ultimately show thesis by (rule that)
qed

lemma ReadBits_rejects:
  assumes "length bs \<le> 8192" "\<not> bit_range bs offset len"
  shows "\<exists>e. ReadBits bs offset len = Some (Inl e)"
  using assms range_check[of bs offset len] length_check[of len]
  by (auto simp: ReadBits_def bit_range_def)

lemma WriteBits_rejects:
  assumes "length bs \<le> 8192" "\<not> bit_range bs offset len \<or> 2 ^ unat len \<le> unat val"
  shows "\<exists>e. WriteBits bs offset len val = Some (Inl e)"
  using assms range_check[of bs offset len] length_check[of len] fits_check[of len val]
  by (auto simp: WriteBits_def bit_range_def)

text \<open>Two in-range reads that see the same stream bits return the same value.\<close>

lemma ReadBits_cong:
  assumes "length bs \<le> 8192" "length bs' = length bs" "bit_range bs offset len"
    and "\<And>p. unat offset \<le> p \<Longrightarrow> p < unat offset + unat len \<Longrightarrow> stream_bit bs' p = stream_bit bs p"
  shows "ReadBits bs' offset len = ReadBits bs offset len"
proof -
  have rng': "bit_range bs' offset len" using assms(2,3) by (simp add: bit_range_def)
  obtain v where v: "ReadBits bs offset len = Some (Inr v)"
    "\<And>i. bit v i \<longleftrightarrow> i < unat len \<and> stream_bit bs (unat offset + unat len - 1 - i)"
    using ReadBits_in_range[OF assms(1,3)] by blast
  obtain v' where v': "ReadBits bs' offset len = Some (Inr v')"
    "\<And>i. bit v' i \<longleftrightarrow> i < unat len \<and> stream_bit bs' (unat offset + unat len - 1 - i)"
    using ReadBits_in_range[OF _ rng'] assms(1,2) by metis
  have "v' = v"
    by (rule bit_word_eqI) (use v(2) v'(2) assms(4) in auto)
  then show ?thesis using v v' by simp
qed

lemma WriteBits_OkD:
  assumes "length bs \<le> 8192" "WriteBits bs offset len val = Some (Inr bs')"
  shows "bit_range bs offset len" and "unat val < 2 ^ unat len" and "length bs' = length bs"
    and "p < 8 * length bs \<Longrightarrow> stream_bit bs' p =
       (if unat offset \<le> p \<and> p < unat offset + unat len
        then bit val (unat offset + unat len - 1 - p) else stream_bit bs p)"
proof -
  show rng: "bit_range bs offset len" and fit: "unat val < 2 ^ unat len"
    using WriteBits_rejects[OF assms(1), of offset len val] assms(2) by force+
  show "length bs' = length bs"
    and "p < 8 * length bs \<Longrightarrow> stream_bit bs' p =
       (if unat offset \<le> p \<and> p < unat offset + unat len
        then bit val (unat offset + unat len - 1 - p) else stream_bit bs p)"
    using WriteBits_in_range[OF assms(1) rng fit] assms(2)
    by (metis option.inject sum.inject(2))+
qed

lemma ReadBits_WriteBits_same:
  assumes bs: "length bs \<le> 8192" and w: "WriteBits bs offset len val = Some (Inr bs')"
  shows "ReadBits bs' offset len = Some (Inr val)"
proof -
  note ok = WriteBits_OkD[OF bs w]
  have rng': "bit_range bs' offset len" "length bs' \<le> 8192"
    using ok(1,3) bs by (auto simp: bit_range_def)
  obtain v where v: "ReadBits bs' offset len = Some (Inr v)"
    "\<And>i. bit v i \<longleftrightarrow> i < unat len \<and> stream_bit bs' (unat offset + unat len - 1 - i)"
    using ReadBits_in_range[OF rng'(2,1)] by blast
  have "v = val"
  proof (rule bit_word_eqI)
    fix i
    define p where "p = unat offset + unat len - 1 - i"
    have "bit v i \<longleftrightarrow> i < unat len \<and> bit val i"
    proof (cases "i < unat len")
      case True
      then have "p < 8 * length bs" "unat offset \<le> p" "p < unat offset + unat len"
        "unat offset + unat len - 1 - p = i"
        using ok(1) by (auto simp: p_def bit_range_def)
      then have "stream_bit bs' p = bit val i" using ok(4)[of p] by simp
      then show ?thesis using v(2)[of i] by (simp add: p_def)
    qed (use v(2)[of i] in simp)
    then show "bit v i = bit val i" using bit_imp_less_width[OF ok(2), of i] by blast
  qed
  then show ?thesis using v(1) by simp
qed

lemma ReadBits_WriteBits_other:
  assumes "length bs \<le> 8192" "WriteBits bs offset len val = Some (Inr bs')"
    and "bit_range bs offset' len'"
    and "unat offset' + unat len' \<le> unat offset \<or> unat offset + unat len \<le> unat offset'"
  shows "ReadBits bs' offset' len' = ReadBits bs offset' len'"
proof (rule ReadBits_cong[OF assms(1) _ assms(3)])
  show "length bs' = length bs" by (rule WriteBits_OkD(3)[OF assms(1,2)])
  show "stream_bit bs' p = stream_bit bs p"
    if "unat offset' \<le> p" "p < unat offset' + unat len'" for p
    using WriteBits_OkD(4)[OF assms(1,2), of p] assms(3,4) that by (auto simp: bit_range_def)
qed

lemma ReadBits_overwrite_other:
  assumes "length bs \<le> 8192" "bit_range bs offset len" "s + length w \<le> length bs"
    and "unat offset + unat len \<le> 8 * s \<or> 8 * s + 8 * length w \<le> unat offset"
  shows "ReadBits (overwrite s w bs) offset len = ReadBits bs offset len"
  using assms by (intro ReadBits_cong) (auto simp: stream_bit_overwrite bit_range_def)

subsection \<open>A packed field of a fixed-size view\<close>

text \<open>
  The packed on-disk structures use the helpers at constant positions of a view of constant size.
  This locale is what such a field promises its users; the slot entry and the tuple header
  interpret it once per field.
\<close>

locale bit_field =
  fixes pos :: u16 and width :: u8 and size :: nat
  assumes width_pos: "0 < unat width" and width_16: "unat width \<le> 16"
    and inside: "unat pos + unat width \<le> 8 * size" and size_page: "size \<le> 8192"
begin

lemma in_range: "length bs = size \<Longrightarrow> bit_range bs pos width"
  using width_pos width_16 inside by (simp add: bit_range_def)

lemma get_total:
  assumes "length bs = size"
  obtains v where "ReadBits bs pos width = Some (Inr v)"
  using ReadBits_in_range[OF _ in_range[OF assms]] assms size_page by metis

lemma set_fits:
  assumes "length bs = size" "unat v < 2 ^ unat width"
  obtains bs' where "WriteBits bs pos width v = Some (Inr bs')" "length bs' = size"
  using WriteBits_in_range[OF _ in_range[OF assms(1)] assms(2)] assms(1) size_page by metis

lemma set_too_wide:
  assumes "length bs = size" "2 ^ unat width \<le> unat v"
  shows "\<exists>e. WriteBits bs pos width v = Some (Inl e)"
  using WriteBits_rejects[of bs pos width v] assms size_page by simp

lemma length_set:
  "length bs = size \<Longrightarrow> WriteBits bs pos width v = Some (Inr bs') \<Longrightarrow> length bs' = size"
  using WriteBits_OkD(3)[of bs pos width v bs'] size_page by simp

lemma get_set:
  "length bs = size \<Longrightarrow> WriteBits bs pos width v = Some (Inr bs') \<Longrightarrow>
    ReadBits bs' pos width = Some (Inr v)"
  using ReadBits_WriteBits_same[of bs pos width v bs'] size_page by simp

lemma get_set_other:
  assumes "length bs = size" "WriteBits bs off len v = Some (Inr bs')"
    and "unat pos + unat width \<le> unat off \<or> unat off + unat len \<le> unat pos"
  shows "ReadBits bs' pos width = ReadBits bs pos width"
  using ReadBits_WriteBits_other[of bs off len v bs' pos width] assms in_range size_page by simp

end

subsection \<open>Properties\<close>

text \<open>C40. On a buffer of at most one page, \<^verbatim>\<open>WriteBits\<close> of an in-range field with a value that fits
  succeeds, keeps the length, stores the value big-endian in exactly that range of the bit stream
  and leaves every other bit as it was.\<close>

theorem WriteBits_stream:
  assumes "length bs \<le> 8192" "bit_range bs offset len" "unat val < 2 ^ unat len"
  shows "\<exists>bs'. WriteBits bs offset len val = Some (Inr bs') \<and> length bs' = length bs \<and>
    (\<forall>p < 8 * length bs. stream_bit bs' p =
       (if unat offset \<le> p \<and> p < unat offset + unat len
        then bit val (unat offset + unat len - 1 - p) else stream_bit bs p))"
  by (rule WriteBits_in_range[OF assms]) blast

theorem WriteBits_stream_witness:
  "\<exists>bs'. WriteBits [255, 0, 255, 1] 15 15 5 = Some (Inr bs') \<and> stream_bit bs' 27 \<and>
    stream_bit bs' 14 = stream_bit [255, 0, 255, 1] 14"
proof -
  obtain bs' where "WriteBits [255, 0, 255, 1] 15 15 5 = Some (Inr bs')"
    "\<forall>p < 32. stream_bit bs' p =
       (if 15 \<le> p \<and> p < 30 then bit (5 :: u16) (15 + 15 - 1 - p) else stream_bit [255, 0, 255, 1] p)"
    using WriteBits_stream[of "[255, 0, 255, 1]" 15 15 5] by (auto simp: bit_range_def)
  then show ?thesis by (intro exI[of _ bs']) simp
qed

text \<open>A field written by \<^verbatim>\<open>WriteBits\<close> is read back by \<^verbatim>\<open>ReadBits\<close>, and every in-range field
  that does not overlap it reads as before: the round trip and the frame law of the packed
  layouts.\<close>

theorem ReadBits_WriteBits:
  assumes "length bs \<le> 8192" "WriteBits bs offset len val = Some (Inr bs')"
  shows "ReadBits bs' offset len = Some (Inr val) \<and>
    (\<forall>offset' len'. bit_range bs offset' len' \<and>
       (unat offset' + unat len' \<le> unat offset \<or> unat offset + unat len \<le> unat offset') \<longrightarrow>
       ReadBits bs' offset' len' = ReadBits bs offset' len')"
  using ReadBits_WriteBits_same[OF assms] ReadBits_WriteBits_other[OF assms] by blast

theorem ReadBits_WriteBits_witness:
  "WriteBits [255, 0, 255, 1] 15 15 5 = Some (Inr [255, 0, 0, 21]) \<and>
   ReadBits [255, 0, 0, 21] 15 15 = Some (Inr 5) \<and>
   ReadBits [255, 0, 0, 21] 30 2 = ReadBits [255, 0, 255, 1] 30 2"
proof -
  have w: "WriteBits [255, 0, 255, 1] 15 15 5 = Some (Inr [255, 0, 0, 21])" by code_simp
  show ?thesis
    using ReadBits_WriteBits[OF _ w] w by (auto simp: bit_range_def)
qed

text \<open>On a buffer of at most one page both helpers are total, and they report an error exactly
  for a length outside 1..16, a range past the end or (\<^verbatim>\<open>WriteBits\<close>) a value too wide for the
  field.\<close>

theorem bits_errors:
  assumes "length bs \<le> 8192"
  shows "((\<exists>v. ReadBits bs offset len = Some (Inr v)) \<longleftrightarrow> bit_range bs offset len) \<and>
    ((\<exists>e. ReadBits bs offset len = Some (Inl e)) \<longleftrightarrow> \<not> bit_range bs offset len) \<and>
    ((\<exists>bs'. WriteBits bs offset len val = Some (Inr bs')) \<longleftrightarrow>
      bit_range bs offset len \<and> unat val < 2 ^ unat len) \<and>
    ((\<exists>e. WriteBits bs offset len val = Some (Inl e)) \<longleftrightarrow>
      \<not> (bit_range bs offset len \<and> unat val < 2 ^ unat len))"
proof (intro conjI)
  note r = ReadBits_in_range[OF assms, of offset len] ReadBits_rejects[OF assms, of offset len]
  note w = WriteBits_in_range[OF assms, of offset len val] WriteBits_rejects[OF assms, of offset len val]
  show "(\<exists>v. ReadBits bs offset len = Some (Inr v)) \<longleftrightarrow> bit_range bs offset len"
    "(\<exists>e. ReadBits bs offset len = Some (Inl e)) \<longleftrightarrow> \<not> bit_range bs offset len"
    using r by (metis option.inject sum.distinct(1))+
  show "(\<exists>bs'. WriteBits bs offset len val = Some (Inr bs')) \<longleftrightarrow>
      bit_range bs offset len \<and> unat val < 2 ^ unat len"
    "(\<exists>e. WriteBits bs offset len val = Some (Inl e)) \<longleftrightarrow>
      \<not> (bit_range bs offset len \<and> unat val < 2 ^ unat len)"
    using w by (metis option.inject sum.distinct(1) not_less)+
qed

theorem bits_errors_witness:
  "(\<exists>e. ReadBits [1, 2] 8 9 = Some (Inl e)) \<and> (\<exists>e. WriteBits [1, 2] 0 4 16 = Some (Inl e))"
  using bits_errors[of "[1, 2]" 8 9] bits_errors[of "[1, 2]" 0 4 16]
  by (simp add: bit_range_def)

text \<open>Past one page the end of the range overflows \<^verbatim>\<open>uint16\<close>: on a 8194-byte buffer the range
  of 16 bits at bit 65535 lies inside the buffer and passes every check, and the slice expression
  of both helpers panics.\<close>

theorem bits_overflow_panics:
  "bit_range (replicate 8194 0) 65535 16 \<and> ReadBits (replicate 8194 0) 65535 16 = None \<and>
   WriteBits (replicate 8194 0) 65535 16 0 = None"
  by (simp add: bit_range_def ReadBits_def WriteBits_def bits_window_def go_slice_def maxBitLength_def
      word_less_nat_alt unat_ucast_widen)

end
