(* ===== verification/Page_Layout.thy ===== *)
theory Page_Layout
  imports Bit_Fields
begin

text \<open>
  The byte layouts of \<^verbatim>\<open>internal/storage/page\<close>: the raw frame (\<^verbatim>\<open>page.go\<close>), the 24-byte page
  header (\<^verbatim>\<open>page_header.go\<close>), the 4-byte slot entry (\<^verbatim>\<open>slot_entry.go\<close>) and the 12-byte tuple
  header (\<^verbatim>\<open>tuple.go\<close>). The Go types are pointers into a page's array; a view is modelled by the
  bytes it points at, and a setter returns the bytes after the write. A view at the start of a
  buffer (page header, tuple header) is the buffer itself.

  Each layout is a data refinement: \<open>header_of\<close>, \<open>slot_of\<close> and \<open>tuple_header_of\<close> read a view as a
  record of fields, and every setter is the update of exactly one field.
\<close>

subsection \<open>The raw frame (page.go)\<close>

type_synonym page = "byte list"

definition PageSize :: u16 where "PageSize = 8192"
definition HeaderSize :: u16 where "HeaderSize = 24"
definition SlotEntrySize :: u16 where "SlotEntrySize = 4"
definition TupleHeaderSize :: u16 where "TupleHeaderSize = 12"

definition NewPage_frame :: page where
  "NewPage_frame = replicate (unat PageSize) 0"

text \<open>Go's \<^verbatim>\<open>clear\<close> on a byte slice.\<close>

definition go_clear :: "byte list \<Rightarrow> byte list" where
  "go_clear bs = replicate (length bs) 0"

subsection \<open>The page header (page\_header.go)\<close>

definition PdLsn :: "byte list \<Rightarrow> u64" where "PdLsn h = be_uint (subslice 0 8 h)"
definition SetPdLsn :: "byte list \<Rightarrow> u64 \<Rightarrow> byte list" where
  "SetPdLsn h pd = overwrite 0 (be_bytes 8 pd) h"

definition PdChecksum :: "byte list \<Rightarrow> u16" where "PdChecksum h = be_uint (subslice 8 10 h)"
definition SetPdChecksum :: "byte list \<Rightarrow> u16 \<Rightarrow> byte list" where
  "SetPdChecksum h pd = overwrite 8 (be_bytes 2 pd) h"

definition PdFlags :: "byte list \<Rightarrow> u16" where "PdFlags h = be_uint (subslice 10 12 h)"
definition SetPdFlags :: "byte list \<Rightarrow> u16 \<Rightarrow> byte list" where
  "SetPdFlags h pd = overwrite 10 (be_bytes 2 pd) h"

definition PdLower :: "byte list \<Rightarrow> u16" where "PdLower h = be_uint (subslice 12 14 h)"
definition SetPdLower :: "byte list \<Rightarrow> u16 \<Rightarrow> byte list" where
  "SetPdLower h pd = overwrite 12 (be_bytes 2 pd) h"

definition PdUpper :: "byte list \<Rightarrow> u16" where "PdUpper h = be_uint (subslice 14 16 h)"
definition SetPdUpper :: "byte list \<Rightarrow> u16 \<Rightarrow> byte list" where
  "SetPdUpper h pd = overwrite 14 (be_bytes 2 pd) h"

definition PdSpecial :: "byte list \<Rightarrow> u16" where "PdSpecial h = be_uint (subslice 16 18 h)"
definition SetPdSpecial :: "byte list \<Rightarrow> u16 \<Rightarrow> byte list" where
  "SetPdSpecial h pd = overwrite 16 (be_bytes 2 pd) h"

definition PdPagesize :: "byte list \<Rightarrow> u16" where "PdPagesize h = be_uint (subslice 18 20 h)"
definition SetPdPagesize :: "byte list \<Rightarrow> u16 \<Rightarrow> byte list" where
  "SetPdPagesize h pd = overwrite 18 (be_bytes 2 pd) h"

definition PdPruneXid :: "byte list \<Rightarrow> u32" where "PdPruneXid h = be_uint (subslice 20 24 h)"
definition SetPdPruneXid :: "byte list \<Rightarrow> u32 \<Rightarrow> byte list" where
  "SetPdPruneXid h pd = overwrite 20 (be_bytes 4 pd) h"

subsection \<open>The slot entry (slot\_entry.go)\<close>

definition offsetBitPos :: u16 where "offsetBitPos = 0"
definition offsetBitLen :: u8 where "offsetBitLen = 15"
definition lengthBitPos :: u16 where "lengthBitPos = offsetBitPos + ucast offsetBitLen"
definition lengthBitLen :: u8 where "lengthBitLen = 15"
definition flagBitPos :: u16 where "flagBitPos = lengthBitPos + ucast lengthBitLen"
definition flagBitLen :: u8 where "flagBitLen = 2"

text \<open>The getters drop the error of \<^const>\<open>ReadBits\<close>, whose value is then 0.\<close>

definition bits_value :: "(err + u16) option \<Rightarrow> u16" where
  "bits_value r = (case r of Some (Inr v) \<Rightarrow> v | _ \<Rightarrow> 0)"

definition Offset :: "byte list \<Rightarrow> u16" where
  "Offset e = bits_value (ReadBits e offsetBitPos offsetBitLen)"
definition SetOffset :: "byte list \<Rightarrow> u16 \<Rightarrow> (err + byte list) option" where
  "SetOffset e val = WriteBits e offsetBitPos offsetBitLen val"

definition Length :: "byte list \<Rightarrow> u16" where
  "Length e = bits_value (ReadBits e lengthBitPos lengthBitLen)"
definition SetLength :: "byte list \<Rightarrow> u16 \<Rightarrow> (err + byte list) option" where
  "SetLength e val = WriteBits e lengthBitPos lengthBitLen val"

definition Flag :: "byte list \<Rightarrow> u8" where
  "Flag e = ucast (bits_value (ReadBits e flagBitPos flagBitLen))"
definition SetFlag :: "byte list \<Rightarrow> u8 \<Rightarrow> (err + byte list) option" where
  "SetFlag e val = WriteBits e flagBitPos flagBitLen (ucast val)"

subsection \<open>The tuple header (tuple.go)\<close>

definition flagsBitPos :: u16 where "flagsBitPos = 8 * 8"
definition flagsBitLen :: u8 where "flagsBitLen = 6"
definition colCountBitPos :: u16 where "colCountBitPos = flagsBitPos + ucast flagsBitLen"
definition colCountBitLen :: u8 where "colCountBitLen = 10"

definition FlagHasNull :: u8 where "FlagHasNull = push_bit 0 1"
definition FlagXminCommitted :: u8 where "FlagXminCommitted = push_bit 1 1"
definition FlagXminAborted :: u8 where "FlagXminAborted = push_bit 2 1"
definition FlagXmaxCommitted :: u8 where "FlagXmaxCommitted = push_bit 3 1"
definition FlagXmaxAborted :: u8 where "FlagXmaxAborted = push_bit 4 1"

text \<open>\<^verbatim>\<open>Tuple.TupleHeader\<close> slices the first 12 bytes and panics on a shorter tuple; the view is
  written back with \<open>put_tuple_header\<close>.\<close>

definition TupleHeader :: "byte list \<Rightarrow> byte list option" where
  "TupleHeader t = go_slice t 0 (unat TupleHeaderSize)"
definition put_tuple_header :: "byte list \<Rightarrow> byte list \<Rightarrow> byte list" where
  "put_tuple_header h t = overwrite 0 h t"

definition TxMin :: "byte list \<Rightarrow> u32" where "TxMin h = be_uint (subslice 0 4 h)"
definition SetTxMin :: "byte list \<Rightarrow> u32 \<Rightarrow> byte list" where
  "SetTxMin h xid = overwrite 0 (be_bytes 4 xid) h"

definition TxMax :: "byte list \<Rightarrow> u32" where "TxMax h = be_uint (subslice 4 8 h)"
definition SetTxMax :: "byte list \<Rightarrow> u32 \<Rightarrow> byte list" where
  "SetTxMax h xid = overwrite 4 (be_bytes 4 xid) h"

definition Flags :: "byte list \<Rightarrow> u8" where
  "Flags h = ucast (bits_value (ReadBits h flagsBitPos flagsBitLen))"
definition SetFlags :: "byte list \<Rightarrow> u8 \<Rightarrow> (err + byte list) option" where
  "SetFlags h val = WriteBits h flagsBitPos flagsBitLen (ucast val)"

definition HasNull :: "byte list \<Rightarrow> bool" where
  "HasNull h \<longleftrightarrow> Flags h AND FlagHasNull \<noteq> 0"

definition ColumnCount :: "byte list \<Rightarrow> u16" where
  "ColumnCount h = bits_value (ReadBits h colCountBitPos colCountBitLen)"
definition SetColumnCount :: "byte list \<Rightarrow> u16 \<Rightarrow> (err + byte list) option" where
  "SetColumnCount h val = WriteBits h colCountBitPos colCountBitLen val"

definition Hoff :: "byte list \<Rightarrow> u8" where "Hoff h = h ! 10"
definition SetHoff :: "byte list \<Rightarrow> u8 \<Rightarrow> byte list" where "SetHoff h off = h[10 := off]"

subsection \<open>The abstract records\<close>

record page_header =
  pd_lsn :: u64
  pd_checksum :: u16
  pd_flags :: u16
  pd_lower :: u16
  pd_upper :: u16
  pd_special :: u16
  pd_pagesize :: u16
  pd_prune_xid :: u32

definition header_of :: "byte list \<Rightarrow> page_header" where
  "header_of h = \<lparr>pd_lsn = PdLsn h, pd_checksum = PdChecksum h, pd_flags = PdFlags h,
     pd_lower = PdLower h, pd_upper = PdUpper h, pd_special = PdSpecial h,
     pd_pagesize = PdPagesize h, pd_prune_xid = PdPruneXid h\<rparr>"

record slot =
  slot_offset :: u16
  slot_length :: u16
  slot_flag :: u8

definition slot_of :: "byte list \<Rightarrow> slot" where
  "slot_of e = \<lparr>slot_offset = Offset e, slot_length = Length e, slot_flag = Flag e\<rparr>"

record tuple_header =
  t_xmin :: u32
  t_xmax :: u32
  t_flags :: u8
  t_col_count :: u16
  t_hoff :: u8

definition tuple_header_of :: "byte list \<Rightarrow> tuple_header" where
  "tuple_header_of h = \<lparr>t_xmin = TxMin h, t_xmax = TxMax h, t_flags = Flags h,
     t_col_count = ColumnCount h, t_hoff = Hoff h\<rparr>"

subsection \<open>Sizes as numerals\<close>

lemma unat_sizes [layout_simps]:
  "unat PageSize = 8192" "unat HeaderSize = 24" "unat SlotEntrySize = 4" "unat TupleHeaderSize = 12"
  by (simp_all add: PageSize_def HeaderSize_def SlotEntrySize_def TupleHeaderSize_def)

lemma bit_positions [layout_simps]:
  "unat offsetBitPos = 0" "unat offsetBitLen = 15" "unat lengthBitPos = 15" "unat lengthBitLen = 15"
  "unat flagBitPos = 30" "unat flagBitLen = 2" "unat flagsBitPos = 64" "unat flagsBitLen = 6"
  "unat colCountBitPos = 70" "unat colCountBitLen = 10"
  by (simp_all add: offsetBitPos_def offsetBitLen_def lengthBitPos_def lengthBitLen_def
      flagBitPos_def flagBitLen_def flagsBitPos_def flagsBitLen_def colCountBitPos_def
      colCountBitLen_def)

lemma length_NewPage_frame [simp]: "length NewPage_frame = 8192"
  by (simp add: NewPage_frame_def layout_simps)

lemma length_go_clear [simp]: "length (go_clear bs) = length bs"
  by (simp add: go_clear_def)

lemma go_clear_page: "length p = 8192 \<Longrightarrow> go_clear p = NewPage_frame"
  by (simp add: go_clear_def NewPage_frame_def layout_simps)

interpretation slot_off: bit_field offsetBitPos offsetBitLen 4
  by unfold_locales (simp_all add: layout_simps)
interpretation slot_len: bit_field lengthBitPos lengthBitLen 4
  by unfold_locales (simp_all add: layout_simps)
interpretation slot_flg: bit_field flagBitPos flagBitLen 4
  by unfold_locales (simp_all add: layout_simps)
interpretation tup_flags: bit_field flagsBitPos flagsBitLen 12
  by unfold_locales (simp_all add: layout_simps)
interpretation tup_cols: bit_field colCountBitPos colCountBitLen 12
  by unfold_locales (simp_all add: layout_simps)

subsection \<open>Header setters are field updates\<close>

lemmas header_defs = header_of_def PdLsn_def PdChecksum_def PdFlags_def PdLower_def PdUpper_def
  PdSpecial_def PdPagesize_def PdPruneXid_def SetPdLsn_def SetPdChecksum_def SetPdFlags_def
  SetPdLower_def SetPdUpper_def SetPdSpecial_def SetPdPagesize_def SetPdPruneXid_def

lemma length_header_setters [simp]:
  assumes "24 \<le> length h"
  shows "length (SetPdLsn h l) = length h" "length (SetPdChecksum h c) = length h"
    "length (SetPdFlags h c) = length h" "length (SetPdLower h c) = length h"
    "length (SetPdUpper h c) = length h" "length (SetPdSpecial h c) = length h"
    "length (SetPdPagesize h c) = length h" "length (SetPdPruneXid h x) = length h"
  using assms by (simp_all add: header_defs)

lemma header_of_setters:
  assumes "24 \<le> length h"
  shows "header_of (SetPdLsn h l) = header_of h\<lparr>pd_lsn := l\<rparr>"
    "header_of (SetPdChecksum h c) = header_of h\<lparr>pd_checksum := c\<rparr>"
    "header_of (SetPdFlags h c) = header_of h\<lparr>pd_flags := c\<rparr>"
    "header_of (SetPdLower h c) = header_of h\<lparr>pd_lower := c\<rparr>"
    "header_of (SetPdUpper h c) = header_of h\<lparr>pd_upper := c\<rparr>"
    "header_of (SetPdSpecial h c) = header_of h\<lparr>pd_special := c\<rparr>"
    "header_of (SetPdPagesize h c) = header_of h\<lparr>pd_pagesize := c\<rparr>"
    "header_of (SetPdPruneXid h x) = header_of h\<lparr>pd_prune_xid := x\<rparr>"
  using assms by (simp_all add: header_defs slice_simps)

lemma header_setters_beyond:
  assumes "24 \<le> length h" "24 \<le> lo"
  shows "subslice lo hi (SetPdLower h c) = subslice lo hi h"
    "subslice lo hi (SetPdUpper h c) = subslice lo hi h"
    "subslice lo hi (SetPdPagesize h c) = subslice lo hi h"
  using assms by (simp_all add: header_defs slice_simps)

lemma PdLower_header: "PdLower h = pd_lower (header_of h)"
  and PdUpper_header: "PdUpper h = pd_upper (header_of h)"
  by (simp_all add: header_of_def)

lemma header_of_overwrite:
  assumes "24 \<le> off" "off + length bs \<le> length h"
  shows "header_of (overwrite off bs h) = header_of h"
  using assms by (simp add: header_defs slice_simps)

subsection \<open>Slot entry setters are field updates\<close>

lemmas slot_defs = slot_of_def Offset_def Length_def Flag_def SetOffset_def SetLength_def SetFlag_def

lemma SetOffset_ok:
  assumes "length e = 4" "unat v < 2 ^ 15"
  obtains e' where "SetOffset e v = Some (Inr e')" "length e' = 4"
    "slot_of e' = slot_of e\<lparr>slot_offset := v\<rparr>"
proof -
  obtain e' where e': "WriteBits e offsetBitPos offsetBitLen v = Some (Inr e')" "length e' = 4"
    using slot_off.set_fits[of e v] assms by (auto simp: layout_simps)
  note others = slot_len.get_set_other[OF assms(1) e'(1)] slot_flg.get_set_other[OF assms(1) e'(1)]
  show thesis
    by (rule that[of e'])
      (use e' others in \<open>simp_all add: slot_defs layout_simps bits_value_def slot_off.get_set[OF assms(1) e'(1)]\<close>)
qed

lemma SetLength_ok:
  assumes "length e = 4" "unat v < 2 ^ 15"
  obtains e' where "SetLength e v = Some (Inr e')" "length e' = 4"
    "slot_of e' = slot_of e\<lparr>slot_length := v\<rparr>"
proof -
  obtain e' where e': "WriteBits e lengthBitPos lengthBitLen v = Some (Inr e')" "length e' = 4"
    using slot_len.set_fits[of e v] assms by (auto simp: layout_simps)
  note others = slot_off.get_set_other[OF assms(1) e'(1)] slot_flg.get_set_other[OF assms(1) e'(1)]
  show thesis
    by (rule that[of e'])
      (use e' others in \<open>simp_all add: slot_defs layout_simps bits_value_def slot_len.get_set[OF assms(1) e'(1)]\<close>)
qed

lemma ucast_u8_u16_u8 [simp]: "(ucast (ucast (v :: u8) :: u16) :: u8) = v"
  by (rule bit_word_eqI) (auto simp: bit_ucast_iff)

lemma SetFlag_ok:
  assumes "length e = 4" "unat v < 4"
  obtains e' where "SetFlag e v = Some (Inr e')" "length e' = 4"
    "slot_of e' = slot_of e\<lparr>slot_flag := v\<rparr>"
proof -
  obtain e' where e': "WriteBits e flagBitPos flagBitLen (ucast v) = Some (Inr e')" "length e' = 4"
    using slot_flg.set_fits[of e "ucast v"] assms by (auto simp: layout_simps unat_ucast_widen)
  note others = slot_off.get_set_other[OF assms(1) e'(1)] slot_len.get_set_other[OF assms(1) e'(1)]
  show thesis
    by (rule that[of e'])
      (use e' others in \<open>simp_all add: slot_defs layout_simps bits_value_def slot_flg.get_set[OF assms(1) e'(1)]\<close>)
qed

subsection \<open>Tuple header setters are field updates\<close>

lemmas tuple_defs = tuple_header_of_def TxMin_def TxMax_def Flags_def ColumnCount_def Hoff_def
  SetTxMin_def SetTxMax_def SetFlags_def SetColumnCount_def SetHoff_def

lemma tuple_bits_overwrite:
  assumes "length h = 12" "s + length w \<le> 12" "s + length w \<le> 8 \<or> 10 \<le> s"
  shows "ReadBits (overwrite s w h) flagsBitPos flagsBitLen = ReadBits h flagsBitPos flagsBitLen"
    "ReadBits (overwrite s w h) colCountBitPos colCountBitLen = ReadBits h colCountBitPos colCountBitLen"
  using assms tup_flags.in_range[of h] tup_cols.in_range[of h]
  by (auto intro!: ReadBits_overwrite_other simp: layout_simps)

lemma SetHoff_overwrite: "length h = 12 \<Longrightarrow> SetHoff h off = overwrite 10 [off] h"
  by (simp add: SetHoff_def overwrite_def upd_conv_take_nth_drop)

lemma tuple_header_word_setters:
  assumes "length h = 12"
  shows "tuple_header_of (SetTxMin h x) = tuple_header_of h\<lparr>t_xmin := x\<rparr>"
    "tuple_header_of (SetTxMax h x) = tuple_header_of h\<lparr>t_xmax := x\<rparr>"
    "tuple_header_of (SetHoff h y) = tuple_header_of h\<lparr>t_hoff := y\<rparr>"
    "length (SetTxMin h x) = 12" "length (SetTxMax h x) = 12" "length (SetHoff h y) = 12"
  using assms
  by (simp_all add: SetHoff_overwrite,
      simp_all add: tuple_defs slice_simps tuple_bits_overwrite nth_overwrite)

text \<open>A write of the packed half-word leaves the other bytes of the header alone.\<close>

lemma WriteBits_tuple_bytes:
  assumes h: "length h = 12" and w: "WriteBits h off len v = Some (Inr h')"
    and pos: "64 \<le> unat off" "unat off + unat len \<le> 80" and i: "i < 12" "i < 8 \<or> 10 \<le> i"
  shows "h' ! i = h ! i"
proof (rule bit_word_eqI)
  fix n assume "n < LENGTH(8)"
  then have n: "n < 8" by simp
  define k p where "k = 7 - n" and "p = 8 * i + k"
  have "k < 8" by (simp add: k_def)
  then have "p div 8 = i" "p mod 8 = k" by (simp_all add: p_def)
  moreover have "p < 8 * length h" "\<not> (unat off \<le> p \<and> p < unat off + unat len)"
    using i pos h \<open>k < 8\<close> by (auto simp: p_def)
  ultimately show "bit (h' ! i) n = bit (h ! i) n"
    using WriteBits_OkD(4)[OF _ w, of p] h n by (auto simp: stream_bit_def k_def)
qed

lemma WriteBits_tuple_fields:
  assumes h: "length h = 12" and w: "WriteBits h off len v = Some (Inr h')"
    and pos: "64 \<le> unat off" "unat off + unat len \<le> 80"
  shows "length h' = 12" "TxMin h' = TxMin h" "TxMax h' = TxMax h" "Hoff h' = Hoff h"
proof -
  show len: "length h' = 12" using WriteBits_OkD(3)[OF _ w] h by simp
  show "Hoff h' = Hoff h" using WriteBits_tuple_bytes[OF h w pos, of 10] by (simp add: Hoff_def)
  have "subslice lo hi h' = subslice lo hi h" if "hi \<le> 8" for lo hi
    by (rule subslice_eqI) (use len h that WriteBits_tuple_bytes[OF h w pos] in auto)
  then show "TxMin h' = TxMin h" "TxMax h' = TxMax h" by (simp_all add: TxMin_def TxMax_def)
qed

lemma SetFlags_ok:
  assumes "length h = 12" "unat v < 64"
  obtains h' where "SetFlags h v = Some (Inr h')" "length h' = 12"
    "tuple_header_of h' = tuple_header_of h\<lparr>t_flags := v\<rparr>"
proof -
  obtain h' where h': "WriteBits h flagsBitPos flagsBitLen (ucast v) = Some (Inr h')" "length h' = 12"
    using tup_flags.set_fits[of h "ucast v"] assms by (auto simp: layout_simps unat_ucast_widen)
  note others = tup_cols.get_set_other[OF assms(1) h'(1)] WriteBits_tuple_fields[OF assms(1) h'(1)]
  show thesis
    by (rule that[of h'])
      (use h' others tup_flags.get_set[OF assms(1) h'(1)] in
        \<open>simp_all add: tuple_header_of_def Flags_def ColumnCount_def SetFlags_def layout_simps bits_value_def\<close>)
qed

lemma SetColumnCount_ok:
  assumes "length h = 12" "unat v < 1024"
  obtains h' where "SetColumnCount h v = Some (Inr h')" "length h' = 12"
    "tuple_header_of h' = tuple_header_of h\<lparr>t_col_count := v\<rparr>"
proof -
  obtain h' where h': "WriteBits h colCountBitPos colCountBitLen v = Some (Inr h')" "length h' = 12"
    using tup_cols.set_fits[of h v] assms by (auto simp: layout_simps)
  note others = tup_flags.get_set_other[OF assms(1) h'(1)] WriteBits_tuple_fields[OF assms(1) h'(1)]
  show thesis
    by (rule that[of h'])
      (use h' others tup_cols.get_set[OF assms(1) h'(1)] in
        \<open>simp_all add: tuple_header_of_def Flags_def ColumnCount_def SetColumnCount_def layout_simps bits_value_def\<close>)
qed

lemma SetColumnCount_too_wide:
  assumes "length h = 12" "1024 \<le> unat v"
  shows "\<exists>e. SetColumnCount h v = Some (Inl e)"
  using tup_cols.set_too_wide[of h v] assms by (simp add: SetColumnCount_def layout_simps)

subsection \<open>Properties\<close>

text \<open>Every page header setter updates exactly its own field of the abstract header and keeps
  the length of the page.\<close>

theorem page_header_refines:
  assumes "24 \<le> length h"
  shows "header_of (SetPdLsn h l) = header_of h\<lparr>pd_lsn := l\<rparr> \<and>
    header_of (SetPdChecksum h c) = header_of h\<lparr>pd_checksum := c\<rparr> \<and>
    header_of (SetPdFlags h c) = header_of h\<lparr>pd_flags := c\<rparr> \<and>
    header_of (SetPdLower h c) = header_of h\<lparr>pd_lower := c\<rparr> \<and>
    header_of (SetPdUpper h c) = header_of h\<lparr>pd_upper := c\<rparr> \<and>
    header_of (SetPdSpecial h c) = header_of h\<lparr>pd_special := c\<rparr> \<and>
    header_of (SetPdPagesize h c) = header_of h\<lparr>pd_pagesize := c\<rparr> \<and>
    header_of (SetPdPruneXid h x) = header_of h\<lparr>pd_prune_xid := x\<rparr>"
  using header_of_setters[OF assms] by simp

theorem page_header_refines_witness:
  "PdLower (SetPdLower NewPage_frame 8192) = 8192 \<and>
   PdUpper (SetPdLower NewPage_frame 8192) = PdUpper NewPage_frame"
  using page_header_refines[of NewPage_frame 0 8192 0] by (simp add: PdLower_header PdUpper_header)

text \<open>C39. The setters of a slot entry and of a tuple header update exactly one field of the abstract
  record when the value fits its packed width, and report an error when it does not; the two word
  fields and the data offset of the tuple header always fit.\<close>

theorem packed_headers_refine:
  assumes "length e = 4" "length h = 12"
  shows "(if unat v < 2 ^ 15 then \<exists>e'. SetOffset e v = Some (Inr e') \<and> slot_of e' = slot_of e\<lparr>slot_offset := v\<rparr>
      else \<exists>x. SetOffset e v = Some (Inl x)) \<and>
    (if unat v < 2 ^ 15 then \<exists>e'. SetLength e v = Some (Inr e') \<and> slot_of e' = slot_of e\<lparr>slot_length := v\<rparr>
      else \<exists>x. SetLength e v = Some (Inl x)) \<and>
    (if unat f < 4 then \<exists>e'. SetFlag e f = Some (Inr e') \<and> slot_of e' = slot_of e\<lparr>slot_flag := f\<rparr>
      else \<exists>x. SetFlag e f = Some (Inl x)) \<and>
    (if unat f < 64 then \<exists>h'. SetFlags h f = Some (Inr h') \<and> tuple_header_of h' = tuple_header_of h\<lparr>t_flags := f\<rparr>
      else \<exists>x. SetFlags h f = Some (Inl x)) \<and>
    (if unat v < 1024 then \<exists>h'. SetColumnCount h v = Some (Inr h') \<and>
        tuple_header_of h' = tuple_header_of h\<lparr>t_col_count := v\<rparr>
      else \<exists>x. SetColumnCount h v = Some (Inl x)) \<and>
    (tuple_header_of (SetTxMin h x) = tuple_header_of h\<lparr>t_xmin := x\<rparr>) \<and>
    (tuple_header_of (SetTxMax h x) = tuple_header_of h\<lparr>t_xmax := x\<rparr>) \<and>
    (tuple_header_of (SetHoff h f) = tuple_header_of h\<lparr>t_hoff := f\<rparr>)"
proof (intro conjI)
  note wide = slot_off.set_too_wide[OF assms(1), of v] slot_len.set_too_wide[OF assms(1), of v]
    slot_flg.set_too_wide[OF assms(1), of "ucast f"] tup_flags.set_too_wide[OF assms(2), of "ucast f"]
  show "if unat v < 2 ^ 15 then \<exists>e'. SetOffset e v = Some (Inr e') \<and> slot_of e' = slot_of e\<lparr>slot_offset := v\<rparr>
      else \<exists>x. SetOffset e v = Some (Inl x)"
    using SetOffset_ok[OF assms(1), of v] wide(1) by (auto simp: SetOffset_def layout_simps)
  show "if unat v < 2 ^ 15 then \<exists>e'. SetLength e v = Some (Inr e') \<and> slot_of e' = slot_of e\<lparr>slot_length := v\<rparr>
      else \<exists>x. SetLength e v = Some (Inl x)"
    using SetLength_ok[OF assms(1), of v] wide(2) by (auto simp: SetLength_def layout_simps)
  show "if unat f < 4 then \<exists>e'. SetFlag e f = Some (Inr e') \<and> slot_of e' = slot_of e\<lparr>slot_flag := f\<rparr>
      else \<exists>x. SetFlag e f = Some (Inl x)"
    using SetFlag_ok[OF assms(1), of f] wide(3) by (auto simp: SetFlag_def layout_simps unat_ucast_widen)
  show "if unat f < 64 then \<exists>h'. SetFlags h f = Some (Inr h') \<and> tuple_header_of h' = tuple_header_of h\<lparr>t_flags := f\<rparr>
      else \<exists>x. SetFlags h f = Some (Inl x)"
    using SetFlags_ok[OF assms(2), of f] wide(4) by (auto simp: SetFlags_def layout_simps unat_ucast_widen)
  show "if unat v < 1024 then \<exists>h'. SetColumnCount h v = Some (Inr h') \<and>
        tuple_header_of h' = tuple_header_of h\<lparr>t_col_count := v\<rparr>
      else \<exists>x. SetColumnCount h v = Some (Inl x)"
    using SetColumnCount_ok[OF assms(2), of v] SetColumnCount_too_wide[OF assms(2), of v] by auto
qed (use tuple_header_word_setters[OF assms(2)] in auto)

theorem packed_headers_refine_witness:
  "(\<exists>x. SetFlag [0, 0, 0, 0] 4 = Some (Inl x)) \<and>
   TxMax (SetTxMin (replicate 12 1) 7) = TxMax (replicate 12 1)"
  using packed_headers_refine[of "[0, 0, 0, 0]" "replicate 12 1" 0 4 7]
  by (simp add: tuple_header_of_def)

end
