(* ===== verification/Disk_Manager.thy ===== *)
theory Disk_Manager
  imports Page_Layout
begin

text \<open>
  The disk manager of \<^verbatim>\<open>internal/storage/disk/disk.go\<close> over a model of the \<^verbatim>\<open>os.File\<close> calls it
  makes. A file is its bytes as the OS holds them (\<open>content\<close>), the bytes the last successful \<^verbatim>\<open>fsync\<close> put on the device
  (\<open>durable\<close>; the OS may write newer bytes back whenever it likes, so after a later change the device may hold more than these, and the theorems
  here and in \<open>Pool_Steps\<close> speak of the moment a \<^verbatim>\<open>Sync\<close> returns; \<open>Pool_Threads\<close> has the device as an actor of its own, and an \<^verbatim>\<open>fsync\<close> that
  overlaps with writes), and the answers the OS will give to the coming calls (\<open>outcomes\<close>): a call may fail
  after transferring any number of bytes, and an exhausted list means success. Every theorem holds
  for every list of answers. Here each method runs alone; \<open>Disk_Threads\<close> has goroutines
  that call them at the same time, with the mutex.

  \<open>page_store\<close> is the contract of the \<^verbatim>\<open>diskManager\<close> interface declared by the buffer pool
  (\<^verbatim>\<open>buffer_pool.go\<close>), interpreted here on the disk manager.
\<close>

subsection \<open>The OS file\<close>

datatype io_outcome = IoOk | IoFail nat

record os_file =
  content :: "byte list"
  durable :: "byte list"
  outcomes :: "io_outcome list"

definition EIO :: err where "EIO = Errorf ''input/output error''"
definition EOF :: err where "EOF = Sentinel ''EOF''"

definition next_outcome :: "os_file \<Rightarrow> io_outcome \<times> os_file" where
  "next_outcome f = (case outcomes f of [] \<Rightarrow> (IoOk, f) | r # rs \<Rightarrow> (r, f\<lparr>outcomes := rs\<rparr>))"

definition write_at :: "nat \<Rightarrow> byte list \<Rightarrow> byte list \<Rightarrow> byte list" where
  "write_at off bs c = overwrite off bs (c @ replicate (off - length c) 0)"

definition File_ReadAt :: "os_file \<Rightarrow> byte list \<Rightarrow> nat \<Rightarrow> (err + unit) \<times> byte list \<times> os_file" where
  "File_ReadAt f dst off =
     (let (r, f) = next_outcome f; avail = subslice off (off + length dst) (content f) in
      case r of
        IoFail n \<Rightarrow> (Inl EIO, overwrite 0 (take n avail) dst, f)
      | IoOk \<Rightarrow> (if length avail = length dst then Inr () else Inl EOF, overwrite 0 avail dst, f))"

definition File_WriteAt :: "os_file \<Rightarrow> byte list \<Rightarrow> nat \<Rightarrow> (err + unit) \<times> os_file" where
  "File_WriteAt f src off =
     (let (r, f) = next_outcome f in
      case r of
        IoFail n \<Rightarrow> (Inl EIO, f\<lparr>content := (if min n (length src) = 0 then content f
                       else write_at off (take n src) (content f))\<rparr>)
      | IoOk \<Rightarrow> (Inr (), f\<lparr>content := write_at off src (content f)\<rparr>))"

definition File_Sync :: "os_file \<Rightarrow> (err + unit) \<times> os_file" where
  "File_Sync f = (let (r, f) = next_outcome f in
     case r of IoFail n \<Rightarrow> (Inl EIO, f) | IoOk \<Rightarrow> (Inr (), f\<lparr>durable := content f\<rparr>))"

subsection \<open>The disk manager\<close>

type_synonym PageID = u32

definition MaxUint32 :: u32 where "MaxUint32 = 4294967295"

record DiskManager =
  dm_file :: os_file
  numPages :: PageID

definition disk_Open :: "byte list option \<Rightarrow> io_outcome list \<Rightarrow> err + DiskManager" where
  \<comment> \<open>the path's bytes if it exists, and the answers to \<^verbatim>\<open>OpenFile\<close>, \<^verbatim>\<open>Stat\<close> and later calls\<close>
  "disk_Open existing answers =
     (let bytes = (case existing of None \<Rightarrow> [] | Some b \<Rightarrow> b);
          (r, file) = next_outcome \<lparr>content = bytes, durable = bytes, outcomes = answers\<rparr>
      in case r of
        IoFail _ \<Rightarrow> Inl (Wrap ''disk: open'' EIO)
      | IoOk \<Rightarrow>
          (let (r, file) = next_outcome file in
           case r of
             IoFail _ \<Rightarrow> Inl (Wrap ''disk: stat'' EIO)
           | IoOk \<Rightarrow>
               (let size = length (content file) in
                if size mod unat PageSize \<noteq> 0 then Inl (Errorf ''disk: not a multiple of page size'')
                else Inr \<lparr>dm_file = file, numPages = of_nat (size div unat PageSize)\<rparr>)))"

definition disk_Close :: "DiskManager \<Rightarrow> (err + unit) \<times> byte list" where
  \<comment> \<open>with the bytes the file keeps after its handle is released\<close>
  "disk_Close d =
     (let (r, file) = next_outcome (dm_file d) in
      (case r of IoFail _ \<Rightarrow> Inl EIO | IoOk \<Rightarrow> Inr (), content file))"

definition ReadPage :: "DiskManager \<Rightarrow> PageID \<Rightarrow> byte list \<Rightarrow> (err + unit) \<times> byte list \<times> DiskManager" where
  "ReadPage d pid dst =
     (if length dst \<noteq> unat PageSize then (Inl (Errorf ''disk: read buffer size''), dst, d)
      else if pid \<ge> numPages d then (Inl (Errorf ''disk: read page out of range''), dst, d)
      else
        let (r, dst, f) = File_ReadAt (dm_file d) dst (unat pid * unat PageSize);
            d = d\<lparr>dm_file := f\<rparr>
        in case r of
             Inl e \<Rightarrow> (Inl (Wrap ''disk: read page'' e), dst, d)
           | Inr _ \<Rightarrow> (Inr (), dst, d))"

definition WritePage :: "DiskManager \<Rightarrow> PageID \<Rightarrow> byte list \<Rightarrow> (err + unit) \<times> DiskManager" where
  "WritePage d pid src =
     (if length src \<noteq> unat PageSize then (Inl (Errorf ''disk: write buffer size''), d)
      else if pid \<ge> numPages d then (Inl (Errorf ''disk: write page out of range''), d)
      else
        let (r, f) = File_WriteAt (dm_file d) src (unat pid * unat PageSize);
            d = d\<lparr>dm_file := f\<rparr>
        in case r of
             Inl e \<Rightarrow> (Inl (Wrap ''disk: write page'' e), d)
           | Inr _ \<Rightarrow> (Inr (), d))"

definition disk_Sync :: "DiskManager \<Rightarrow> (err + unit) \<times> DiskManager" where
  "disk_Sync d = (let (r, f) = File_Sync (dm_file d) in (r, d\<lparr>dm_file := f\<rparr>))"

definition disk_NumPages :: "DiskManager \<Rightarrow> PageID" where
  "disk_NumPages d = numPages d"

definition AllocatePage :: "DiskManager \<Rightarrow> (err + PageID) \<times> DiskManager" where
  "AllocatePage d =
     (if numPages d = MaxUint32 then (Inl (Errorf ''disk: page limit reached''), d)
      else
        let pid = numPages d;
            (r, f) = File_WriteAt (dm_file d) (replicate (unat PageSize) 0) (unat pid * unat PageSize);
            d = d\<lparr>dm_file := f\<rparr>
        in case r of
             Inl e \<Rightarrow> (Inl (Wrap ''disk: extend to page'' e), d)
           | Inr _ \<Rightarrow> (Inr pid, d\<lparr>numPages := numPages d + 1\<rparr>))"

subsection \<open>The diskManager interface\<close>

record 'd diskManager =
  dmReadPage :: "'d \<Rightarrow> PageID \<Rightarrow> byte list \<Rightarrow> (err + unit) \<times> byte list \<times> 'd"
  dmWritePage :: "'d \<Rightarrow> PageID \<Rightarrow> byte list \<Rightarrow> (err + unit) \<times> 'd"
  dmAllocatePage :: "'d \<Rightarrow> (err + PageID) \<times> 'd"
  dmNumPages :: "'d \<Rightarrow> PageID"
  dmSync :: "'d \<Rightarrow> (err + unit) \<times> 'd"

definition disk_manager :: "DiskManager diskManager" where
  "disk_manager = \<lparr>dmReadPage = ReadPage, dmWritePage = WritePage, dmAllocatePage = AllocatePage,
     dmNumPages = disk_NumPages, dmSync = disk_Sync\<rparr>"

subsection \<open>The abstract file\<close>

definition disk_page :: "DiskManager \<Rightarrow> nat \<Rightarrow> page" where
  "disk_page d i = subslice (i * 8192) (i * 8192 + 8192) (content (dm_file d))"

definition disk_pages :: "DiskManager \<Rightarrow> page list" where
  "disk_pages d = map (disk_page d) [0..<unat (numPages d)]"

definition disk_inv :: "DiskManager \<Rightarrow> bool" where
  "disk_inv d \<longleftrightarrow> unat (numPages d) * 8192 \<le> length (content (dm_file d))"

definition disk_quiet :: "DiskManager \<Rightarrow> bool" where
  \<comment> \<open>no failure is pending\<close>
  "disk_quiet d \<longleftrightarrow> outcomes (dm_file d) = []"

text \<open>What the buffer pool relies on: a file is a growing list of pages; a failed write may tear
  only the page it was writing.\<close>

locale page_store =
  fixes D :: "'d diskManager" and pages :: "'d \<Rightarrow> page list" and ok :: "'d \<Rightarrow> bool"
    and quiet :: "'d \<Rightarrow> bool"
  assumes page_length: "ok d \<Longrightarrow> p \<in> set (pages d) \<Longrightarrow> length p = 8192"
    and num_pages: "ok d \<Longrightarrow> unat (dmNumPages D d) = length (pages d)"
    and read_ok: "\<lbrakk>ok d; length dst = 8192; dmReadPage D d pid dst = (Inr u, dst', d')\<rbrakk> \<Longrightarrow>
      unat pid < length (pages d) \<and> dst' = pages d ! unat pid \<and> pages d' = pages d \<and> ok d'"
    and read_err: "\<lbrakk>ok d; length dst = 8192; dmReadPage D d pid dst = (Inl e, dst', d')\<rbrakk> \<Longrightarrow>
      length dst' = 8192 \<and> pages d' = pages d \<and> ok d'"
    and write_ok: "\<lbrakk>ok d; length src = 8192; dmWritePage D d pid src = (Inr u, d')\<rbrakk> \<Longrightarrow>
      unat pid < length (pages d) \<and> pages d' = (pages d)[unat pid := src] \<and> ok d'"
    and write_err: "\<lbrakk>ok d; length src = 8192; dmWritePage D d pid src = (Inl e, d')\<rbrakk> \<Longrightarrow>
      (\<exists>torn. pages d' = (pages d)[unat pid := torn]) \<and> ok d'"
    and alloc_ok: "\<lbrakk>ok d; dmAllocatePage D d = (Inr pid, d')\<rbrakk> \<Longrightarrow>
      unat pid = length (pages d) \<and> pages d' = pages d @ [NewPage_frame] \<and> ok d'"
    and alloc_err: "\<lbrakk>ok d; dmAllocatePage D d = (Inl e, d')\<rbrakk> \<Longrightarrow> pages d' = pages d \<and> ok d'"
    and sync_keeps: "\<lbrakk>ok d; dmSync D d = (r, d')\<rbrakk> \<Longrightarrow> pages d' = pages d \<and> ok d'"
    and quiet_read: "\<lbrakk>ok d; quiet d; length dst = 8192; unat pid < length (pages d)\<rbrakk> \<Longrightarrow>
      \<exists>dst' d'. dmReadPage D d pid dst = (Inr (), dst', d') \<and> quiet d'"
    and quiet_write: "\<lbrakk>ok d; quiet d; length src = 8192; unat pid < length (pages d)\<rbrakk> \<Longrightarrow>
      \<exists>d'. dmWritePage D d pid src = (Inr (), d') \<and> quiet d'"
    and quiet_alloc: "\<lbrakk>ok d; quiet d; Suc (length (pages d)) < 2 ^ 32\<rbrakk> \<Longrightarrow>
      \<exists>pid d'. dmAllocatePage D d = (Inr pid, d') \<and> quiet d'"

subsection \<open>The file calls\<close>

lemma length_write_at: "length (write_at off bs c) = max (off + length bs) (length c)"
  by (auto simp: write_at_def overwrite_def)

lemma subslice_write_at_same:
  "subslice off (off + length bs) (write_at off bs c) = bs"
  by (simp add: write_at_def overwrite_def subslice_def)

lemma subslice_write_at_other:
  assumes "hi \<le> length c" "hi \<le> off \<or> off + length bs \<le> lo"
  shows "subslice lo hi (write_at off bs c) = subslice lo hi c"
proof (cases "off + length bs \<le> length c")
  case True
  then show ?thesis using assms by (simp add: write_at_def slice_simps)
next
  case False
  then consider "hi \<le> off" | "hi \<le> lo" using assms by linarith
  then show ?thesis
  proof cases
    case 1
    define pad where "pad = c @ replicate (off - length c) 0"
    have "off \<le> length pad" "write_at off bs c = take off pad @ bs @ drop (off + length bs) pad"
      by (simp_all add: pad_def write_at_def overwrite_def)
    then have "subslice lo hi (write_at off bs c) = subslice lo hi (take off pad)"
      using 1 by (simp add: subslice_append_left)
    also have "\<dots> = subslice lo hi pad"
      using 1 \<open>off \<le> length pad\<close> by (intro nth_equalityI) (auto simp: subslice_def)
    also have "\<dots> = subslice lo hi c" using assms(1) by (simp add: pad_def subslice_append_left)
    finally show ?thesis .
  qed (simp add: subslice_def)
qed

lemma write_at_Nil: "off \<le> length c \<Longrightarrow> write_at off [] c = c"
  by (simp add: write_at_def overwrite_def)

lemma next_outcome_content:
  assumes "next_outcome f = (r, f')"
  shows "content f' = content f"
  using assms by (auto simp: next_outcome_def split: list.splits)

lemma content_next_outcome: "content (snd (next_outcome f)) = content f"
  by (simp add: next_outcome_def split: list.split)

lemma next_outcome_quiet: "outcomes f = [] \<Longrightarrow> next_outcome f = (IoOk, f)"
  by (simp add: next_outcome_def)

lemma File_ReadAt_spec:
  assumes "File_ReadAt f dst off = (r, dst', f')" "off + length dst \<le> length (content f)"
  shows "content f' = content f" "length dst' = length dst"
    "r = Inr u \<Longrightarrow> dst' = subslice off (off + length dst) (content f)"
proof -
  obtain a f1 where n: "next_outcome f = (a, f1)" by fastforce
  have c: "content f1 = content f" by (rule next_outcome_content[OF n])
  have avail: "length (subslice off (off + length dst) (content f)) = length dst"
    using assms(2) by (simp add: slice_simps)
  show "content f' = content f" "length dst' = length dst"
    "r = Inr u \<Longrightarrow> dst' = subslice off (off + length dst) (content f)"
    using assms(1) avail c by (auto simp: File_ReadAt_def Let_def n overwrite_def split: io_outcome.splits)
qed

lemma File_WriteAt_spec:
  assumes "File_WriteAt f src off = (r, f')" "off \<le> length (content f)"
  obtains n where "content f' = write_at off (take n src) (content f)" "r = Inr u \<Longrightarrow> n = length src"
proof -
  obtain a f1 where n: "next_outcome f = (a, f1)" by fastforce
  have c: "content f1 = content f" by (rule next_outcome_content[OF n])
  show thesis
  proof (cases a)
    case IoOk
    then show thesis using that[of "length src"] assms(1) by (auto simp: File_WriteAt_def n c)
  next
    case (IoFail m)
    then have "r = Inl EIO" "content f' = write_at off (take m src) (content f)"
      using assms by (auto simp: File_WriteAt_def n c write_at_Nil min_def split: if_splits)
    then show thesis using that[of m] by simp
  qed
qed

lemma File_quiet:
  assumes "outcomes f = []"
  shows "off + length dst \<le> length (content f) \<Longrightarrow>
      File_ReadAt f dst off = (Inr (), subslice off (off + length dst) (content f), f)"
    "File_WriteAt f src off = (Inr (), f\<lparr>content := write_at off src (content f)\<rparr>)"
    "File_Sync f = (Inr (), f\<lparr>durable := content f\<rparr>)"
  using assms
  by (simp_all add: File_ReadAt_def File_WriteAt_def File_Sync_def next_outcome_quiet subslice_def
      overwrite_def)

subsection \<open>The disk manager is a page store\<close>

lemma length_disk_pages [simp]: "length (disk_pages d) = unat (numPages d)"
  by (simp add: disk_pages_def)

lemma nth_disk_pages [simp]: "i < unat (numPages d) \<Longrightarrow> disk_pages d ! i = disk_page d i"
  by (simp add: disk_pages_def)

lemma disk_inv_page:
  assumes "disk_inv d" "i < unat (numPages d)"
  shows "i * 8192 + 8192 \<le> length (content (dm_file d))"
proof -
  have "Suc i * 8192 \<le> unat (numPages d) * 8192" using assms(2) by (intro mult_right_mono) auto
  then show ?thesis using assms(1) by (simp add: disk_inv_def)
qed

lemma length_disk_page:
  "disk_inv d \<Longrightarrow> i < unat (numPages d) \<Longrightarrow> length (disk_page d i) = 8192"
  using disk_inv_page by (simp add: disk_page_def slice_simps)

lemma disk_pages_content:
  assumes "content (dm_file d') = content (dm_file d)" "numPages d' = numPages d"
  shows "disk_pages d' = disk_pages d" "disk_inv d' = disk_inv d"
  using assms by (simp_all add: disk_pages_def disk_page_def disk_inv_def)

lemma disk_page_write_other:
  assumes inv: "disk_inv d" and j: "j < unat (numPages d)" "j \<noteq> i" and n: "length bs \<le> 8192"
    and c: "content (dm_file d') = write_at (i * 8192) bs (content (dm_file d))"
  shows "disk_page d' j = disk_page d j"
  unfolding disk_page_def c
proof (rule subslice_write_at_other)
  show "j * 8192 + 8192 \<le> length (content (dm_file d))" by (rule disk_inv_page[OF inv j(1)])
  consider "Suc j \<le> i" | "Suc i \<le> j" using j(2) by linarith
  then show "j * 8192 + 8192 \<le> i * 8192 \<or> i * 8192 + length bs \<le> j * 8192"
    using n by cases auto
qed

lemma disk_inv_write:
  assumes "disk_inv d" "numPages d' = numPages d"
    "content (dm_file d') = write_at off bs (content (dm_file d))"
  shows "disk_inv d'"
  using assms by (auto simp: disk_inv_def length_write_at)

lemma disk_pages_write:
  assumes inv: "disk_inv d" and i: "i < unat (numPages d)" and n: "length bs \<le> 8192"
    and d': "numPages d' = numPages d"
      "content (dm_file d') = write_at (i * 8192) bs (content (dm_file d))"
  shows "disk_pages d' = (disk_pages d)[i := disk_page d' i]"
proof (rule nth_equalityI)
  fix j assume "j < length (disk_pages d')"
  then show "disk_pages d' ! j = (disk_pages d)[i := disk_page d' i] ! j"
    using disk_page_write_other[OF inv _ _ n d'(2), of j] d' i by (cases "j = i") auto
qed (simp add: d')

lemma MaxUint32_minus_1: "MaxUint32 = -1"
  by (simp add: MaxUint32_def)

lemma count_next: "n \<noteq> MaxUint32 \<Longrightarrow> unat (n + 1) = Suc (unat n)"
  by (metis MaxUint32_minus_1 unatSuc add.commute add_eq_0_iff2)

lemma max_pages: "Suc (unat (n :: u32)) < 2 ^ 32 \<Longrightarrow> n \<noteq> MaxUint32"
  by (auto simp: MaxUint32_def)

lemma ReadPage_io:
  assumes "length dst = 8192" "unat pid < unat (numPages d)"
    and "File_ReadAt (dm_file d) dst (unat pid * 8192) = (r, dst', f)"
  shows "ReadPage d pid dst = (map_sum (Wrap ''disk: read page'') id r, dst', d\<lparr>dm_file := f\<rparr>)"
  using assms by (cases r) (simp_all add: ReadPage_def layout_simps word_le_nat_alt)

lemma ReadPage_range:
  assumes "length dst = 8192" "unat (numPages d) \<le> unat pid"
  shows "ReadPage d pid dst = (Inl (Errorf ''disk: read page out of range''), dst, d)"
  using assms by (simp add: ReadPage_def layout_simps word_le_nat_alt)

lemma WritePage_io:
  assumes "length src = 8192" "unat pid < unat (numPages d)"
    and "File_WriteAt (dm_file d) src (unat pid * 8192) = (r, f)"
  shows "WritePage d pid src = (map_sum (Wrap ''disk: write page'') id r, d\<lparr>dm_file := f\<rparr>)"
  using assms by (cases r) (simp_all add: WritePage_def layout_simps word_le_nat_alt)

lemma WritePage_range:
  assumes "length src = 8192" "unat (numPages d) \<le> unat pid"
  shows "WritePage d pid src = (Inl (Errorf ''disk: write page out of range''), d)"
  using assms by (simp add: WritePage_def layout_simps word_le_nat_alt)

lemma AllocatePage_io:
  assumes "numPages d \<noteq> MaxUint32"
    and "File_WriteAt (dm_file d) NewPage_frame (unat (numPages d) * 8192) = (r, f)"
  shows "AllocatePage d = (case r of
      Inl e \<Rightarrow> (Inl (Wrap ''disk: extend to page'' e), d\<lparr>dm_file := f\<rparr>)
    | Inr _ \<Rightarrow> (Inr (numPages d), d\<lparr>dm_file := f, numPages := numPages d + 1\<rparr>))"
  using assms by (cases r) (simp_all add: AllocatePage_def layout_simps NewPage_frame_def Let_def)

lemma ReadPage_spec:
  assumes inv: "disk_inv d" and dst: "length dst = 8192" and r: "ReadPage d pid dst = (r, dst', d')"
  shows "disk_pages d' = disk_pages d \<and> disk_inv d' \<and> length dst' = 8192 \<and>
    (r = Inr u \<longrightarrow> unat pid < unat (numPages d) \<and> dst' = disk_page d (unat pid))"
proof (cases "unat pid < unat (numPages d)")
  case True
  obtain r1 dst1 f where f: "File_ReadAt (dm_file d) dst (unat pid * 8192) = (r1, dst1, f)"
    by (metis prod_cases3)
  have eqs: "r = map_sum (Wrap ''disk: read page'') id r1" "dst' = dst1" "d' = d\<lparr>dm_file := f\<rparr>"
    using r by (simp_all add: ReadPage_io[OF dst True f])
  have in_file: "unat pid * 8192 + length dst \<le> length (content (dm_file d))"
    using disk_inv_page[OF inv True] dst by simp
  note spec = File_ReadAt_spec[OF f in_file]
  show ?thesis
    using True spec eqs dst inv disk_pages_content[of d' d]
    by (cases r1) (auto simp: disk_page_def)
next
  case False
  then show ?thesis using r inv dst by (auto simp: ReadPage_range)
qed

lemma WritePage_spec:
  assumes inv: "disk_inv d" and src: "length src = 8192" and w: "WritePage d pid src = (r, d')"
  shows "disk_inv d' \<and> (\<exists>torn. disk_pages d' = (disk_pages d)[unat pid := torn]) \<and>
    (r = Inr u \<longrightarrow> unat pid < unat (numPages d) \<and> disk_pages d' = (disk_pages d)[unat pid := src])"
proof (cases "unat pid < unat (numPages d)")
  case True
  obtain r1 f where f: "File_WriteAt (dm_file d) src (unat pid * 8192) = (r1, f)" by fastforce
  have eqs: "r = map_sum (Wrap ''disk: write page'') id r1" "d' = d\<lparr>dm_file := f\<rparr>"
    using w by (simp_all add: WritePage_io[OF src True f])
  have "unat pid * 8192 \<le> length (content (dm_file d))" using disk_inv_page[OF inv True] by simp
  then obtain n where n: "content f = write_at (unat pid * 8192) (take n src) (content (dm_file d))"
    "r1 = Inr u \<Longrightarrow> n = length src"
    using File_WriteAt_spec[OF f] by blast
  have pages: "disk_pages d' = (disk_pages d)[unat pid := disk_page d' (unat pid)]"
    by (rule disk_pages_write[OF inv True, where bs = "take n src"]) (use eqs n(1) src in simp_all)
  have "disk_page d' (unat pid) = src" if "r1 = Inr u"
    using that n eqs src subslice_write_at_same[of "unat pid * 8192" src] by (simp add: disk_page_def)
  moreover have "disk_inv d'" by (rule disk_inv_write[OF inv]) (use eqs n in simp_all)
  ultimately show ?thesis using True pages eqs by (cases r1) auto
next
  case False
  then show ?thesis
    using w inv src by (auto simp: WritePage_range list_update_beyond intro!: exI[of _ "[]"])
qed

lemma AllocatePage_spec:
  assumes inv: "disk_inv d" and a: "AllocatePage d = (r, d')"
  shows "disk_inv d' \<and> (\<forall>e. r = Inl e \<longrightarrow> disk_pages d' = disk_pages d \<and> numPages d' = numPages d) \<and>
    (\<forall>pid. r = Inr pid \<longrightarrow> unat pid = unat (numPages d) \<and> disk_pages d' = disk_pages d @ [NewPage_frame])"
proof (cases "numPages d = MaxUint32")
  case True
  then show ?thesis using a inv by (auto simp: AllocatePage_def)
next
  case False
  let ?n = "unat (numPages d)"
  obtain r1 f where f: "File_WriteAt (dm_file d) NewPage_frame (?n * 8192) = (r1, f)" by fastforce
  have off: "?n * 8192 \<le> length (content (dm_file d))" using inv by (simp add: disk_inv_def)
  obtain n where n: "content f = write_at (?n * 8192) (take n NewPage_frame) (content (dm_file d))"
    "r1 = Inr () \<Longrightarrow> n = length NewPage_frame"
    using File_WriteAt_spec[OF f off] by blast
  have keep: "disk_page (d\<lparr>dm_file := f, numPages := m\<rparr>) j = disk_page d j" if "j < ?n" for j m
    using that n by (intro disk_page_write_other[OF inv, where bs = "take n NewPage_frame"]) auto
  show ?thesis
  proof (cases r1)
    case (Inl e)
    then have eqs: "\<exists>e. r = Inl e" "d' = d\<lparr>dm_file := f, numPages := numPages d\<rparr>"
      using a by (auto simp: AllocatePage_io[OF False f])
    then have "disk_pages d' = disk_pages d"
      using keep[of _ "numPages d"] by (simp add: disk_pages_def)
    moreover have "disk_inv d'" by (rule disk_inv_write[OF inv]) (use eqs n in simp_all)
    ultimately show ?thesis using eqs by auto
  next
    case (Inr u)
    then have eqs: "r = Inr (numPages d)" "d' = d\<lparr>dm_file := f, numPages := numPages d + 1\<rparr>"
      using a by (auto simp: AllocatePage_io[OF False f])
    have c: "content f = write_at (?n * 8192) NewPage_frame (content (dm_file d))"
      using n Inr by simp
    have Suc: "unat (numPages d + 1) = Suc ?n"
      using False
      by (rule count_next)
    have "disk_page d' ?n = NewPage_frame"
      using subslice_write_at_same[of "?n * 8192" NewPage_frame] c eqs by (simp add: disk_page_def)
    then have "disk_pages d' = disk_pages d @ [NewPage_frame]"
      using keep eqs Suc by (simp add: disk_pages_def)
    moreover have "disk_inv d'" using eqs Suc c by (simp add: disk_inv_def length_write_at)
    ultimately show ?thesis using eqs by auto
  qed
qed

lemma disk_quiet_calls:
  assumes "disk_inv d" "disk_quiet d"
  shows "length dst = 8192 \<Longrightarrow> unat pid < unat (numPages d) \<Longrightarrow>
      \<exists>dst' d'. ReadPage d pid dst = (Inr (), dst', d') \<and> disk_quiet d'"
    "length src = 8192 \<Longrightarrow> unat pid < unat (numPages d) \<Longrightarrow>
      \<exists>d'. WritePage d pid src = (Inr (), d') \<and> disk_quiet d'"
    "numPages d \<noteq> MaxUint32 \<Longrightarrow> \<exists>pid d'. AllocatePage d = (Inr pid, d') \<and> disk_quiet d'"
proof -
  note q = File_quiet[of "dm_file d", folded disk_quiet_def, OF assms(2)]
  show "\<exists>dst' d'. ReadPage d pid dst = (Inr (), dst', d') \<and> disk_quiet d'"
    if "length dst = 8192" "unat pid < unat (numPages d)"
    using ReadPage_io[OF that] q(1)[of "unat pid * 8192" dst] disk_inv_page[OF assms(1) that(2)] that
      assms(2) by (simp add: disk_quiet_def)
  show "\<exists>d'. WritePage d pid src = (Inr (), d') \<and> disk_quiet d'"
    if "length src = 8192" "unat pid < unat (numPages d)"
    using WritePage_io[OF that] q(2)[of src "unat pid * 8192"] assms(2) by (simp add: disk_quiet_def)
  show "\<exists>pid d'. AllocatePage d = (Inr pid, d') \<and> disk_quiet d'" if "numPages d \<noteq> MaxUint32"
    using AllocatePage_io[OF that] q(2)[of NewPage_frame "unat (numPages d) * 8192"] assms(2)
    by (simp add: disk_quiet_def)
qed

lemma disk_Sync_pages:
  assumes "disk_inv d" "disk_Sync d = (r, d')"
  shows "disk_pages d' = disk_pages d" "disk_inv d'" "numPages d' = numPages d"
    "r = Inr u \<Longrightarrow> durable (dm_file d') = content (dm_file d)"
proof -
  obtain a f1 where n: "next_outcome (dm_file d) = (a, f1)" by fastforce
  have c: "content f1 = content (dm_file d)" by (rule next_outcome_content[OF n])
  show "numPages d' = numPages d" and "r = Inr u \<Longrightarrow> durable (dm_file d') = content (dm_file d)"
    and "disk_pages d' = disk_pages d" and "disk_inv d'"
    using assms c
    by (auto simp: disk_Sync_def File_Sync_def n disk_pages_def disk_page_def disk_inv_def
        split: io_outcome.splits)
qed

interpretation disk: page_store disk_manager disk_pages disk_inv disk_quiet
proof
  fix d :: DiskManager assume inv: "disk_inv d"
  show "length p = 8192" if "p \<in> set (disk_pages d)" for p
    using that inv by (auto simp: disk_pages_def length_disk_page)
  show "unat (dmNumPages disk_manager d) = length (disk_pages d)"
    by (simp add: disk_manager_def disk_NumPages_def)
  show "unat pid < length (disk_pages d) \<and> dst' = disk_pages d ! unat pid \<and>
      disk_pages d' = disk_pages d \<and> disk_inv d'"
    if "length dst = 8192" "dmReadPage disk_manager d pid dst = (Inr u, dst', d')" for dst pid u dst' d'
    using ReadPage_spec[OF inv that(1), of pid "Inr u" dst' d' u] that(2) by (auto simp: disk_manager_def)
  show "length dst' = 8192 \<and> disk_pages d' = disk_pages d \<and> disk_inv d'"
    if "length dst = 8192" "dmReadPage disk_manager d pid dst = (Inl e, dst', d')" for dst pid e dst' d'
    using ReadPage_spec[OF inv that(1), of pid "Inl e" dst' d'] that(2) by (auto simp: disk_manager_def)
  show "unat pid < length (disk_pages d) \<and> disk_pages d' = (disk_pages d)[unat pid := src] \<and> disk_inv d'"
    if "length src = 8192" "dmWritePage disk_manager d pid src = (Inr u, d')" for src pid u d'
    using WritePage_spec[OF inv that(1), of pid "Inr u" d' u] that(2) by (auto simp: disk_manager_def)
  show "(\<exists>torn. disk_pages d' = (disk_pages d)[unat pid := torn]) \<and> disk_inv d'"
    if "length src = 8192" "dmWritePage disk_manager d pid src = (Inl e, d')" for src pid e d'
    using WritePage_spec[OF inv that(1), of pid "Inl e" d'] that(2) by (auto simp: disk_manager_def)
  show "unat pid = length (disk_pages d) \<and> disk_pages d' = disk_pages d @ [NewPage_frame] \<and> disk_inv d'"
    if "dmAllocatePage disk_manager d = (Inr pid, d')" for pid d'
    using AllocatePage_spec[OF inv, of "Inr pid" d'] that by (auto simp: disk_manager_def)
  show "disk_pages d' = disk_pages d \<and> disk_inv d'"
    if "dmAllocatePage disk_manager d = (Inl e, d')" for e d'
    using AllocatePage_spec[OF inv, of "Inl e" d'] that by (auto simp: disk_manager_def)
  show "disk_pages d' = disk_pages d \<and> disk_inv d'" if "dmSync disk_manager d = (r, d')" for r d'
    using disk_Sync_pages[OF inv, of r d'] that by (auto simp: disk_manager_def)
  assume q: "disk_quiet d"
  show "\<exists>dst' d'. dmReadPage disk_manager d pid dst = (Inr (), dst', d') \<and> disk_quiet d'"
    if "length dst = 8192" "unat pid < length (disk_pages d)" for dst pid
    using disk_quiet_calls(1)[OF inv q] that by (simp add: disk_manager_def)
  show "\<exists>d'. dmWritePage disk_manager d pid src = (Inr (), d') \<and> disk_quiet d'"
    if "length src = 8192" "unat pid < length (disk_pages d)" for src pid
    using disk_quiet_calls(2)[OF inv q] that by (simp add: disk_manager_def)
  show "\<exists>pid d'. dmAllocatePage disk_manager d = (Inr pid, d') \<and> disk_quiet d'"
    if "Suc (length (disk_pages d)) < 2 ^ 32"
    using disk_quiet_calls(3)[OF inv q] that max_pages[of "numPages d"] by (simp add: disk_manager_def)
qed

subsection \<open>Opening and reopening\<close>

lemma disk_Open_ok:
  assumes "disk_Open existing answers = Inr d"
  shows "content (dm_file d) = (case existing of None \<Rightarrow> [] | Some b \<Rightarrow> b)"
    "8192 dvd length (content (dm_file d))"
    "numPages d = of_nat (length (content (dm_file d)) div 8192)"
  using assms
  by (auto simp: disk_Open_def Let_def next_outcome_def layout_simps split: list.splits io_outcome.splits
      if_splits prod.splits)

lemma disk_Open_inv:
  assumes "disk_Open existing answers = Inr d" shows "disk_inv d"
proof -
  have "unat (numPages d) \<le> length (content (dm_file d)) div 8192"
    unfolding disk_Open_ok(3)[OF assms] by (simp add: unat_of_nat)
  then have "unat (numPages d) * 8192 \<le> length (content (dm_file d)) div 8192 * 8192" by simp
  also have "\<dots> \<le> length (content (dm_file d))" by (rule div_times_less_eq_dividend)
  finally show ?thesis by (simp add: disk_inv_def)
qed

lemma snd_disk_Close: "snd (disk_Close d) = content (dm_file d)"
  by (simp add: disk_Close_def case_prod_beta content_next_outcome)

text \<open>A concrete file of two pages with no failure pending.\<close>

definition two_pages :: DiskManager where
  "two_pages = \<lparr>dm_file = \<lparr>content = replicate 16384 0, durable = [], outcomes = []\<rparr>, numPages = 2\<rparr>"

lemma two_pages: "disk_inv two_pages" "disk_quiet two_pages" "numPages two_pages = 2"
  by (simp_all add: two_pages_def disk_inv_def disk_quiet_def)

subsection \<open>Properties\<close>

text \<open>Whatever the OS answers, a \<^verbatim>\<open>WritePage\<close> that succeeds replaces exactly that page, one that
  fails can have damaged only that page, the page count never changes, and a page id out of range
  is refused without any I/O.\<close>

theorem WritePage_only_its_page:
  assumes "disk_inv d" "length src = 8192" "WritePage d pid src = (r, d')"
  shows "disk_inv d' \<and> numPages d' = numPages d \<and>
    (case r of
       Inr _ \<Rightarrow> unat pid < length (disk_pages d) \<and> disk_pages d' = (disk_pages d)[unat pid := src]
     | Inl _ \<Rightarrow> (\<exists>torn. disk_pages d' = (disk_pages d)[unat pid := torn])) \<and>
    (length (disk_pages d) \<le> unat pid \<longrightarrow> r \<noteq> Inr () \<and> d' = d)"
proof -
  have spec: "disk_inv d' \<and> (\<exists>torn. disk_pages d' = (disk_pages d)[unat pid := torn]) \<and>
    (r = Inr () \<longrightarrow> unat pid < unat (numPages d) \<and> disk_pages d' = (disk_pages d)[unat pid := src])"
    by (rule WritePage_spec[OF assms])
  moreover have "numPages d' = numPages d"
  proof -
    obtain torn where "disk_pages d' = (disk_pages d)[unat pid := torn]" using spec by blast
    then have "length (disk_pages d') = length (disk_pages d)" by simp
    then show ?thesis by (simp add: word_unat_eq_iff)
  qed
  moreover have "length (disk_pages d) \<le> unat pid \<longrightarrow> r \<noteq> Inr () \<and> d' = d"
    using assms WritePage_range[OF assms(2), of d pid] by auto
  ultimately show ?thesis by (auto split: sum.split)
qed

theorem WritePage_only_its_page_witness:
  "\<exists>r d'. WritePage two_pages 1 (replicate 8192 7) = (r, d') \<and> r = Inr () \<and>
     disk_pages d' ! 1 = replicate 8192 7 \<and> disk_pages d' ! 0 = disk_pages two_pages ! 0"
proof -
  obtain d' where w: "WritePage two_pages 1 (replicate 8192 7) = (Inr (), d')"
    using disk.quiet_write[of two_pages "replicate 8192 7" 1] two_pages by (auto simp: disk_manager_def)
  show ?thesis using WritePage_only_its_page[OF two_pages(1) _ w] w two_pages(3) by auto
qed

text \<open>\<^verbatim>\<open>ReadPage\<close> never changes a page; when it succeeds the buffer holds exactly the page's
  bytes, so a page reads back as last written, and without an I/O failure every page in range is
  readable.\<close>

theorem ReadPage_returns_page:
  assumes "disk_inv d" "length dst = 8192" "ReadPage d pid dst = (r, dst', d')"
  shows "disk_pages d' = disk_pages d \<and> disk_inv d' \<and>
    (r = Inr () \<longrightarrow> unat pid < length (disk_pages d) \<and> dst' = disk_pages d ! unat pid) \<and>
    (disk_quiet d \<and> unat pid < length (disk_pages d) \<longrightarrow> r = Inr ())"
  using ReadPage_spec[OF assms, of "()"] disk_quiet_calls(1)[OF assms(1) _ assms(2), of pid] assms(3) by auto

theorem ReadPage_returns_page_witness:
  "\<exists>r dst' d'. ReadPage two_pages 0 NewPage_frame = (r, dst', d') \<and> r = Inr () \<and>
     dst' = disk_pages two_pages ! 0"
proof -
  obtain r dst' d' where r: "ReadPage two_pages 0 NewPage_frame = (r, dst', d')" by (metis prod_cases3)
  show ?thesis using ReadPage_returns_page[OF two_pages(1) _ r] r two_pages by auto
qed

text \<open>\<^verbatim>\<open>AllocatePage\<close> returns the old page count as the new id, appends one zeroed page and
  keeps the others; a failed one, at the limit or in the middle of the write, leaves the page
  count and every page as they were.\<close>

theorem AllocatePage_appends:
  assumes "disk_inv d" "AllocatePage d = (r, d')"
  shows "disk_inv d' \<and>
    (case r of
       Inr pid \<Rightarrow> unat pid = length (disk_pages d) \<and> disk_pages d' = disk_pages d @ [NewPage_frame]
     | Inl _ \<Rightarrow> numPages d' = numPages d \<and> disk_pages d' = disk_pages d)"
  using AllocatePage_spec[OF assms] by (auto split: sum.split)

theorem AllocatePage_appends_witness:
  "\<exists>pid d'. AllocatePage two_pages = (Inr pid, d') \<and> unat pid = 2 \<and>
     disk_pages d' = disk_pages two_pages @ [NewPage_frame]"
proof -
  obtain pid d' where a: "AllocatePage two_pages = (Inr pid, d')"
    using disk.quiet_alloc[of two_pages] two_pages by (auto simp: disk_manager_def)
  show ?thesis using AllocatePage_appends[OF two_pages(1) a] a two_pages(3) by auto
qed

text \<open>Closing and reopening a file whose length is its page count gives the same pages back, for
  every file below the limit of \<^verbatim>\<open>uint32\<close> page ids; a file that is not a whole number of pages is
  refused.\<close>

theorem disk_reopen:
  assumes "length (content (dm_file d)) = unat (numPages d) * 8192"
  shows "(\<exists>d'. disk_Open (Some (snd (disk_Close d))) [] = Inr d' \<and> disk_inv d' \<and>
      disk_pages d' = disk_pages d \<and> numPages d' = numPages d) \<and>
    (length bytes mod 8192 \<noteq> 0 \<longrightarrow> (\<exists>e. disk_Open (Some bytes) [] = Inl e))"
proof (intro conjI)
  let ?c = "content (dm_file d)"
  have o: "disk_Open (Some ?c) [] =
      Inr \<lparr>dm_file = \<lparr>content = ?c, durable = ?c, outcomes = []\<rparr>, numPages = of_nat (length ?c div 8192)\<rparr>"
    using assms by (simp add: disk_Open_def next_outcome_def layout_simps Let_def)
  then show "\<exists>d'. disk_Open (Some (snd (disk_Close d))) [] = Inr d' \<and> disk_inv d' \<and>
      disk_pages d' = disk_pages d \<and> numPages d' = numPages d"
    unfolding snd_disk_Close using assms disk_Open_inv[OF o]
    by (simp add: disk_pages_def disk_page_def)
  show "length bytes mod 8192 \<noteq> 0 \<longrightarrow> (\<exists>e. disk_Open (Some bytes) [] = Inl e)"
    by (simp add: disk_Open_def next_outcome_def layout_simps)
qed

theorem disk_reopen_witness:
  "(\<exists>d'. disk_Open (Some (snd (disk_Close two_pages))) [] = Inr d' \<and> disk_pages d' = disk_pages two_pages) \<and>
   (\<exists>e. disk_Open (Some [1, 2, 3]) [] = Inl e)"
  using disk_reopen[of two_pages "[1, 2, 3]"]
  by (auto simp: two_pages_def)

text \<open>The page count derived by \<^verbatim>\<open>Open\<close> is the number of pages modulo 2 to the 32: a file of
  exactly that many pages is opened as an empty one, without an error.\<close>

theorem disk_Open_wraps:
  assumes "length bytes = 2 ^ 32 * 8192"
  shows "\<exists>d. disk_Open (Some bytes) [] = Inr d \<and> numPages d = 0"
  using assms by (simp add: disk_Open_def next_outcome_def layout_simps)

theorem disk_Open_wraps_witness:
  "\<exists>d. disk_Open (Some (replicate (2 ^ 32 * 8192) 0)) [] = Inr d \<and> numPages d = 0"
  by (rule disk_Open_wraps) (rule length_replicate)

text \<open>\<^verbatim>\<open>Sync\<close> changes no page and no page count; when it succeeds the device holds exactly the
  bytes the file shows.\<close>

theorem Sync_durable:
  assumes "disk_inv d" "disk_Sync d = (r, d')"
  shows "disk_pages d' = disk_pages d \<and> numPages d' = numPages d \<and>
    (r = Inr () \<longrightarrow> durable (dm_file d') = content (dm_file d'))"
proof -
  have "content (dm_file d') = content (dm_file d)"
    using assms(2) content_next_outcome[of "dm_file d"]
    by (auto simp: disk_Sync_def File_Sync_def case_prod_beta split: io_outcome.splits)
  then show ?thesis using disk_Sync_pages[OF assms] by auto
qed

theorem Sync_durable_witness:
  "\<exists>r d'. disk_Sync two_pages = (r, d') \<and> r = Inr () \<and> durable (dm_file d') = content (dm_file d')"
proof -
  obtain r d' where s: "disk_Sync two_pages = (r, d')" by fastforce
  moreover have "r = Inr ()" using s two_pages(2) by (simp add: disk_Sync_def File_quiet disk_quiet_def)
  ultimately show ?thesis using Sync_durable[OF two_pages(1) s] by auto
qed

end
