(* ===== verification/LRU_Replacer.thy ===== *)
theory LRU_Replacer
  imports Db_Prelude
begin

text \<open>
  The LRU replacer of \<^verbatim>\<open>internal/storage/buffer/lru_replacer.go\<close>: a doubly-linked list of
  evictable frames (\<^verbatim>\<open>container/list\<close>) and a map from a frame to its list element. A list element
  is a heap object, so the list is modelled with an identity per element and the map holds
  identities, as the code's map holds pointers.

  \<open>eviction_queue\<close> is the contract the buffer pool relies on: the replacer is a queue of distinct
  frames, most recent first.
\<close>

subsection \<open>The code\<close>

type_synonym frameID = nat

record LRUReplacer =
  lru_order :: "(nat \<times> frameID) list"
  lru_index :: "frameID \<rightharpoonup> nat"
  next_elem :: nat

definition list_Remove :: "(nat \<times> frameID) list \<Rightarrow> nat \<Rightarrow> (nat \<times> frameID) list" where
  "list_Remove l e = filter (\<lambda>(e', _). e' \<noteq> e) l"

definition NewLRUReplacer :: LRUReplacer where
  "NewLRUReplacer = \<lparr>lru_order = [], lru_index = Map.empty, next_elem = 0\<rparr>"

definition lru_Unpin :: "LRUReplacer \<Rightarrow> frameID \<Rightarrow> LRUReplacer" where
  "lru_Unpin r f =
     (case lru_index r f of
        Some _ \<Rightarrow> r
      | None \<Rightarrow> r\<lparr>lru_order := (next_elem r, f) # lru_order r,
                  lru_index := (lru_index r)(f \<mapsto> next_elem r),
                  next_elem := Suc (next_elem r)\<rparr>)"

definition lru_Pin :: "LRUReplacer \<Rightarrow> frameID \<Rightarrow> LRUReplacer" where
  "lru_Pin r f =
     (case lru_index r f of
        None \<Rightarrow> r
      | Some e \<Rightarrow> r\<lparr>lru_order := list_Remove (lru_order r) e,
                    lru_index := (lru_index r)(f := None)\<rparr>)"

definition lru_Victim :: "LRUReplacer \<Rightarrow> (frameID \<times> bool) \<times> LRUReplacer" where
  "lru_Victim r =
     (if lru_order r = [] then ((0, False), r)
      else let (e, f) = last (lru_order r) in
        ((f, True), r\<lparr>lru_order := list_Remove (lru_order r) e,
                      lru_index := (lru_index r)(f := None)\<rparr>))"

definition lru_Size :: "LRUReplacer \<Rightarrow> nat" where
  "lru_Size r = length (lru_order r)"

subsection \<open>The contract\<close>

definition lru_queue :: "LRUReplacer \<Rightarrow> frameID list" where
  "lru_queue r = map snd (lru_order r)"

definition lru_inv :: "LRUReplacer \<Rightarrow> bool" where
  "lru_inv r \<longleftrightarrow> distinct (map fst (lru_order r)) \<and> distinct (map snd (lru_order r))
     \<and> (\<forall>f e. lru_index r f = Some e \<longleftrightarrow> (e, f) \<in> set (lru_order r))
     \<and> (\<forall>(e, f) \<in> set (lru_order r). e < next_elem r)"

locale eviction_queue =
  fixes empty :: 'r and unpin :: "'r \<Rightarrow> frameID \<Rightarrow> 'r" and pin :: "'r \<Rightarrow> frameID \<Rightarrow> 'r"
    and victim :: "'r \<Rightarrow> (frameID \<times> bool) \<times> 'r" and size_of :: "'r \<Rightarrow> nat"
    and queue :: "'r \<Rightarrow> frameID list" and inv :: "'r \<Rightarrow> bool"
  assumes empty_queue: "inv empty" "queue empty = []"
    and queue_distinct: "inv r \<Longrightarrow> distinct (queue r)"
    and unpin_inv: "inv r \<Longrightarrow> inv (unpin r f)"
    and unpin_queue: "inv r \<Longrightarrow> queue (unpin r f) = (if f \<in> set (queue r) then queue r else f # queue r)"
    and pin_inv: "inv r \<Longrightarrow> inv (pin r f)"
    and pin_queue: "inv r \<Longrightarrow> queue (pin r f) = remove1 f (queue r)"
    and victim_none: "inv r \<Longrightarrow> queue r = [] \<Longrightarrow> victim r = ((0, False), r)"
    and victim_some: "\<lbrakk>inv r; queue r \<noteq> []\<rbrakk> \<Longrightarrow>
      \<exists>r'. victim r = ((last (queue r), True), r') \<and> inv r' \<and> queue r' = butlast (queue r)"
    and size_queue: "inv r \<Longrightarrow> size_of r = length (queue r)"
begin

text \<open>A frame unpinned while nothing else is touched is evicted after every frame that was already
  waiting, in the order in which those were unpinned.\<close>

fun drain :: "nat \<Rightarrow> 'r \<Rightarrow> frameID list" where
  "drain 0 r = []"
| "drain (Suc n) r = (case victim r of ((f, ok), r') \<Rightarrow> if ok then f # drain n r' else [])"

lemma drain_queue: "inv r \<Longrightarrow> length (queue r) \<le> n \<Longrightarrow> drain n r = rev (queue r)"
proof (induction n arbitrary: r)
  case 0
  then show ?case by simp
next
  case (Suc n)
  show ?case
  proof (cases "queue r = []")
    case True
    then show ?thesis using victim_none[OF Suc.prems(1)] by simp
  next
    case False
    then obtain r' where r': "victim r = ((last (queue r), True), r')" "inv r'" "queue r' = butlast (queue r)"
      using victim_some[OF Suc.prems(1)] by blast
    then have "drain n r' = rev (butlast (queue r))" using Suc by simp
    moreover have "rev (queue r) = last (queue r) # rev (butlast (queue r))"
      using False by (metis append_butlast_last_id rev_eq_Cons_iff rev_rev_ident)
    ultimately show ?thesis using r'(1) by (simp only: drain.simps prod.case if_True)
  qed
qed

lemma unpinned_evicted_last:
  assumes "inv r" "f \<notin> set (queue r)"
  shows "drain (Suc (size_of r)) (unpin r f) = drain (size_of r) r @ [f]"
  using assms drain_queue[of r "size_of r"] drain_queue[of "unpin r f" "Suc (size_of r)"]
  by (simp add: size_queue unpin_queue unpin_inv del: drain.simps)

end

subsection \<open>The replacer is the queue\<close>

lemma unique_snd:
  assumes "distinct (map snd l)" "(e, f) \<in> set l" "(e', f) \<in> set l"
  shows "e = e'"
proof -
  have "inj_on snd (set l)" using assms(1) by (simp add: distinct_map)
  then have "(e, f) = (e', f)" by (rule inj_onD) (use assms in auto)
  then show ?thesis by simp
qed

lemmas unique_fst = eq_key_imp_eq_value

lemma list_Remove_unique:
  assumes "distinct (map fst l)" "distinct (map snd l)" "(e, f) \<in> set l"
  shows "map snd (list_Remove l e) = remove1 f (map snd l)"
    "set (list_Remove l e) = set l - {(e, f)}"
proof -
  have same: "e' = e \<longleftrightarrow> f' = f" if "(e', f') \<in> set l" for e' f'
    using that assms unique_fst[of l e f' f] unique_snd[of l e f e'] by blast
  have "filter (\<lambda>(e', _). e' \<noteq> e) l = filter (\<lambda>p. f \<noteq> snd p) l"
    by (rule filter_cong) (use same in force)+
  then have "map snd (list_Remove l e) = filter ((\<noteq>) f) (map snd l)"
    by (simp add: list_Remove_def filter_map o_def)
  then show "map snd (list_Remove l e) = remove1 f (map snd l)"
    using assms(2) by (simp add: distinct_remove1_removeAll removeAll_filter_not_eq)
  show "set (list_Remove l e) = set l - {(e, f)}"
    using assms(3) same by (force simp: list_Remove_def)
qed

lemma lru_inv_remove:
  assumes "lru_inv r" "(e, f) \<in> set (lru_order r)"
  shows "lru_inv (r\<lparr>lru_order := list_Remove (lru_order r) e, lru_index := (lru_index r)(f := None)\<rparr>)"
    "lru_queue (r\<lparr>lru_order := list_Remove (lru_order r) e, lru_index := (lru_index r)(f := None)\<rparr>)
      = remove1 f (lru_queue r)"
proof -
  have d: "distinct (map fst (lru_order r))" "distinct (map snd (lru_order r))"
    using assms(1) by (auto simp: lru_inv_def)
  note rm = list_Remove_unique[OF d assms(2)]
  show "lru_queue (r\<lparr>lru_order := list_Remove (lru_order r) e, lru_index := (lru_index r)(f := None)\<rparr>)
      = remove1 f (lru_queue r)"
    using rm(1) by (simp add: lru_queue_def)
  have "distinct (map fst (list_Remove (lru_order r) e))"
    using d(1) by (simp add: list_Remove_def distinct_map_filter)
  moreover have "distinct (map snd (list_Remove (lru_order r) e))"
    using d(2) by (simp add: list_Remove_def distinct_map_filter)
  moreover have "((lru_index r)(f := None)) f' = Some e' \<longleftrightarrow>
      (e', f') \<in> set (list_Remove (lru_order r) e)" for f' e'
    using assms unique_snd[OF d(2), of e' f e] by (auto simp: rm(2) lru_inv_def)
  moreover have "\<forall>(e', f') \<in> set (list_Remove (lru_order r) e). e' < next_elem r"
    using assms(1) by (auto simp: rm(2) lru_inv_def)
  ultimately show "lru_inv (r\<lparr>lru_order := list_Remove (lru_order r) e, lru_index := (lru_index r)(f := None)\<rparr>)"
    by (simp add: lru_inv_def)
qed

lemma lru_tracked: "lru_inv r \<Longrightarrow> f \<in> set (lru_queue r) \<longleftrightarrow> lru_index r f \<noteq> None"
  by (force simp: lru_inv_def lru_queue_def image_iff)

lemma lru_Pin_spec:
  assumes inv: "lru_inv r"
  shows "lru_inv (lru_Pin r f) \<and> lru_queue (lru_Pin r f) = remove1 f (lru_queue r)"
proof (cases "lru_index r f")
  case None
  then show ?thesis using inv lru_tracked[OF inv, of f] by (simp add: lru_Pin_def remove1_idem)
next
  case (Some e)
  then have "(e, f) \<in> set (lru_order r)" using inv by (simp add: lru_inv_def)
  then show ?thesis using lru_inv_remove[OF inv] Some by (simp add: lru_Pin_def)
qed

interpretation lru: eviction_queue NewLRUReplacer lru_Unpin lru_Pin lru_Victim lru_Size lru_queue lru_inv
proof
  show "lru_inv NewLRUReplacer" "lru_queue NewLRUReplacer = []"
    by (simp_all add: lru_inv_def lru_queue_def NewLRUReplacer_def)
next
  fix r f assume inv: "lru_inv r"
  show "distinct (lru_queue r)" using inv by (simp add: lru_inv_def lru_queue_def)
  note tracked = lru_tracked[OF inv, of f]
  show "lru_queue (lru_Unpin r f) = (if f \<in> set (lru_queue r) then lru_queue r else f # lru_queue r)"
    using tracked by (auto simp: lru_Unpin_def lru_queue_def split: option.splits)
  show "lru_inv (lru_Unpin r f)"
    using inv tracked unfolding lru_inv_def lru_queue_def
    by (force simp: lru_Unpin_def split: option.splits)
  show "lru_inv (lru_Pin r f)" "lru_queue (lru_Pin r f) = remove1 f (lru_queue r)"
    using lru_Pin_spec[OF inv] by auto
  show "lru_Victim r = ((0, False), r)" if "lru_queue r = []"
    using that by (simp add: lru_Victim_def lru_queue_def)
  show "\<exists>r'. lru_Victim r = ((last (lru_queue r), True), r') \<and> lru_inv r' \<and>
      lru_queue r' = butlast (lru_queue r)" if ne: "lru_queue r \<noteq> []"
  proof -
    obtain e g where l: "last (lru_order r) = (e, g)" by fastforce
    have o: "lru_order r \<noteq> []" using ne by (simp add: lru_queue_def)
    then have mem: "(e, g) \<in> set (lru_order r)" using l last_in_set by metis
    have "last (lru_queue r) = g" using o l by (simp add: lru_queue_def last_map)
    moreover have "remove1 g (lru_queue r) = butlast (lru_queue r)"
      using inv ne calculation
      by (metis append_butlast_last_id distinct_append lru_inv_def lru_queue_def remove1.simps(2)
          remove1_append append_Nil2 not_distinct_conv_prefix)
    ultimately show ?thesis
      using o l lru_inv_remove[OF inv mem] by (simp add: lru_Victim_def)
  qed
  show "lru_Size r = length (lru_queue r)" by (simp add: lru_Size_def lru_queue_def)
qed

subsection \<open>Properties\<close>

text \<open>C38. The replacer is a queue of distinct frames: \<^verbatim>\<open>Unpin\<close> puts a frame that is not waiting at
  the front and leaves a waiting one where it is, \<^verbatim>\<open>Pin\<close> removes a frame and ignores an absent one,
  \<^verbatim>\<open>Victim\<close> takes the frame at the back, and every operation keeps the order list and the index
  map in step.\<close>

theorem replacer_refines_queue:
  assumes "lru_inv r"
  shows "lru_inv (lru_Unpin r f) \<and>
      lru_queue (lru_Unpin r f) = (if f \<in> set (lru_queue r) then lru_queue r else f # lru_queue r) \<and>
    lru_inv (lru_Pin r f) \<and> lru_queue (lru_Pin r f) = remove1 f (lru_queue r) \<and>
    (if lru_queue r = [] then lru_Victim r = ((0, False), r)
     else \<exists>r'. lru_Victim r = ((last (lru_queue r), True), r') \<and> lru_inv r' \<and>
       lru_queue r' = butlast (lru_queue r)) \<and>
    lru_Size r = length (lru_queue r) \<and> distinct (lru_queue r)"
  using lru.unpin_inv[OF assms] lru.unpin_queue[OF assms] lru.pin_inv[OF assms] lru.pin_queue[OF assms]
    lru.victim_none[OF assms] lru.victim_some[OF assms] lru.size_queue[OF assms] lru.queue_distinct[OF assms]
  by simp

theorem replacer_refines_queue_witness:
  "lru_queue (lru_Pin NewLRUReplacer 3) = [] \<and> lru_queue (lru_Unpin NewLRUReplacer 3) = [3]"
  using replacer_refines_queue[OF lru.empty_queue(1), of 3] lru.empty_queue(2) by simp

text \<open>Eviction order: asking for victims until none is left gives the waiting frames least
  recently unpinned first, and a frame unpinned now comes after all of them.\<close>

theorem eviction_order:
  assumes "lru_inv r" "f \<notin> set (lru_queue r)"
  shows "lru.drain (lru_Size r) r = rev (lru_queue r) \<and>
    lru.drain (Suc (lru_Size r)) (lru_Unpin r f) = lru.drain (lru_Size r) r @ [f]"
  using lru.drain_queue[OF assms(1), of "lru_Size r"] lru.size_queue[OF assms(1)]
    lru.unpinned_evicted_last[OF assms] by simp

theorem eviction_order_witness:
  "lru.drain 3 (lru_Unpin (lru_Unpin (lru_Unpin NewLRUReplacer 4) 2) 9) = [4, 2, 9]"
proof -
  let ?r = "lru_Unpin (lru_Unpin NewLRUReplacer 4) 2"
  have i: "lru_inv ?r" by (intro lru.unpin_inv lru.empty_queue)
  have q: "lru_queue ?r = [2, 4]" by code_simp
  have "lru_Size ?r = 2" using lru.size_queue[OF i] q by simp
  then show ?thesis
    using eviction_order[OF i, of 9] q by (simp add: numeral_3_eq_3 numeral_2_eq_2 del: lru.drain.simps)
qed

end
