(* ===== verification/Buffer_Pool.thy ===== *)
theory Buffer_Pool
  imports Disk_Manager LRU_Replacer
begin

text \<open>
  The buffer pool of \<^verbatim>\<open>internal/storage/buffer/buffer_pool.go\<close>. The pool is a record with the
  code's fields; its \<^verbatim>\<open>files\<close> are reached through the \<^verbatim>\<open>diskManager\<close> interface, which every
  operation takes as its first argument, as the code takes it by dynamic dispatch. A \<^verbatim>\<open>*page.Page\<close>
  handed to a caller is the index of its frame, and the caller's writes through that pointer are
  \<open>write_frame\<close>. The mutex makes each method one step, apart from \<^verbatim>\<open>Sync\<close> and \<^verbatim>\<open>numPages\<close>, whose
  unlocked parts \<open>Pool_Threads\<close> has; \<open>pool_step\<close> is the relation of all of them.

  The abstract view of a pool is \<open>page_of\<close> (the current bytes of a page, in memory or on disk),
  \<open>pins\<close> and \<open>at_risk\<close> (an unflushed change that nobody has reported dirty). \<open>pool_inv\<close> holds the
  three-state partition of the frames the code's comment describes.
\<close>

subsection \<open>Types\<close>

type_synonym FileID = u32

datatype pageKey = PageKey (pk_file: FileID) (pk_pid: PageID)

record frameMeta =
  mkey :: pageKey
  pinCount :: nat
  dirty :: bool

record 'd BufferPool =
  files :: "'d list"
  frames :: "page list"
  meta :: "frameMeta list"
  pageTable :: "pageKey \<rightharpoonup> frameID"
  freeList :: "frameID list"
  replacer :: LRUReplacer

definition ErrNoFreeFrame :: err where
  "ErrNoFreeFrame = Sentinel ''buffer: all frames pinned, no page can be evicted''"

definition zero_meta :: frameMeta where
  "zero_meta = \<lparr>mkey = PageKey 0 0, pinCount = 0, dirty = False\<rparr>"

subsection \<open>The code\<close>

definition NewBufferPool :: "int \<Rightarrow> 'd BufferPool option" where
  "NewBufferPool poolSize =
     (if poolSize \<le> 0 then None
      else Some \<lparr>files = [], frames = replicate (nat poolSize) NewPage_frame,
                 meta = replicate (nat poolSize) zero_meta, pageTable = Map.empty,
                 freeList = [0..<nat poolSize], replacer = NewLRUReplacer\<rparr>)"

definition Register :: "'d BufferPool \<Rightarrow> 'd \<Rightarrow> FileID \<times> 'd BufferPool" where
  "Register bp dm = (of_nat (length (files bp)), bp\<lparr>files := files bp @ [dm]\<rparr>)"

definition bindFrame :: "'d BufferPool \<Rightarrow> frameID \<Rightarrow> pageKey \<Rightarrow> 'd BufferPool" where
  "bindFrame bp f key =
     bp\<lparr>meta := (meta bp)[f := \<lparr>mkey = key, pinCount = 1, dirty = False\<rparr>],
        pageTable := (pageTable bp)(key \<mapsto> f)\<rparr>"

definition flushLocked :: "'d diskManager \<Rightarrow> 'd BufferPool \<Rightarrow> frameID \<Rightarrow> ((err + unit) \<times> 'd BufferPool) option" where
  "flushLocked D bp f = do {
     m \<leftarrow> idx (meta bp) f;
     if \<not> dirty m then Some (Inr (), bp)
     else do {
       let key = mkey m;
       dm \<leftarrow> idx (files bp) (unat (pk_file key));
       frame \<leftarrow> idx (frames bp) f;
       let (r, dm) = dmWritePage D dm (pk_pid key) frame;
       let bp = bp\<lparr>files := (files bp)[unat (pk_file key) := dm]\<rparr>;
       case r of
         Inl e \<Rightarrow> Some (Inl (Wrap ''buffer: flush'' e), bp)
       | Inr _ \<Rightarrow> Some (Inr (), bp\<lparr>meta := (meta bp)[f := m\<lparr>dirty := False\<rparr>]\<rparr>)
     }
   }"

definition acquireFrame :: "'d diskManager \<Rightarrow> 'd BufferPool \<Rightarrow> ((err + frameID) \<times> 'd BufferPool) option" where
  "acquireFrame D bp =
     (if freeList bp \<noteq> []
      then Some (Inr (last (freeList bp)), bp\<lparr>freeList := butlast (freeList bp)\<rparr>)
      else
        let ((v, ok), r) = lru_Victim (replacer bp);
            bp = bp\<lparr>replacer := r\<rparr>
        in if \<not> ok then Some (Inl ErrNoFreeFrame, bp)
        else do {
          m \<leftarrow> idx (meta bp) v;
          let old = mkey m;
          if dirty m then do {
            dm \<leftarrow> idx (files bp) (unat (pk_file old));
            frame \<leftarrow> idx (frames bp) v;
            let (w, dm) = dmWritePage D dm (pk_pid old) frame;
            let bp = bp\<lparr>files := (files bp)[unat (pk_file old) := dm]\<rparr>;
            case w of
              Inl e \<Rightarrow> Some (Inl (Wrap ''buffer: flush victim'' e),
                             bp\<lparr>replacer := lru_Unpin (replacer bp) v\<rparr>)
            | Inr _ \<Rightarrow> Some (Inr v, bp\<lparr>pageTable := (pageTable bp)(old := None)\<rparr>)
          }
          else Some (Inr v, bp\<lparr>pageTable := (pageTable bp)(old := None)\<rparr>)
        })"

definition fetch :: "'d diskManager \<Rightarrow> 'd BufferPool \<Rightarrow> FileID \<Rightarrow> PageID \<Rightarrow> ((err + frameID) \<times> 'd BufferPool) option" where
  "fetch D bp file pid =
     (let key = PageKey file pid in
      case pageTable bp key of
        Some f \<Rightarrow> do {
          m \<leftarrow> idx (meta bp) f;
          let bp = bp\<lparr>meta := (meta bp)[f := m\<lparr>pinCount := pinCount m + 1\<rparr>]\<rparr>;
          let bp = bp\<lparr>replacer := lru_Pin (replacer bp) f\<rparr>;
          Some (Inr f, bp)
        }
      | None \<Rightarrow> do {
          (r, bp) \<leftarrow> acquireFrame D bp;
          case r of
            Inl e \<Rightarrow> Some (Inl e, bp)
          | Inr f \<Rightarrow> do {
              dm \<leftarrow> idx (files bp) (unat file);
              frame \<leftarrow> idx (frames bp) f;
              let (r, frame, dm) = dmReadPage D dm pid frame;
              let bp = bp\<lparr>files := (files bp)[unat file := dm], frames := (frames bp)[f := frame]\<rparr>;
              case r of
                Inl e \<Rightarrow> Some (Inl (Wrap ''buffer: load'' e), bp\<lparr>freeList := freeList bp @ [f]\<rparr>)
              | Inr _ \<Rightarrow> Some (Inr f, bindFrame bp f key)
            }
        })"

definition newPage :: "'d diskManager \<Rightarrow> 'd BufferPool \<Rightarrow> FileID \<Rightarrow> ((err + frameID \<times> PageID) \<times> 'd BufferPool) option" where
  "newPage D bp file = do {
     (r, bp) \<leftarrow> acquireFrame D bp;
     case r of
       Inl e \<Rightarrow> Some (Inl e, bp)
     | Inr f \<Rightarrow> do {
         dm \<leftarrow> idx (files bp) (unat file);
         let (r, dm) = dmAllocatePage D dm;
         let bp = bp\<lparr>files := (files bp)[unat file := dm]\<rparr>;
         case r of
           Inl e \<Rightarrow> Some (Inl (Wrap ''buffer: allocate page'' e), bp\<lparr>freeList := freeList bp @ [f]\<rparr>)
         | Inr pid \<Rightarrow> do {
             frame \<leftarrow> idx (frames bp) f;
             let bp = bp\<lparr>frames := (frames bp)[f := go_clear frame]\<rparr>;
             Some (Inr (f, pid), bindFrame bp f (PageKey file pid))
           }
       }
   }"

definition unpin :: "'d BufferPool \<Rightarrow> FileID \<Rightarrow> PageID \<Rightarrow> bool \<Rightarrow> ((err + unit) \<times> 'd BufferPool) option" where
  "unpin bp file pid d =
     (case pageTable bp (PageKey file pid) of
        None \<Rightarrow> Some (Inl (Errorf ''buffer: unpin that is not resident''), bp)
      | Some f \<Rightarrow> do {
          m \<leftarrow> idx (meta bp) f;
          if pinCount m = 0 then Some (Inl (Errorf ''buffer: unpin that is not pinned''), bp)
          else do {
            let m = m\<lparr>dirty := dirty m \<or> d\<rparr>;
            let m = m\<lparr>pinCount := pinCount m - 1\<rparr>;
            let bp = bp\<lparr>meta := (meta bp)[f := m]\<rparr>;
            if pinCount m = 0 then Some (Inr (), bp\<lparr>replacer := lru_Unpin (replacer bp) f\<rparr>)
            else Some (Inr (), bp)
          }
        })"

definition bp_numPages :: "'d diskManager \<Rightarrow> 'd BufferPool \<Rightarrow> FileID \<Rightarrow> PageID option" where
  "bp_numPages D bp file = do { dm \<leftarrow> idx (files bp) (unat file); Some (dmNumPages D dm) }"

definition flushPage :: "'d diskManager \<Rightarrow> 'd BufferPool \<Rightarrow> FileID \<Rightarrow> PageID \<Rightarrow> ((err + unit) \<times> 'd BufferPool) option" where
  "flushPage D bp file pid =
     (case pageTable bp (PageKey file pid) of
        None \<Rightarrow> Some (Inl (Errorf ''buffer: flush that is not resident''), bp)
      | Some f \<Rightarrow> flushLocked D bp f)"

text \<open>\<^verbatim>\<open>FlushAll\<close> ranges over the page table, in an order Go does not specify: the order is an
  argument, a list of the keys.\<close>

fun FlushAll :: "'d diskManager \<Rightarrow> pageKey list \<Rightarrow> 'd BufferPool \<Rightarrow> ((err + unit) \<times> 'd BufferPool) option" where
  "FlushAll D [] bp = Some (Inr (), bp)"
| "FlushAll D (k # ks) bp =
     (case pageTable bp k of
        None \<Rightarrow> FlushAll D ks bp
      | Some f \<Rightarrow> do {
          (r, bp) \<leftarrow> flushLocked D bp f;
          case r of Inl e \<Rightarrow> Some (Inl e, bp) | Inr _ \<Rightarrow> FlushAll D ks bp
        })"

fun sync_files :: "'d diskManager \<Rightarrow> 'd list \<Rightarrow> (err + unit) \<times> 'd list" where
  "sync_files D [] = (Inr (), [])"
| "sync_files D (dm # dms) =
     (let (r, dm) = dmSync D dm in
      case r of
        Inl e \<Rightarrow> (Inl e, dm # dms)
      | Inr _ \<Rightarrow> (let (r, dms) = sync_files D dms in (r, dm # dms)))"

definition bp_Sync :: "'d diskManager \<Rightarrow> 'd BufferPool \<Rightarrow> (err + unit) \<times> 'd BufferPool" where
  "bp_Sync D bp = (let (r, dms) = sync_files D (files bp) in (r, bp\<lparr>files := dms\<rparr>))"

text \<open>A caller's access to the page behind a pointer it holds.\<close>

definition read_frame :: "'d BufferPool \<Rightarrow> frameID \<Rightarrow> page option" where
  "read_frame bp f = idx (frames bp) f"

definition write_frame :: "'d BufferPool \<Rightarrow> frameID \<Rightarrow> page \<Rightarrow> 'd BufferPool" where
  "write_frame bp f b = bp\<lparr>frames := (frames bp)[f := b]\<rparr>"

subsection \<open>The abstract view and the invariant\<close>

definition disk_of :: "('d \<Rightarrow> page list) \<Rightarrow> 'd BufferPool \<Rightarrow> pageKey \<Rightarrow> page" where
  "disk_of pages bp k = pages (files bp ! unat (pk_file k)) ! unat (pk_pid k)"

definition page_of :: "('d \<Rightarrow> page list) \<Rightarrow> 'd BufferPool \<Rightarrow> pageKey \<Rightarrow> page" where
  "page_of pages bp k =
     (case pageTable bp k of Some f \<Rightarrow> frames bp ! f | None \<Rightarrow> disk_of pages bp k)"

definition npages :: "('d \<Rightarrow> page list) \<Rightarrow> 'd BufferPool \<Rightarrow> FileID \<Rightarrow> nat" where
  "npages pages bp file =
     (if unat file < length (files bp) then length (pages (files bp ! unat file)) else 0)"

definition pins :: "'d BufferPool \<Rightarrow> pageKey \<Rightarrow> nat" where
  "pins bp k = (case pageTable bp k of Some f \<Rightarrow> pinCount (meta bp ! f) | None \<Rightarrow> 0)"

definition at_risk :: "('d \<Rightarrow> page list) \<Rightarrow> 'd BufferPool \<Rightarrow> pageKey \<Rightarrow> bool" where
  "at_risk pages bp k =
     (case pageTable bp k of
        Some f \<Rightarrow> \<not> dirty (meta bp ! f) \<and> frames bp ! f \<noteq> disk_of pages bp k
      | None \<Rightarrow> False)"

definition valid_key :: "('d \<Rightarrow> page list) \<Rightarrow> 'd BufferPool \<Rightarrow> pageKey \<Rightarrow> bool" where
  "valid_key pages bp k \<longleftrightarrow> unat (pk_pid k) < npages pages bp (pk_file k)"

text \<open>The frames split into the free ones, those in transit between two owners (\<open>A\<close>), and the
  resident ones; the replacer queues the resident ones that nobody has pinned.\<close>

definition frames_ok :: "frameID set \<Rightarrow> 'd BufferPool \<Rightarrow> bool" where
  "frames_ok A bp \<longleftrightarrow>
     length (meta bp) = length (frames bp) \<and> (\<forall>p \<in> set (frames bp). length p = 8192)
   \<and> lru_inv (replacer bp) \<and> distinct (freeList bp)
   \<and> set (freeList bp) \<union> A \<union> ran (pageTable bp) = {..<length (frames bp)}
   \<and> set (freeList bp) \<inter> A = {} \<and> set (freeList bp) \<inter> ran (pageTable bp) = {}
   \<and> A \<inter> ran (pageTable bp) = {}
   \<and> (\<forall>k f. pageTable bp k = Some f \<longrightarrow> mkey (meta bp ! f) = k)
   \<and> (\<forall>f. f \<in> set (lru_queue (replacer bp)) \<longleftrightarrow>
         f \<in> ran (pageTable bp) \<and> pinCount (meta bp ! f) = 0)"

definition pool_wf :: "('d \<Rightarrow> page list) \<Rightarrow> ('d \<Rightarrow> bool) \<Rightarrow> frameID set \<Rightarrow> 'd BufferPool \<Rightarrow> bool" where
  "pool_wf pages ok A bp \<longleftrightarrow> frames_ok A bp
   \<and> (\<forall>d \<in> set (files bp). ok d)
   \<and> (\<forall>k f. pageTable bp k = Some f \<longrightarrow> valid_key pages bp k)
   \<and> (\<forall>k. pins bp k = 0 \<longrightarrow> \<not> at_risk pages bp k)"

definition pool_inv :: "('d \<Rightarrow> page list) \<Rightarrow> ('d \<Rightarrow> bool) \<Rightarrow> 'd BufferPool \<Rightarrow> bool" where
  "pool_inv pages ok bp = pool_wf pages ok {} bp"

text \<open>Two pools that no caller can tell apart: the same pages with the same bytes, the same pins,
  and every pinned page still in the frame its holders point at.\<close>

definition same_view :: "('d \<Rightarrow> page list) \<Rightarrow> 'd BufferPool \<Rightarrow> 'd BufferPool \<Rightarrow> bool" where
  "same_view pages bp bp' \<longleftrightarrow>
     length (files bp') = length (files bp) \<and> length (frames bp') = length (frames bp)
   \<and> (\<forall>i. npages pages bp' i = npages pages bp i)
   \<and> (\<forall>k. valid_key pages bp k \<longrightarrow> page_of pages bp' k = page_of pages bp k)
   \<and> (\<forall>k. pins bp' k = pins bp k)
   \<and> (\<forall>k. at_risk pages bp' k = at_risk pages bp k)
   \<and> (\<forall>k. 0 < pins bp k \<longrightarrow> pageTable bp' k = pageTable bp k)"

subsection \<open>Basic facts\<close>

lemma frames_okD:
  assumes "frames_ok A bp"
  shows "length (meta bp) = length (frames bp)" "lru_inv (replacer bp)" "distinct (freeList bp)"
    "set (freeList bp) \<union> A \<union> ran (pageTable bp) = {..<length (frames bp)}"
    "set (freeList bp) \<inter> A = {}" "set (freeList bp) \<inter> ran (pageTable bp) = {}"
    "A \<inter> ran (pageTable bp) = {}"
    "f \<in> set (lru_queue (replacer bp)) \<longleftrightarrow> f \<in> ran (pageTable bp) \<and> pinCount (meta bp ! f) = 0"
    "pageTable bp k = Some f \<Longrightarrow> mkey (meta bp ! f) = k"
    "f < length (frames bp) \<Longrightarrow> length (frames bp ! f) = 8192"
  using assms by (auto simp: frames_ok_def)

lemma frames_okI:
  assumes "length (meta bp) = length (frames bp)"
    and "\<And>f. f < length (frames bp) \<Longrightarrow> length (frames bp ! f) = 8192"
    and "lru_inv (replacer bp)" "distinct (freeList bp)"
    and "set (freeList bp) \<union> A \<union> ran (pageTable bp) = {..<length (frames bp)}"
    and "set (freeList bp) \<inter> A = {}" "set (freeList bp) \<inter> ran (pageTable bp) = {}"
    and "A \<inter> ran (pageTable bp) = {}"
    and "\<And>k f. pageTable bp k = Some f \<Longrightarrow> mkey (meta bp ! f) = k"
    and "\<And>f. f \<in> set (lru_queue (replacer bp)) \<longleftrightarrow> f \<in> ran (pageTable bp) \<and> pinCount (meta bp ! f) = 0"
  shows "frames_ok A bp"
  using assms unfolding frames_ok_def by (metis in_set_conv_nth)

lemma resident_frame:
  assumes "frames_ok A bp" "pageTable bp k = Some f"
  shows "f < length (frames bp)" "f \<notin> A" "f \<notin> set (freeList bp)"
  using assms frames_okD(4,6,7)[OF assms(1)] by (auto dest: ranI)

lemma resident_inj:
  assumes "frames_ok A bp" "pageTable bp k = Some f" "pageTable bp k' = Some f"
  shows "k' = k"
  using frames_okD(9)[OF assms(1,2)] frames_okD(9)[OF assms(1,3)] by simp

lemma resident_same:
  assumes "frames_ok A bp" "pageTable bp k = Some f" "pageTable bp k' = Some g"
  shows "g = f \<longleftrightarrow> k' = k"
  using assms resident_inj[of A bp k f k'] by (metis option.inject)

lemma pool_wfD:
  assumes "pool_wf pages ok A bp"
  shows "frames_ok A bp" "d \<in> set (files bp) \<Longrightarrow> ok d"
    "pageTable bp k = Some f \<Longrightarrow> valid_key pages bp k" "pins bp k = 0 \<Longrightarrow> \<not> at_risk pages bp k"
  using assms by (auto simp: pool_wf_def)

lemma valid_keyD:
  assumes "valid_key pages bp k"
  shows "unat (pk_file k) < length (files bp)"
    "unat (pk_pid k) < length (pages (files bp ! unat (pk_file k)))"
  using assms by (auto simp: valid_key_def npages_def split: if_splits)

lemma same_view_refl: "same_view pages bp bp"
  by (simp add: same_view_def)

lemma same_view_trans:
  assumes "same_view pages bp bp1" "same_view pages bp1 bp2"
  shows "same_view pages bp bp2"
  using assms by (auto simp: same_view_def valid_key_def)

lemma same_view_valid: "same_view pages bp bp' \<Longrightarrow> valid_key pages bp' k = valid_key pages bp k"
  by (simp add: same_view_def valid_key_def)

lemma ran_None_resident:
  assumes "frames_ok A bp" "pageTable bp k = Some f"
  shows "ran ((pageTable bp)(k := None)) = ran (pageTable bp) - {f}"
proof (intro set_eqI iffI)
  fix g assume "g \<in> ran ((pageTable bp)(k := None))"
  then obtain k' where k': "k' \<noteq> k" "pageTable bp k' = Some g" by (auto simp: ran_def split: if_splits)
  then have "g \<noteq> f" using resident_inj[OF assms, of k'] by blast
  then show "g \<in> ran (pageTable bp) - {f}" using k'(2) by (auto intro: ranI)
next
  fix g assume "g \<in> ran (pageTable bp) - {f}"
  then obtain k' where "pageTable bp k' = Some g" "g \<noteq> f" by (auto simp: ran_def)
  moreover from this have "k' \<noteq> k" using assms(2) by auto
  ultimately show "g \<in> ran ((pageTable bp)(k := None))" by (intro ranI[of _ k']) simp
qed

subsection \<open>Changing a file under resident pages\<close>

text \<open>The files changed only at the page \<open>k0\<close>.\<close>

definition files_agree :: "('d \<Rightarrow> page list) \<Rightarrow> ('d \<Rightarrow> bool) \<Rightarrow> 'd list \<Rightarrow> 'd list \<Rightarrow> pageKey \<Rightarrow> bool" where
  "files_agree pages ok fs fs' k0 \<longleftrightarrow>
     length fs' = length fs \<and> (\<forall>d \<in> set fs'. ok d)
   \<and> (\<forall>i < length fs. length (pages (fs' ! i)) = length (pages (fs ! i)))
   \<and> (\<forall>k. k \<noteq> k0 \<longrightarrow> unat (pk_file k) < length fs \<longrightarrow>
        pages (fs' ! unat (pk_file k)) ! unat (pk_pid k) = pages (fs ! unat (pk_file k)) ! unat (pk_pid k))"

lemma files_agree_update:
  assumes "\<forall>d \<in> set fs. ok d" "ok d'" "unat file < length fs"
    and "pages d' = (pages (fs ! unat file))[unat pid := x]"
  shows "files_agree pages ok fs (fs[unat file := d']) (PageKey file pid)"
proof -
  have "pages (fs[unat file := d'] ! unat (pk_file k)) ! unat (pk_pid k) =
      pages (fs ! unat (pk_file k)) ! unat (pk_pid k)" if "k \<noteq> PageKey file pid" for k
  proof (cases "unat (pk_file k) = unat file")
    case True
    then have "unat (pk_pid k) \<noteq> unat pid"
      using that by (metis pageKey.collapse word_unat_eq_iff)
    then show ?thesis using True assms(3,4) by simp
  qed simp
  then show ?thesis
    using assms by (auto simp: files_agree_def nth_list_update set_update_subset_insert
        dest!: set_update_subset_insert[THEN subsetD])
qed

lemma files_agree_same:
  assumes "\<forall>d \<in> set fs. ok d" "ok d'" "unat file < length fs" "pages d' = pages (fs ! unat file)"
  shows "files_agree pages ok fs (fs[unat file := d']) k0"
    "\<And>i. i < length fs \<Longrightarrow> pages (fs[unat file := d'] ! i) = pages (fs ! i)"
proof -
  show eq: "pages (fs[unat file := d'] ! i) = pages (fs ! i)" if "i < length fs" for i
    using assms(3,4) that by (cases "i = unat file") auto
  show "files_agree pages ok fs (fs[unat file := d']) k0"
    using assms eq by (auto simp: files_agree_def dest!: set_update_subset_insert[THEN subsetD])
qed

lemma files_agree_npages:
  assumes "files_agree pages ok (files bp) fs' k0"
  shows "npages pages (bp\<lparr>files := fs'\<rparr>) i = npages pages bp i"
    "valid_key pages (bp\<lparr>files := fs'\<rparr>) k = valid_key pages bp k"
  using assms by (auto simp: npages_def valid_key_def files_agree_def)

lemma files_agree_disk_of:
  assumes "files_agree pages ok (files bp) fs' k0" "valid_key pages bp k" "k \<noteq> k0"
  shows "disk_of pages (bp\<lparr>files := fs'\<rparr>) k = disk_of pages bp k"
  using assms valid_keyD(1)[OF assms(2)] by (simp add: disk_of_def files_agree_def)

text \<open>A write to the disk copy of a dirty resident page changes nothing a caller can see.\<close>

lemma rewrite_dirty:
  assumes wf: "pool_wf pages ok A bp" and agree: "files_agree pages ok (files bp) fs' k0"
    and res: "pageTable bp k0 = Some f0" "dirty (meta bp ! f0)"
  shows "pool_wf pages ok A (bp\<lparr>files := fs'\<rparr>)" "same_view pages bp (bp\<lparr>files := fs'\<rparr>)"
proof -
  let ?bp = "bp\<lparr>files := fs'\<rparr>"
  have risk: "at_risk pages ?bp k = at_risk pages bp k" for k
  proof (cases "pageTable bp k")
    case (Some f)
    then have "valid_key pages bp k" by (rule pool_wfD(3)[OF wf])
    then show ?thesis
      using Some res files_agree_disk_of[OF agree, of k] by (cases "k = k0") (auto simp: at_risk_def)
  qed (simp add: at_risk_def)
  have pin: "pins ?bp k = pins bp k" for k by (simp add: pins_def split: option.split)
  have "page_of pages ?bp k = page_of pages bp k" if "valid_key pages bp k" for k
    using that res files_agree_disk_of[OF agree that] by (cases "k = k0") (auto simp: page_of_def split: option.splits)
  then show "same_view pages bp ?bp"
    using agree risk pin files_agree_npages[OF agree] by (auto simp: same_view_def files_agree_def)
  have "frames_ok A ?bp" using pool_wfD(1)[OF wf] by (simp add: frames_ok_def)
  then show "pool_wf pages ok A ?bp"
    using wf agree files_agree_npages[OF agree] risk pin by (auto simp: pool_wf_def files_agree_def)
qed

subsection \<open>Taking a frame\<close>

text \<open>Dropping an unpinned page whose bytes are on disk.\<close>

lemma evict:
  assumes wf: "pool_wf pages ok A bp" and agree: "files_agree pages ok (files bp) fs' k0"
    and res: "pageTable bp k0 = Some v" "pinCount (meta bp ! v) = 0"
    and disk: "pages (fs' ! unat (pk_file k0)) ! unat (pk_pid k0) = frames bp ! v"
    and r: "lru_inv r" "set (lru_queue r) = set (lru_queue (replacer bp)) - {v}"
  defines "bp' \<equiv> bp\<lparr>files := fs', replacer := r, pageTable := (pageTable bp)(k0 := None)\<rparr>"
  shows "pool_wf pages ok (insert v A) bp'" "same_view pages bp bp'"
proof -
  note fok = pool_wfD(1)[OF wf]
  have ran: "ran (pageTable bp') = ran (pageTable bp) - {v}"
    using ran_None_resident[OF fok res(1)] by (simp add: bp'_def)
  have v: "v \<in> ran (pageTable bp)" using res(1) by (auto intro: ranI)
  have "frames_ok (insert v A) bp'"
    using fok r v unfolding frames_ok_def ran by (auto simp: bp'_def)
  moreover have np: "npages pages bp' i = npages pages bp i" for i
    using agree by (auto simp: bp'_def npages_def files_agree_def)
  moreover have disk': "disk_of pages bp' k = (if k = k0 then frames bp ! v else disk_of pages bp k)"
    if "valid_key pages bp k" for k
    using files_agree_disk_of[OF agree that] disk by (simp add: bp'_def disk_of_def)
  have norisk: "\<not> at_risk pages bp k0"
    by (rule pool_wfD(4)[OF wf]) (simp add: pins_def res)
  have pin: "pins bp' k = pins bp k" for k
    using res by (simp add: bp'_def pins_def split: option.split)
  have risk: "at_risk pages bp' k = at_risk pages bp k" for k
  proof (cases "k = k0 \<or> pageTable bp k = None")
    case True
    then show ?thesis using norisk by (auto simp: at_risk_def bp'_def)
  next
    case False
    then obtain f where f: "pageTable bp k = Some f" "k \<noteq> k0" by auto
    then show ?thesis
      using disk'[OF pool_wfD(3)[OF wf f(1)]] by (simp add: at_risk_def bp'_def)
  qed
  ultimately show "pool_wf pages ok (insert v A) bp'"
    using wf agree pin
    by (auto simp: pool_wf_def valid_key_def files_agree_def) (auto simp: bp'_def split: if_splits)
  have "page_of pages bp' k = page_of pages bp k" if k: "valid_key pages bp k" for k
    using disk'[OF k] res(1) by (auto simp: page_of_def bp'_def split: option.split)
  moreover have "pageTable bp' k = pageTable bp k" if "0 < pins bp k" for k
    using that res by (auto simp: bp'_def pins_def)
  ultimately show "same_view pages bp bp'"
    using np pin risk agree by (auto simp: same_view_def files_agree_def) (auto simp: bp'_def files_agree_def)
qed

lemma take_free:
  assumes wf: "pool_wf pages ok A bp" and free: "freeList bp \<noteq> []"
  defines "bp' \<equiv> bp\<lparr>freeList := butlast (freeList bp)\<rparr>"
  shows "pool_wf pages ok (insert (last (freeList bp)) A) bp'" "same_view pages bp bp'"
proof -
  note fok = pool_wfD(1)[OF wf]
  have fl: "freeList bp = butlast (freeList bp) @ [last (freeList bp)]" using free by simp
  then have "set (freeList bp) = insert (last (freeList bp)) (set (butlast (freeList bp)))"
    "distinct (butlast (freeList bp))" "last (freeList bp) \<notin> set (butlast (freeList bp))"
    using frames_okD(3)[OF fok] by (metis list.simps(15) rotate1.simps(2) set_rotate1,
        simp add: distinct_butlast, metis distinct_append disjoint_iff list.set_intros(1))
  then have "frames_ok (insert (last (freeList bp)) A) bp'"
    using fok unfolding frames_ok_def by (auto simp: bp'_def)
  moreover have np: "npages pages bp' = npages pages bp" "disk_of pages bp' = disk_of pages bp"
    "page_of pages bp' = page_of pages bp" "pins bp' = pins bp" "at_risk pages bp' = at_risk pages bp"
    by (auto simp: fun_eq_iff bp'_def npages_def disk_of_def page_of_def pins_def at_risk_def split: option.split)
  ultimately show "pool_wf pages ok (insert (last (freeList bp)) A) bp'"
    using wf by (auto simp: pool_wf_def valid_key_def bp'_def)
  show "same_view pages bp bp'" using np by (simp add: same_view_def) (simp add: bp'_def)
qed

lemma use_replacer:
  assumes wf: "pool_wf pages ok A bp" and r: "lru_inv r" "set (lru_queue r) = set (lru_queue (replacer bp))"
  shows "pool_wf pages ok A (bp\<lparr>replacer := r\<rparr>)" "same_view pages bp (bp\<lparr>replacer := r\<rparr>)"
proof -
  let ?bp = "bp\<lparr>replacer := r\<rparr>"
  have eqs: "npages pages ?bp = npages pages bp" "disk_of pages ?bp = disk_of pages bp"
    "page_of pages ?bp = page_of pages bp" "pins ?bp = pins bp" "at_risk pages ?bp = at_risk pages bp"
    by (auto simp: fun_eq_iff npages_def disk_of_def page_of_def pins_def at_risk_def split: option.split)
  have "frames_ok A ?bp" using pool_wfD(1)[OF wf] r by (auto simp: frames_ok_def)
  then show "pool_wf pages ok A ?bp" using wf eqs by (auto simp: pool_wf_def valid_key_def)
  show "same_view pages bp ?bp" using eqs by (simp add: same_view_def)
qed

text \<open>What a caller can see of a step: the page counts, the bytes, the pins and the risks after it,
  the frames of the pages that stay pinned being kept.\<close>

definition moves :: "('d \<Rightarrow> page list) \<Rightarrow> 'd BufferPool \<Rightarrow> 'd BufferPool \<Rightarrow> (FileID \<Rightarrow> nat) \<Rightarrow>
    (pageKey \<Rightarrow> page) \<Rightarrow> (pageKey \<Rightarrow> nat) \<Rightarrow> (pageKey \<Rightarrow> bool) \<Rightarrow> bool" where
  "moves pages bp bp' N C P R \<longleftrightarrow>
     length (files bp') = length (files bp) \<and> length (frames bp') = length (frames bp)
   \<and> npages pages bp' = N
   \<and> (\<forall>k. unat (pk_pid k) < N (pk_file k) \<longrightarrow> page_of pages bp' k = C k)
   \<and> pins bp' = P \<and> at_risk pages bp' = R
   \<and> (\<forall>k. 0 < pins bp k \<and> 0 < P k \<longrightarrow> pageTable bp' k = pageTable bp k)"

lemma same_view_moves:
  "same_view pages bp bp' \<longleftrightarrow>
     moves pages bp bp' (npages pages bp) (page_of pages bp) (pins bp) (at_risk pages bp)"
  by (auto simp: same_view_def moves_def fun_eq_iff valid_key_def)

lemma moves_after_same:
  assumes "same_view pages bp bp1" "moves pages bp1 bp2 N C P R"
  shows "moves pages bp bp2 N C P R"
  using assms by (auto simp: same_view_def moves_def)

lemma same_view_eqs:
  assumes "same_view pages bp bp'"
  shows "npages pages bp' = npages pages bp" "pins bp' = pins bp" "at_risk pages bp' = at_risk pages bp"
    "length (files bp') = length (files bp)" "length (frames bp') = length (frames bp)"
  using assms by (auto simp: same_view_def)

text \<open>The contents only matter at the pages that exist.\<close>

lemma moves_content:
  assumes "moves pages bp bp' N C P R" "\<And>k. unat (pk_pid k) < N (pk_file k) \<Longrightarrow> C' k = C k"
  shows "moves pages bp bp' N C' P R"
  using assms by (simp add: moves_def)

lemma moves_frame:
  assumes "moves pages bp bp' N C P R" "unat (pk_pid k) < N (pk_file k)" "pageTable bp' k = Some f"
  shows "frames bp' ! f = C k"
proof -
  have "page_of pages bp' k = C k" using assms(1,2) by (simp add: moves_def)
  then show ?thesis using assms(3) by (simp add: page_of_def)
qed

lemma moves_via_same:
  assumes sv: "same_view pages bp bp1"
    and mv: "moves pages bp1 bp2 (npages pages bp1) (page_of pages bp1) ((pins bp1)(k := n)) (at_risk pages bp1)"
  shows "moves pages bp bp2 (npages pages bp) (page_of pages bp) ((pins bp)(k := n)) (at_risk pages bp)"
proof -
  note mv' = moves_after_same[OF sv mv, unfolded same_view_eqs(1-3)[OF sv]]
  show ?thesis
    by (rule moves_content[OF mv']) (use sv in \<open>simp add: same_view_def valid_key_def\<close>)
qed

lemma grow_via_same:
  assumes sv: "same_view pages bp bp1"
    and mv: "moves pages bp1 bp2 ((npages pages bp1)(file := Suc (unat pid)))
      ((page_of pages bp1)(PageKey file pid := x)) ((pins bp1)(PageKey file pid := n)) (at_risk pages bp1)"
    and pid: "unat pid = npages pages bp1 file"
  shows "moves pages bp bp2 ((npages pages bp)(file := Suc (unat pid)))
      ((page_of pages bp)(PageKey file pid := x)) ((pins bp)(PageKey file pid := n)) (at_risk pages bp)"
proof (rule moves_content[OF moves_after_same[OF sv mv, unfolded same_view_eqs(1-3)[OF sv]]])
  fix k assume k: "unat (pk_pid k) < ((npages pages bp)(file := Suc (unat pid))) (pk_file k)"
  show "((page_of pages bp)(PageKey file pid := x)) k = ((page_of pages bp1)(PageKey file pid := x)) k"
  proof (cases "k = PageKey file pid")
    case False
    have "valid_key pages bp k"
    proof (cases "pk_file k = file")
      case True
      then have "unat (pk_pid k) \<noteq> unat pid" using False by (metis pageKey.collapse word_unat_eq_iff)
      then show ?thesis using True k pid same_view_eqs(1)[OF sv] by (simp add: valid_key_def)
    qed (use k in \<open>simp add: valid_key_def\<close>)
    then show ?thesis using False sv by (simp add: same_view_def)
  qed simp
qed

subsection \<open>The parts of a load\<close>

text \<open>A read leaves every file's pages alone.\<close>

lemma files_same:
  assumes wf: "pool_wf pages ok A bp" and fs': "length fs' = length (files bp)" "\<forall>d \<in> set fs'. ok d"
    "\<And>i. i < length (files bp) \<Longrightarrow> pages (fs' ! i) = pages (files bp ! i)"
  shows "pool_wf pages ok A (bp\<lparr>files := fs'\<rparr>)" "same_view pages bp (bp\<lparr>files := fs'\<rparr>)"
proof -
  let ?bp = "bp\<lparr>files := fs'\<rparr>"
  have np: "npages pages ?bp = npages pages bp" using fs' by (auto simp: npages_def)
  have disk: "disk_of pages ?bp k = disk_of pages bp k" if "valid_key pages bp k" for k
    using valid_keyD(1)[OF that] fs'(3) by (simp add: disk_of_def)
  have risk: "at_risk pages ?bp k = at_risk pages bp k" for k
    using disk[OF pool_wfD(3)[OF wf]] by (simp add: at_risk_def split: option.split)
  have pin: "pins ?bp = pins bp" by (simp add: pins_def fun_eq_iff split: option.split)
  have "frames_ok A ?bp" using pool_wfD(1)[OF wf] by (simp add: frames_ok_def)
  then show "pool_wf pages ok A ?bp" using wf fs' np risk pin by (simp add: pool_wf_def valid_key_def)
  show "same_view pages bp ?bp"
    using fs' np risk pin disk by (auto simp: same_view_def page_of_def split: option.split)
qed

lemma file_same:
  assumes wf: "pool_wf pages ok A bp" and d: "pages d = pages (files bp ! i)" "ok d" "i < length (files bp)"
  shows "pool_wf pages ok A (bp\<lparr>files := (files bp)[i := d]\<rparr>)" "same_view pages bp (bp\<lparr>files := (files bp)[i := d]\<rparr>)"
proof -
  have "length ((files bp)[i := d]) = length (files bp)" "\<forall>x \<in> set ((files bp)[i := d]). ok x"
    "\<And>j. j < length (files bp) \<Longrightarrow> pages ((files bp)[i := d] ! j) = pages (files bp ! j)"
    using d pool_wfD(2)[OF wf] by (auto simp: nth_list_update dest!: set_update_subset_insert[THEN subsetD])
  from files_same[OF wf this] show "pool_wf pages ok A (bp\<lparr>files := (files bp)[i := d]\<rparr>)"
    "same_view pages bp (bp\<lparr>files := (files bp)[i := d]\<rparr>)" by blast+
qed

text \<open>An allocation appends one page to one file.\<close>

lemma files_grown:
  assumes wf: "pool_wf pages ok A bp" and i: "unat file < length (files bp)" "ok d'"
    and d': "pages d' = pages (files bp ! unat file) @ [x]" and pid: "unat pid = npages pages bp file"
  defines "bp' \<equiv> bp\<lparr>files := (files bp)[unat file := d']\<rparr>" and "k0 \<equiv> PageKey file pid"
  shows "pool_wf pages ok A bp'" "disk_of pages bp' k0 = x" "pageTable bp k0 = None"
    "moves pages bp bp' ((npages pages bp)(file := Suc (unat pid))) ((page_of pages bp)(k0 := x))
      (pins bp) (at_risk pages bp)"
proof -
  have np: "npages pages bp' = (npages pages bp)(file := Suc (unat pid))"
  proof
    fix f
    show "npages pages bp' f = ((npages pages bp)(file := Suc (unat pid))) f"
    proof (cases "unat f = unat file")
      case False
      then show ?thesis by (auto simp: npages_def bp'_def)
    qed (use i d' pid in \<open>auto simp: npages_def bp'_def word_unat_eq_iff\<close>)
  qed
  have disk: "disk_of pages bp' k = disk_of pages bp k" if "valid_key pages bp k" for k
    using valid_keyD[OF that] i(1) d' by (cases "unat (pk_file k) = unat file")
      (auto simp: disk_of_def bp'_def nth_append)
  show new: "disk_of pages bp' k0 = x"
    using i d' pid by (simp add: disk_of_def bp'_def k0_def npages_def nth_append)
  have "\<not> valid_key pages bp k0" using pid by (simp add: valid_key_def k0_def)
  then show none: "pageTable bp k0 = None" using pool_wfD(3)[OF wf] by (cases "pageTable bp k0") auto
  have risk: "at_risk pages bp' k = at_risk pages bp k" for k
    using disk[OF pool_wfD(3)[OF wf]] by (simp add: at_risk_def split: option.split) (simp add: bp'_def)
  have pin: "pins bp' = pins bp" by (simp add: pins_def bp'_def fun_eq_iff split: option.split)
  have "valid_key pages bp' k" if "valid_key pages bp k" for k
    using that pid by (auto simp: valid_key_def np)
  moreover have "frames_ok A bp'" using pool_wfD(1)[OF wf] by (simp add: frames_ok_def bp'_def)
  moreover have "\<forall>d \<in> set (files bp'). ok d"
    using pool_wfD(2)[OF wf] i(2) by (auto simp: bp'_def dest!: set_update_subset_insert[THEN subsetD])
  ultimately show "pool_wf pages ok A bp'"
    using pool_wfD(3,4)[OF wf] risk pin by (auto simp: pool_wf_def) (auto simp: bp'_def)
  have content: "page_of pages bp' k = (if k = k0 then x else page_of pages bp k)"
    if k: "unat (pk_pid k) < npages pages bp' (pk_file k)" for k
  proof (cases "valid_key pages bp k")
    case True
    then have "k \<noteq> k0" using \<open>\<not> valid_key pages bp k0\<close> by blast
    then show ?thesis using disk[OF True] by (simp add: page_of_def split: option.split) (simp add: bp'_def)
  next
    case False
    then have "pk_file k = file" using k by (auto simp: np valid_key_def split: if_splits)
    moreover from this have "unat (pk_pid k) = unat pid" using False k pid by (simp add: np valid_key_def)
    ultimately have "k = k0" by (cases k) (simp add: k0_def word_unat_eq_iff)
    then show ?thesis using none new by (simp add: page_of_def) (simp add: bp'_def)
  qed
  show "moves pages bp bp' ((npages pages bp)(file := Suc (unat pid))) ((page_of pages bp)(k0 := x))
      (pins bp) (at_risk pages bp)"
    using np content risk pin by (auto simp: moves_def) (auto simp: bp'_def)
qed

text \<open>Installing the disk's bytes of a page into a frame in transit.\<close>

lemma bind_loaded:
  assumes wf: "pool_wf pages ok (insert f A) bp" and fA: "f \<notin> A" and k: "pageTable bp k = None"
    "valid_key pages bp k" and b: "b = disk_of pages bp k" "length b = 8192"
  defines "bp' \<equiv> bindFrame (bp\<lparr>frames := (frames bp)[f := b]\<rparr>) f k"
  shows "pool_wf pages ok A bp'" "pageTable bp' k = Some f" "files bp' = files bp"
    "moves pages bp bp' (npages pages bp) (page_of pages bp) ((pins bp)(k := 1)) (at_risk pages bp)"
proof -
  note fok = pool_wfD(1)[OF wf]
  have f: "f < length (frames bp)" "f \<notin> ran (pageTable bp)" "f \<notin> set (freeList bp)"
    using frames_okD(4-7)[OF fok] by auto
  then have fm: "f < length (meta bp)" using frames_okD(1)[OF fok] by simp
  have sel: "files bp' = files bp" "frames bp' = (frames bp)[f := b]" "freeList bp' = freeList bp"
    "meta bp' = (meta bp)[f := \<lparr>mkey = k, pinCount = 1, dirty = False\<rparr>]" "replacer bp' = replacer bp"
    "pageTable bp' = (pageTable bp)(k \<mapsto> f)" by (simp_all add: bp'_def bindFrame_def)
  show "pageTable bp' k = Some f" "files bp' = files bp" by (simp_all add: sel)
  have other: "g \<noteq> f" if "pageTable bp k' = Some g" for k' g using that f(2) by (auto intro: ranI)
  have np: "npages pages bp' = npages pages bp" "disk_of pages bp' = disk_of pages bp"
    by (auto simp: npages_def disk_of_def sel)
  have at: "page_of pages bp' k' = page_of pages bp k'" "at_risk pages bp' k' = at_risk pages bp k'"
    "pins bp' k' = ((pins bp)(k := 1)) k'" for k'
    using k(1) b f(1) fm other[of k'] np
    by (auto simp: page_of_def at_risk_def pins_def sel split: option.split)
  have ran: "ran (pageTable bp') = insert f (ran (pageTable bp))" using k(1) by (simp add: sel)
  have lq: "g \<in> set (lru_queue (replacer bp')) \<longleftrightarrow> g \<in> ran (pageTable bp') \<and> pinCount (meta bp' ! g) = 0" for g
    using frames_okD(8)[OF fok, of g] f(2) fm unfolding ran by (cases "g = f") (auto simp: sel)
  have key: "mkey (meta bp' ! g) = k'" if "pageTable bp' k' = Some g" for k' g
    using that frames_okD(9)[OF fok] other[of k'] fm by (auto simp: sel split: if_splits)
  have "frames_ok A bp'"
    by (rule frames_okI)
      (use lq key frames_okD(1-7,10)[OF fok] f fA b(2) k(1) in \<open>auto simp: sel nth_list_update\<close>)
  then show "pool_wf pages ok A bp'"
    using wf k(2) at np unfolding pool_wf_def valid_key_def np
    by (auto simp: sel split: if_splits)
  show "moves pages bp bp' (npages pages bp) (page_of pages bp) ((pins bp)(k := 1)) (at_risk pages bp)"
    using at np k(1) by (auto simp: moves_def fun_eq_iff) (auto simp: sel pins_def)
qed

text \<open>Giving a frame in transit back to the free list, whatever its bytes have become.\<close>

lemma release_frame:
  assumes wf: "pool_wf pages ok (insert f A) bp" and fA: "f \<notin> A" and b: "length b = 8192"
  defines "bp' \<equiv> bp\<lparr>frames := (frames bp)[f := b], freeList := freeList bp @ [f]\<rparr>"
  shows "pool_wf pages ok A bp'" "same_view pages bp bp'"
proof -
  note fok = pool_wfD(1)[OF wf]
  have f: "f < length (frames bp)" "f \<notin> ran (pageTable bp)" "f \<notin> set (freeList bp)"
    using frames_okD(4-7)[OF fok] by auto
  have other: "g \<noteq> f" if "pageTable bp k' = Some g" for k' g using that f(2) by (auto intro: ranI)
  have np: "npages pages bp' = npages pages bp" "disk_of pages bp' = disk_of pages bp"
    by (auto simp: npages_def disk_of_def bp'_def)
  have at: "page_of pages bp' k = page_of pages bp k" "at_risk pages bp' k = at_risk pages bp k"
    "pins bp' k = pins bp k" for k
    using other[of k] np by (auto simp: page_of_def at_risk_def pins_def bp'_def split: option.split)
  have "frames_ok A bp'"
    by (rule frames_okI)
      (use frames_okD(1-7,10)[OF fok] frames_okD(8,9)[OF fok] f fA b in
        \<open>auto simp: bp'_def nth_list_update\<close>)
  then show "pool_wf pages ok A bp'"
    using wf at np unfolding pool_wf_def valid_key_def np by (auto simp: bp'_def)
  show "same_view pages bp bp'" using at np by (auto simp: same_view_def) (auto simp: bp'_def)
qed

lemma swap_meta_updates: "m\<lparr>dirty := d, pinCount := n\<rparr> = m\<lparr>pinCount := n, dirty := d\<rparr>" for m :: frameMeta
  by simp

text \<open>Changing the pin count of a resident page, the dirty flag being merged.\<close>

lemma repin:
  assumes wf: "pool_wf pages ok A bp" and res: "pageTable bp k = Some f"
    and d: "dirty (meta bp ! f) \<longrightarrow> d" and risk: "n = 0 \<Longrightarrow> d \<or> \<not> at_risk pages bp k"
    and r: "lru_inv r" "set (lru_queue r) =
      (if n = 0 then insert f (set (lru_queue (replacer bp))) else set (lru_queue (replacer bp)) - {f})"
  defines "bp' \<equiv> bp\<lparr>meta := (meta bp)[f := (meta bp ! f)\<lparr>pinCount := n, dirty := d\<rparr>], replacer := r\<rparr>"
  shows "pool_wf pages ok A bp'"
    "moves pages bp bp' (npages pages bp) (page_of pages bp) ((pins bp)(k := n))
       ((at_risk pages bp)(k := at_risk pages bp k \<and> \<not> d))"
proof -
  note fok = pool_wfD(1)[OF wf]
  have f: "f < length (meta bp)" using resident_frame(1)[OF fok res] frames_okD(1)[OF fok] by simp
  have np: "npages pages bp' = npages pages bp" "disk_of pages bp' = disk_of pages bp"
    "page_of pages bp' = page_of pages bp"
    by (auto simp: npages_def disk_of_def page_of_def bp'_def fun_eq_iff split: option.split)
  note same = resident_same[OF fok res]
  have at: "pins bp' k' = ((pins bp)(k := n)) k' \<and>
      at_risk pages bp' k' = ((at_risk pages bp)(k := at_risk pages bp k \<and> \<not> d)) k'" for k'
  proof (cases "pageTable bp k'")
    case (Some g)
    then show ?thesis using same[OF Some] f res d np(2)
      by (cases "k' = k") (auto simp: pins_def at_risk_def bp'_def)
  qed (use res in \<open>auto simp: pins_def at_risk_def bp'_def\<close>)
  then have pin: "pins bp' = (pins bp)(k := n)"
    and rk: "at_risk pages bp' = (at_risk pages bp)(k := at_risk pages bp k \<and> \<not> d)" by auto
  have "f \<in> ran (pageTable bp)" using res by (rule ranI)
  then have "frames_ok A bp'"
    by (intro frames_okI)
      (use frames_okD(1-7,10)[OF fok] frames_okD(8,9)[OF fok] r f in
        \<open>auto simp: bp'_def nth_list_update\<close>)
  then show "pool_wf pages ok A bp'"
    using wf risk unfolding pool_wf_def valid_key_def np pin rk by (auto simp: bp'_def)
  show "moves pages bp bp' (npages pages bp) (page_of pages bp) ((pins bp)(k := n))
      ((at_risk pages bp)(k := at_risk pages bp k \<and> \<not> d))"
    using np pin rk by (simp add: moves_def) (simp add: bp'_def)
qed

text \<open>A caller's write through a pointer to a pinned page.\<close>

lemma write_pinned:
  assumes wf: "pool_wf pages ok A bp" and res: "pageTable bp k = Some f" "0 < pins bp k"
    and b: "length b = 8192"
  shows "pool_wf pages ok A (write_frame bp f b)"
    "moves pages bp (write_frame bp f b) (npages pages bp) ((page_of pages bp)(k := b)) (pins bp)
       ((at_risk pages bp)(k := at_risk pages (write_frame bp f b) k))"
proof -
  let ?bp = "write_frame bp f b"
  note fok = pool_wfD(1)[OF wf]
  have f: "f < length (frames bp)" by (rule resident_frame(1)[OF fok res(1)])
  have np: "npages pages ?bp = npages pages bp" "disk_of pages ?bp = disk_of pages bp" "pins ?bp = pins bp"
    by (auto simp: npages_def disk_of_def pins_def write_frame_def fun_eq_iff split: option.split)
  note same = resident_same[OF fok res(1)]
  have at: "page_of pages ?bp k' = ((page_of pages bp)(k := b)) k' \<and>
      (k' \<noteq> k \<longrightarrow> at_risk pages ?bp k' = at_risk pages bp k')" for k'
  proof (cases "pageTable bp k'")
    case (Some g)
    then show ?thesis using same[OF Some] f res np(2)
      by (cases "k' = k") (auto simp: page_of_def at_risk_def write_frame_def)
  qed (use res np(2) in \<open>auto simp: page_of_def at_risk_def write_frame_def\<close>)
  then have pg: "page_of pages ?bp k' = ((page_of pages bp)(k := b)) k'" for k' by blast
  have rk: "at_risk pages ?bp k' = at_risk pages bp k'" if "k' \<noteq> k" for k' using at that by blast
  have "frames_ok A ?bp"
    by (rule frames_okI)
      (use frames_okD(1-7,10)[OF fok] frames_okD(8,9)[OF fok] b f in
        \<open>auto simp: write_frame_def nth_list_update\<close>)
  moreover have "\<not> at_risk pages ?bp k'" if "pins bp k' = 0" for k'
    using that res(2) rk[of k'] pool_wfD(4)[OF wf, of k'] by (cases "k' = k") auto
  ultimately show "pool_wf pages ok A ?bp"
    using wf unfolding pool_wf_def valid_key_def np by (auto simp: write_frame_def)
  show "moves pages bp ?bp (npages pages bp) ((page_of pages bp)(k := b)) (pins bp)
      ((at_risk pages bp)(k := at_risk pages ?bp k))"
    using np pg rk by (auto simp: moves_def fun_eq_iff) (auto simp: write_frame_def)
qed

text \<open>Clearing the dirty flag of a page whose bytes have just reached its file.\<close>

lemma mark_clean:
  assumes wf: "pool_wf pages ok A bp" and res: "pageTable bp k = Some f"
    and disk: "disk_of pages bp k = frames bp ! f"
  defines "bp' \<equiv> bp\<lparr>meta := (meta bp)[f := (meta bp ! f)\<lparr>dirty := False\<rparr>]\<rparr>"
  shows "pool_wf pages ok A bp'" "same_view pages bp bp'"
proof -
  note fok = pool_wfD(1)[OF wf]
  have f: "f < length (meta bp)" using resident_frame(1)[OF fok res] frames_okD(1)[OF fok] by simp
  have np: "npages pages bp' = npages pages bp" "disk_of pages bp' = disk_of pages bp"
    "page_of pages bp' = page_of pages bp"
    by (auto simp: npages_def disk_of_def page_of_def bp'_def fun_eq_iff split: option.split)
  note same = resident_same[OF fok res]
  have at: "pins bp' k' = pins bp k' \<and> at_risk pages bp' k' = at_risk pages bp k'" for k'
  proof (cases "pageTable bp k'")
    case (Some g)
    then show ?thesis using same[OF Some] f res disk np(2)
      by (cases "k' = k") (auto simp: pins_def at_risk_def bp'_def)
  qed (auto simp: pins_def at_risk_def bp'_def)
  then have pin: "pins bp' = pins bp" and rk: "at_risk pages bp' = at_risk pages bp" by auto
  have "frames_ok A bp'"
    by (rule frames_okI)
      (use frames_okD(1-7,10)[OF fok] frames_okD(8,9)[OF fok] f in
        \<open>auto simp: bp'_def nth_list_update\<close>)
  then show "pool_wf pages ok A bp'"
    using wf unfolding pool_wf_def valid_key_def np pin rk by (auto simp: bp'_def)
  show "same_view pages bp bp'" using np pin rk by (simp add: same_view_def) (simp add: bp'_def)
qed

text \<open>No failure is pending on any file.\<close>

definition all_quiet :: "('d \<Rightarrow> bool) \<Rightarrow> 'd BufferPool \<Rightarrow> bool" where
  "all_quiet quiet bp \<longleftrightarrow> (\<forall>d \<in> set (files bp). quiet d)"

lemma all_quiet_update:
  "all_quiet quiet bp \<Longrightarrow> quiet d \<Longrightarrow> all_quiet quiet (bp\<lparr>files := (files bp)[i := d]\<rparr>)"
  by (auto simp: all_quiet_def dest!: set_update_subset_insert[THEN subsetD])

context page_store
begin

text \<open>The victim the replacer names is resident, unpinned, and its bytes are safe.\<close>

lemma victim_resident:
  assumes wf: "pool_wf pages ok A bp" and q: "lru_queue (replacer bp) \<noteq> []"
  defines "v \<equiv> last (lru_queue (replacer bp))"
  shows "pageTable bp (mkey (meta bp ! v)) = Some v" "pinCount (meta bp ! v) = 0"
    "v < length (frames bp)" "v < length (meta bp)" "length (frames bp ! v) = 8192"
    "valid_key pages bp (mkey (meta bp ! v))"
    "\<not> dirty (meta bp ! v) \<Longrightarrow> frames bp ! v = disk_of pages bp (mkey (meta bp ! v))"
proof -
  note fok = pool_wfD(1)[OF wf]
  have "v \<in> set (lru_queue (replacer bp))" using q by (simp add: v_def)
  then have "v \<in> ran (pageTable bp)" and pin: "pinCount (meta bp ! v) = 0"
    using frames_okD(8)[OF fok, of v] by auto
  then obtain k where "pageTable bp k = Some v" by (auto simp: ran_def)
  with frames_okD(9)[OF fok this] show res: "pageTable bp (mkey (meta bp ! v)) = Some v" by simp
  show "pinCount (meta bp ! v) = 0" by (rule pin)
  show lt: "v < length (frames bp)" by (rule resident_frame(1)[OF fok res])
  then show "v < length (meta bp)" "length (frames bp ! v) = 8192"
    using frames_okD(1)[OF fok] frames_okD(10)[OF fok] by auto
  show "valid_key pages bp (mkey (meta bp ! v))" by (rule pool_wfD(3)[OF wf res])
  have "\<not> at_risk pages bp (mkey (meta bp ! v))"
    by (rule pool_wfD(4)[OF wf]) (simp add: pins_def res pin)
  then show "\<not> dirty (meta bp ! v) \<Longrightarrow> frames bp ! v = disk_of pages bp (mkey (meta bp ! v))"
    by (simp add: at_risk_def res)
qed

lemma acquireFrame_clean:
  assumes wf: "pool_wf pages ok A bp" and q: "lru_queue (replacer bp) \<noteq> []"
    and fs': "files_agree pages ok (files bp) fs' k0"
    and r: "lru_inv r" "lru_queue r = butlast (lru_queue (replacer bp))"
  defines "v \<equiv> last (lru_queue (replacer bp))"
  assumes k0: "k0 = mkey (meta bp ! v)"
    and disk: "pages (fs' ! unat (pk_file k0)) ! unat (pk_pid k0) = frames bp ! v"
  defines "bp' \<equiv> bp\<lparr>files := fs', replacer := r, pageTable := (pageTable bp)(k0 := None)\<rparr>"
  shows "pool_wf pages ok (insert v A) bp'" "same_view pages bp bp'"
proof -
  note vr = victim_resident[OF wf q, folded v_def]
  have "distinct (lru_queue (replacer bp))"
    using frames_okD(2)[OF pool_wfD(1)[OF wf]] by (rule lru.queue_distinct)
  then have "set (butlast (lru_queue (replacer bp))) = set (lru_queue (replacer bp)) - {v}"
    using q unfolding v_def
    by (metis Diff_insert_absorb append_butlast_last_id distinct_append disjoint_insert(2)
        list.set(2) rotate1.simps(2) set_rotate1)
  then show "pool_wf pages ok (insert v A) bp'" "same_view pages bp bp'"
    using evict[OF wf fs' vr(1,2)[folded k0] disk r(1)] r(2) by (simp_all add: bp'_def)
qed

text \<open>Writing a resident page back to its file, as eviction and both flushes do.\<close>

lemma write_back:
  assumes wf: "pool_wf pages ok A bp" and res: "pageTable bp k = Some f"
    and w: "dmWritePage D (files bp ! unat (pk_file k)) (pk_pid k) (frames bp ! f) = (w, d')"
  defines "fs' \<equiv> (files bp)[unat (pk_file k) := d']"
  shows "files_agree pages ok (files bp) fs' k" "unat (pk_file k) < length (files bp)"
    "w = Inr u \<Longrightarrow> pages (fs' ! unat (pk_file k)) ! unat (pk_pid k) = frames bp ! f"
    "all_quiet quiet bp \<Longrightarrow> w = Inr ()"
    "all_quiet quiet bp \<Longrightarrow> all_quiet quiet (bp\<lparr>files := fs'\<rparr>)"
proof -
  let ?i = "unat (pk_file k)"
  have fi: "?i < length (files bp)" "unat (pk_pid k) < length (pages (files bp ! ?i))"
    by (rule valid_keyD[OF pool_wfD(3)[OF wf res]])+
  show "?i < length (files bp)" by (rule fi)
  have okd: "\<forall>d \<in> set (files bp). ok d" using wf by (simp add: pool_wf_def)
  then have oki: "ok (files bp ! ?i)" using fi by simp
  have len: "length (frames bp ! f) = 8192"
    by (rule frames_okD(10)[OF pool_wfD(1)[OF wf] resident_frame(1)[OF pool_wfD(1)[OF wf] res]])
  have "(\<exists>x. pages d' = (pages (files bp ! ?i))[unat (pk_pid k) := x]) \<and> ok d'"
    using w write_err[OF oki len] write_ok[OF oki len] by (cases w) auto
  then show "files_agree pages ok (files bp) fs' k"
    unfolding fs'_def using files_agree_update[OF okd _ fi(1), of d' pages "pk_pid k"] by auto
  show "w = Inr u \<Longrightarrow> pages (fs' ! ?i) ! unat (pk_pid k) = frames bp ! f"
    using w write_ok[OF oki len] fi by (auto simp: fs'_def)
  have q: "w = Inr () \<and> quiet d'" if "all_quiet quiet bp"
    using quiet_write[OF oki _ len fi(2)] that fi(1) w by (auto simp: all_quiet_def)
  then show "all_quiet quiet bp \<Longrightarrow> w = Inr ()" by blast
  show "all_quiet quiet (bp\<lparr>files := fs'\<rparr>)" if "all_quiet quiet bp"
    unfolding fs'_def using all_quiet_update[OF that] q[OF that] by blast
qed

text \<open>A victim whose write-back failed goes back to the replacer.\<close>

lemma reinstate_victim:
  assumes wf: "pool_wf pages ok A bp" and ne: "lru_queue (replacer bp) \<noteq> []" and v: "v = last (lru_queue (replacer bp))"
    and r: "lru_inv r" "lru_queue r = butlast (lru_queue (replacer bp))"
  shows "pool_wf pages ok A (bp\<lparr>replacer := lru_Unpin r v\<rparr>)" "same_view pages bp (bp\<lparr>replacer := lru_Unpin r v\<rparr>)"
proof -
  have "set (lru_queue (replacer bp)) = insert v (set (butlast (lru_queue (replacer bp))))"
    using ne unfolding v by (metis append_butlast_last_id list.simps(15) rotate1.simps(2) set_rotate1)
  then have "lru_inv (lru_Unpin r v)" "set (lru_queue (lru_Unpin r v)) = set (lru_queue (replacer bp))"
    using lru.unpin_inv[OF r(1)] r(2) by (auto simp: lru.unpin_queue[OF r(1)])
  from use_replacer[OF wf this] show "pool_wf pages ok A (bp\<lparr>replacer := lru_Unpin r v\<rparr>)"
    "same_view pages bp (bp\<lparr>replacer := lru_Unpin r v\<rparr>)" by blast+
qed

text \<open>The branch with no free frame and a frame to evict.\<close>

lemma acquireFrame_victim:
  assumes wf: "pool_wf pages ok A bp" and nofree: "freeList bp = []" and ne: "lru_queue (replacer bp) \<noteq> []"
  obtains (torn) e bp' where "acquireFrame D bp = Some (Inl (Wrap ''buffer: flush victim'' e), bp')"
      "pool_wf pages ok A bp'" "same_view pages bp bp'" "pageTable bp' = pageTable bp"
      "\<not> all_quiet quiet bp"
    | (got) f bp' where "acquireFrame D bp = Some (Inr f, bp')" "pool_wf pages ok (insert f A) bp'"
      "same_view pages bp bp'" "pageTable bp' \<subseteq>\<^sub>m pageTable bp"
      "all_quiet quiet bp \<Longrightarrow> all_quiet quiet bp'" "f \<notin> A"
proof -
  note fok = pool_wfD(1)[OF wf]
  define v k where "v = last (lru_queue (replacer bp))" and "k = mkey (meta bp ! v)"
  obtain r where r: "lru_Victim (replacer bp) = ((v, True), r)" "lru_inv r" "lru_queue r = butlast (lru_queue (replacer bp))"
    using lru.victim_some[OF frames_okD(2)[OF fok] ne] by (auto simp: v_def)
  note vr = victim_resident[OF wf ne, folded v_def, folded k_def]
  note clean = acquireFrame_clean[OF wf ne _ r(2,3), of _ k, folded v_def, OF _ k_def]
  have vA: "v \<notin> A" by (rule resident_frame(2)[OF fok vr(1)])
  have sub: "(pageTable bp)(k := None) \<subseteq>\<^sub>m pageTable bp" by (simp add: map_le_def)
  show thesis
  proof (cases "dirty (meta bp ! v)")
    case False
    have agree: "files_agree pages ok (files bp) (files bp) k" using wf by (simp add: files_agree_def pool_wf_def)
    have "acquireFrame D bp = Some (Inr v, bp\<lparr>files := files bp, replacer := r, pageTable := (pageTable bp)(k := None)\<rparr>)"
      using nofree r(1) vr(4) False by (simp add: acquireFrame_def idx_def k_def)
    then show thesis using got[of v] clean[OF agree] vr(7)[OF False] sub vA by (simp add: disk_of_def all_quiet_def)
  next
    case True
    obtain w d' where w: "dmWritePage D (files bp ! unat (pk_file k)) (pk_pid k) (frames bp ! v) = (w, d')" by fastforce
    define fs' where "fs' = (files bp)[unat (pk_file k) := d']"
    note wb = write_back[OF wf vr(1) w, folded fs'_def]
    have step: "acquireFrame D bp = (case w of
        Inl e \<Rightarrow> Some (Inl (Wrap ''buffer: flush victim'' e), bp\<lparr>files := fs', replacer := lru_Unpin r v\<rparr>)
      | Inr _ \<Rightarrow> Some (Inr v, bp\<lparr>files := fs', replacer := r, pageTable := (pageTable bp)(k := None)\<rparr>))"
      using nofree r(1) vr(3,4) True wb(2) w by (simp add: acquireFrame_def idx_def k_def fs'_def Let_def split: sum.split)
    show thesis
    proof (cases w)
      case (Inl e)
      note rw = rewrite_dirty[OF wf wb(1) vr(1) True]
      note ur = reinstate_victim[OF rw(1), of v r]
      have "\<not> all_quiet quiet bp" using wb(4) Inl by auto
      then show thesis using step Inl torn ur(1) same_view_trans[OF rw(2) ur(2)] ne r(2,3) v_def by simp
    next
      case (Inr u)
      then show thesis using step got[of v] clean[OF wb(1) wb(3)] wb(5) sub vA by (simp add: all_quiet_def)
    qed
  qed
qed

lemma acquireFrame_cases:
  assumes wf: "pool_wf pages ok A bp"
  obtains (full) "acquireFrame D bp = Some (Inl ErrNoFreeFrame, bp)"
      "freeList bp = []" "lru_queue (replacer bp) = []"
    | (torn) e bp' where "acquireFrame D bp = Some (Inl (Wrap ''buffer: flush victim'' e), bp')"
      "pool_wf pages ok A bp'" "same_view pages bp bp'" "pageTable bp' = pageTable bp"
      "\<not> all_quiet quiet bp"
    | (got) f bp' where "acquireFrame D bp = Some (Inr f, bp')" "pool_wf pages ok (insert f A) bp'"
      "same_view pages bp bp'" "pageTable bp' \<subseteq>\<^sub>m pageTable bp"
      "all_quiet quiet bp \<Longrightarrow> all_quiet quiet bp'" "f \<notin> A"
proof -
  note fok = pool_wfD(1)[OF wf]
  consider (free) "freeList bp \<noteq> []" | (none) "freeList bp = []" "lru_queue (replacer bp) = []"
    | (victim) "freeList bp = []" "lru_queue (replacer bp) \<noteq> []" by blast
  then show thesis
  proof cases
    case free
    then have "last (freeList bp) \<in> set (freeList bp)" by simp
    then have "last (freeList bp) \<notin> A" using frames_okD(5)[OF fok] by auto
    moreover have "acquireFrame D bp = Some (Inr (last (freeList bp)), bp\<lparr>freeList := butlast (freeList bp)\<rparr>)"
      using free by (simp add: acquireFrame_def)
    ultimately show thesis using got take_free[OF wf free] by (simp add: all_quiet_def)
  next
    case none
    then show thesis
      using lru.victim_none[OF frames_okD(2)[OF fok]] by (intro full) (auto simp: acquireFrame_def)
  next
    case victim
    from wf victim show thesis by (cases rule: acquireFrame_victim) (rule torn got; assumption)+
  qed
qed

subsection \<open>The operations\<close>

lemma fetch_hit:
  assumes wf: "pool_inv pages ok bp" and res: "pageTable bp (PageKey file pid) = Some f"
  defines "k \<equiv> PageKey file pid"
  obtains bp' where "fetch D bp file pid = Some (Inr f, bp')" "pool_inv pages ok bp'"
    "pageTable bp' = pageTable bp" "files bp' = files bp"
    "moves pages bp bp' (npages pages bp) (page_of pages bp) ((pins bp)(k := Suc (pins bp k))) (at_risk pages bp)"
proof -
  have w: "pool_wf pages ok {} bp" using wf by (simp add: pool_inv_def)
  note fok = pool_wfD(1)[OF w] and res' = res[folded k_def]
  have linv: "lru_inv (replacer bp)" by (rule frames_okD(2)[OF fok])
  have f: "f < length (meta bp)" using resident_frame(1)[OF fok res] frames_okD(1)[OF fok] by simp
  let ?n = "pinCount (meta bp ! f) + 1"
  let ?bp = "bp\<lparr>meta := (meta bp)[f := (meta bp ! f)\<lparr>pinCount := ?n, dirty := dirty (meta bp ! f)\<rparr>],
      replacer := lru_Pin (replacer bp) f\<rparr>"
  have q: "set (lru_queue (lru_Pin (replacer bp) f)) =
      (if ?n = 0 then insert f (set (lru_queue (replacer bp))) else set (lru_queue (replacer bp)) - {f})"
    using lru.queue_distinct[OF linv] by (simp add: lru.pin_queue[OF linv])
  note rp = repin[OF w res' _ _ lru.pin_inv[OF linv] q, of "dirty (meta bp ! f)"]
  have "fetch D bp file pid = Some (Inr f, ?bp)"
    using res f by (simp add: fetch_def idx_def)
  moreover have "(at_risk pages bp)(k := at_risk pages bp k \<and> \<not> dirty (meta bp ! f)) = at_risk pages bp"
    using res' by (auto simp: at_risk_def fun_eq_iff)
  moreover have "pins bp k = pinCount (meta bp ! f)" using res' by (simp add: pins_def)
  ultimately show thesis
    using rp by (intro that[of ?bp]) (simp_all add: pool_inv_def)
qed

text \<open>Reading a page into a frame in transit.\<close>

lemma load_frame:
  assumes wf: "pool_wf pages ok {f} bp" and fl: "unat file < length (files bp)"
    and rd: "dmReadPage D (files bp ! unat file) pid (frames bp ! f) = (r, b, d')"
  defines "bp' \<equiv> bp\<lparr>files := (files bp)[unat file := d']\<rparr>" and "k \<equiv> PageKey file pid"
  shows "length b = 8192" "pool_wf pages ok {f} bp'" "same_view pages bp bp'"
    "r = Inr u \<Longrightarrow> valid_key pages bp' k \<and> b = disk_of pages bp' k"
    "all_quiet quiet bp \<Longrightarrow> valid_key pages bp k \<Longrightarrow> r = Inr () \<and> all_quiet quiet bp'"
proof -
  note fok = pool_wfD(1)[OF wf]
  have f: "f < length (frames bp)" using frames_okD(4)[OF fok] by auto
  have len: "length (frames bp ! f) = 8192" by (rule frames_okD(10)[OF fok f])
  have okf: "ok (files bp ! unat file)" using pool_wfD(2)[OF wf] fl by simp
  show b: "length b = 8192"
    using rd read_ok[OF okf len, of pid] read_err[OF okf len, of pid] page_length[OF okf] nth_mem
    by (cases r) fastforce+
  have d': "pages d' = pages (files bp ! unat file) \<and> ok d'"
    using rd read_ok[OF okf len] read_err[OF okf len] by (cases r) auto
  then show "pool_wf pages ok {f} bp'" "same_view pages bp bp'" using file_same[OF wf _ _ fl] by (simp_all add: bp'_def)
  show "valid_key pages bp' k \<and> b = disk_of pages bp' k" if "r = Inr u"
    using read_ok[OF okf len] rd that fl d'
    by (auto simp: valid_key_def npages_def disk_of_def bp'_def k_def)
  show "r = Inr () \<and> all_quiet quiet bp'" if "all_quiet quiet bp" "valid_key pages bp k"
  proof -
    have "quiet (files bp ! unat file)" using that(1) fl by (simp add: all_quiet_def)
    then have "r = Inr () \<and> quiet d'"
      using quiet_read[OF okf _ len, of pid] valid_keyD(2)[OF that(2)] rd by (auto simp: k_def)
    then show ?thesis using all_quiet_update[OF that(1), of d'] by (simp add: bp'_def)
  qed
qed

text \<open>A miss, once a frame has been found.\<close>

lemma fetch_miss:
  fixes pid :: PageID
  assumes fl: "unat file < length (files bp)" and None: "pageTable bp (PageKey file pid) = None"
    and got: "acquireFrame D bp = Some (Inr f, bp1)" "pool_wf pages ok {f} bp1" "same_view pages bp bp1" "pageTable bp1 \<subseteq>\<^sub>m pageTable bp"
      "all_quiet quiet bp \<Longrightarrow> all_quiet quiet bp1"
  defines "k \<equiv> PageKey file pid"
  obtains (ok) f bp' where "fetch D bp file pid = Some (Inr f, bp')" "pool_inv pages ok bp'"
      "valid_key pages bp k" "pageTable bp' k = Some f" "all_quiet quiet bp \<Longrightarrow> all_quiet quiet bp'"
      "moves pages bp bp' (npages pages bp) (page_of pages bp) ((pins bp)(k := Suc (pins bp k))) (at_risk pages bp)"
    | (err) e bp' where "fetch D bp file pid = Some (Inl e, bp')" "pool_inv pages ok bp'"
      "same_view pages bp bp'" "all_quiet quiet bp \<Longrightarrow> valid_key pages bp k \<Longrightarrow>
        False"
proof -
  have f: "f < length (frames bp1)" using frames_okD(4)[OF pool_wfD(1)[OF got(2)]] by auto
  have fl1: "unat file < length (files bp1)" using fl same_view_eqs(4)[OF got(3)] by simp
  obtain r b d' where rd: "dmReadPage D (files bp1 ! unat file) pid (frames bp1 ! f) = (r, b, d')"
    by (metis prod_cases3)
  define bp2 where "bp2 = bp1\<lparr>files := (files bp1)[unat file := d']\<rparr>"
  define bp3 where "bp3 = bindFrame (bp2\<lparr>frames := (frames bp2)[f := b]\<rparr>) f k"
  note ld = load_frame[OF got(2) fl1 rd, folded bp2_def k_def]
  note sv = same_view_trans[OF got(3) ld(3)]
  have step: "fetch D bp file pid = (case r of
      Inl e \<Rightarrow> Some (Inl (Wrap ''buffer: load'' e), bp2\<lparr>frames := (frames bp2)[f := b], freeList := freeList bp2 @ [f]\<rparr>)
    | Inr _ \<Rightarrow> Some (Inr f, bp3))"
    using None got(1) fl1 f rd by (simp add: fetch_def k_def idx_def bp2_def bp3_def split: sum.split)
  have qr: "r = Inr () \<and> all_quiet quiet bp2" if "all_quiet quiet bp" "valid_key pages bp k"
    using ld(5)[OF got(5)[OF that(1)]] that(2) same_view_valid[OF got(3), of k] by blast
  show thesis
  proof (cases r)
    case (Inl e)
    note rel = release_frame[OF ld(2) _ ld(1)]
    show thesis
      by (rule err[OF step[unfolded Inl sum.case]])
        (use rel same_view_trans[OF sv rel(2)] qr Inl in \<open>auto simp: pool_inv_def\<close>)
  next
    case (Inr u)
    have "pageTable bp2 k = None" using got(4) None by (auto simp: bp2_def k_def map_le_def dom_def)
    then have bl: "pool_wf pages ok {} bp3" "pageTable bp3 k = Some f" "files bp3 = files bp2"
      "moves pages bp2 bp3 (npages pages bp2) (page_of pages bp2) ((pins bp2)(k := 1)) (at_risk pages bp2)"
      using bind_loaded[OF ld(2) _ _ _ _ ld(1)] ld(4)[OF Inr] by (auto simp: bp3_def)
    have vb: "valid_key pages bp k" using ld(4)[OF Inr] same_view_valid[OF sv] by blast
    have "pins bp k = 0" using None by (simp add: pins_def k_def)
    then have "moves pages bp bp3 (npages pages bp) (page_of pages bp) ((pins bp)(k := Suc (pins bp k))) (at_risk pages bp)"
      using moves_via_same[OF sv bl(4)] by simp
    moreover have "all_quiet quiet bp3" if "all_quiet quiet bp"
      using qr[OF that vb] bl(3) by (simp add: all_quiet_def)
    ultimately show thesis
      using bl vb by (intro ok[OF step[unfolded Inr sum.case]]) (auto simp: pool_inv_def)
  qed
qed

lemma fetch_cases:
  fixes pid :: PageID
  assumes wf: "pool_inv pages ok bp" and fl: "unat file < length (files bp)"
  defines "k \<equiv> PageKey file pid"
  obtains (ok) f bp' where "fetch D bp file pid = Some (Inr f, bp')" "pool_inv pages ok bp'"
      "valid_key pages bp k" "pageTable bp' k = Some f" "all_quiet quiet bp \<Longrightarrow> all_quiet quiet bp'"
      "moves pages bp bp' (npages pages bp) (page_of pages bp) ((pins bp)(k := Suc (pins bp k))) (at_risk pages bp)"
    | (err) e bp' where "fetch D bp file pid = Some (Inl e, bp')" "pool_inv pages ok bp'"
      "same_view pages bp bp'" "all_quiet quiet bp \<Longrightarrow> valid_key pages bp k \<Longrightarrow>
        e = ErrNoFreeFrame \<and> freeList bp = [] \<and> lru_queue (replacer bp) = [] \<and> pageTable bp k = None"
proof (cases "pageTable bp k")
  case (Some f)
  have w: "pool_wf pages ok {} bp" using wf by (simp add: pool_inv_def)
  show thesis
    by (rule fetch_hit[OF wf Some[unfolded k_def]])
      (rule ok, use Some pool_wfD(3)[OF w Some] in \<open>auto simp: k_def all_quiet_def\<close>)
next
  case None
  have w: "pool_wf pages ok {} bp" using wf by (simp add: pool_inv_def)
  from w show thesis
  proof (cases rule: acquireFrame_cases)
    case full
    then show thesis using err None wf same_view_refl[of pages bp] by (simp add: fetch_def k_def)
  next
    case (torn e bp1)
    then show thesis using err[of "Wrap ''buffer: flush victim'' e" bp1] None
      by (simp add: fetch_def k_def pool_inv_def)
  next
    case (got f bp1)
    show thesis by (rule fetch_miss[OF fl None[unfolded k_def] got(1-5), folded k_def]) (blast intro: ok err)+
  qed
qed

text \<open>A new page, once a frame has been found: the allocation may fail, or the blank page is bound.\<close>

lemma alloc_failed:
  assumes wf: "pool_wf pages ok {f} bp" and fl: "unat file < length (files bp)" and al: "dmAllocatePage D (files bp ! unat file) = (Inl e, d')"
  defines "bp' \<equiv> bp\<lparr>files := (files bp)[unat file := d'], freeList := freeList bp @ [f]\<rparr>"
  shows "pool_inv pages ok bp'" "same_view pages bp bp'"
proof -
  note fok = pool_wfD(1)[OF wf]
  have f: "f < length (frames bp)" using frames_okD(4)[OF fok] by auto
  have len: "length (frames bp ! f) = 8192" by (rule frames_okD(10)[OF fok f])
  have "ok (files bp ! unat file)" using pool_wfD(2)[OF wf] fl by simp
  then have "pages d' = pages (files bp ! unat file)" "ok d'" using alloc_err al by auto
  note fs = file_same[OF wf this fl]
  have eq: "bp' = bp\<lparr>files := (files bp)[unat file := d'], frames := (frames bp)[f := frames bp ! f], freeList := freeList bp @ [f]\<rparr>"
    by (simp add: bp'_def)
  show "pool_inv pages ok bp'" "same_view pages bp bp'"
    using release_frame[OF fs(1) _ len] same_view_trans[OF fs(2)] by (simp_all add: pool_inv_def eq)
qed

lemma alloc_bound:
  assumes wf: "pool_wf pages ok {f} bp" and fl: "unat file < length (files bp)" and al: "dmAllocatePage D (files bp ! unat file) = (Inr pid, d')"
  defines "k \<equiv> PageKey file pid"
    and "bp' \<equiv> bindFrame (bp\<lparr>files := (files bp)[unat file := d'], frames := (frames bp)[f := NewPage_frame]\<rparr>) f (PageKey file pid)"
  shows "pool_inv pages ok bp'" "pageTable bp' k = Some f" "files bp' = (files bp)[unat file := d']" "unat pid = npages pages bp file"
    "moves pages bp bp' ((npages pages bp)(file := Suc (unat pid))) ((page_of pages bp)(k := NewPage_frame)) ((pins bp)(k := 1))
      (at_risk pages bp)"
proof -
  let ?bp = "bp\<lparr>files := (files bp)[unat file := d']\<rparr>"
  have "ok (files bp ! unat file)" using pool_wfD(2)[OF wf] fl by simp
  from alloc_ok[OF this al] have d': "unat pid = npages pages bp file" "pages d' = pages (files bp ! unat file) @ [NewPage_frame]" "ok d'"
    using fl by (simp_all add: npages_def)
  note fg = files_grown[OF wf fl d'(3,2,1), folded k_def]
  have vk: "valid_key pages ?bp k" using fg(4) by (simp add: moves_def valid_key_def k_def)
  have b: "bp' = bindFrame (?bp\<lparr>frames := (frames ?bp)[f := NewPage_frame]\<rparr>) f k" by (simp add: bp'_def k_def)
  have "f \<notin> {}" "pageTable ?bp k = None" using fg(3) by simp_all
  note bl = bind_loaded[OF fg(1) this vk fg(2)[symmetric] length_NewPage_frame, folded b]
  have pin0: "pins bp k = 0" using fg(3) by (simp add: pins_def)
  show "moves pages bp bp' ((npages pages bp)(file := Suc (unat pid))) ((page_of pages bp)(k := NewPage_frame)) ((pins bp)(k := 1))
      (at_risk pages bp)"
    using fg(4) bl(4) pin0 by (auto simp: moves_def)
  show "pool_inv pages ok bp'" "pageTable bp' k = Some f" "files bp' = (files bp)[unat file := d']" "unat pid = npages pages bp file"
    using bl d'(1) by (simp_all add: pool_inv_def)
qed

lemma newPage_cases:
  assumes wf: "pool_inv pages ok bp" and fl: "unat file < length (files bp)"
  obtains (ok) f pid bp' where "newPage D bp file = Some (Inr (f, pid), bp')" "pool_inv pages ok bp'"
      "unat pid = npages pages bp file" "pageTable bp' (PageKey file pid) = Some f"
      "all_quiet quiet bp \<Longrightarrow> Suc (npages pages bp file) < 2 ^ 32 \<Longrightarrow> all_quiet quiet bp'"
      "moves pages bp bp' ((npages pages bp)(file := Suc (unat pid)))
        ((page_of pages bp)(PageKey file pid := NewPage_frame)) ((pins bp)(PageKey file pid := 1))
        (at_risk pages bp)"
    | (err) e bp' where "newPage D bp file = Some (Inl e, bp')" "pool_inv pages ok bp'"
      "same_view pages bp bp'" "all_quiet quiet bp \<Longrightarrow> Suc (npages pages bp file) < 2 ^ 32 \<Longrightarrow>
        e = ErrNoFreeFrame \<and> freeList bp = [] \<and> lru_queue (replacer bp) = []"
proof -
  have w: "pool_wf pages ok {} bp" using wf by (simp add: pool_inv_def)
  from w show thesis
  proof (cases rule: acquireFrame_cases)
    case full
    then show thesis using err wf same_view_refl[of pages bp] by (simp add: newPage_def)
  next
    case (torn e bp1)
    then show thesis using err[of "Wrap ''buffer: flush victim'' e" bp1]
      by (simp add: newPage_def pool_inv_def)
  next
    case (got f bp1)
    note fok = pool_wfD(1)[OF got(2)]
    have f: "f < length (frames bp1)" using frames_okD(4)[OF fok] by auto
    have len: "length (frames bp1 ! f) = 8192" by (rule frames_okD(10)[OF fok f])
    have fl1: "unat file < length (files bp1)" using fl same_view_eqs(4)[OF got(3)] by simp
    have okf: "ok (files bp1 ! unat file)" using pool_wfD(2)[OF got(2)] fl1 by simp
    have np: "npages pages bp file = length (pages (files bp1 ! unat file))"
      using fl1 same_view_eqs(1)[OF got(3), symmetric] by (simp add: npages_def)
    obtain r d' where al: "dmAllocatePage D (files bp1 ! unat file) = (r, d')" by fastforce
    have step: "newPage D bp file = (case r of
        Inl e \<Rightarrow> Some (Inl (Wrap ''buffer: allocate page'' e), bp1\<lparr>files := (files bp1)[unat file := d'], freeList := freeList bp1 @ [f]\<rparr>)
      | Inr pid \<Rightarrow> Some (Inr (f, pid),
          bindFrame (bp1\<lparr>files := (files bp1)[unat file := d'], frames := (frames bp1)[f := NewPage_frame]\<rparr>) f (PageKey file pid)))"
      using got(1) fl1 f al go_clear_page[OF len] by (simp add: newPage_def idx_def split: sum.split)
    have qr: "(\<exists>pid. r = Inr pid) \<and> (\<forall>d \<in> set ((files bp1)[unat file := d']). quiet d)"
      if "all_quiet quiet bp" "Suc (npages pages bp file) < 2 ^ 32"
    proof -
      have "quiet (files bp1 ! unat file)" using got(5)[OF that(1)] fl1 by (simp add: all_quiet_def)
      then have "(\<exists>pid. r = Inr pid) \<and> quiet d'" using quiet_alloc[OF okf] that(2) np al by auto
      then show ?thesis using all_quiet_update[OF got(5)[OF that(1)], of d'] by (simp add: all_quiet_def)
    qed
    show thesis
    proof (cases r)
      case (Inl e)
      note fd = alloc_failed[OF got(2) fl1 al[unfolded Inl]]
      show thesis by (rule err[OF step[unfolded Inl sum.case] fd(1) same_view_trans[OF got(3) fd(2)]]) (use qr Inl in auto)
    next
      case (Inr pid)
      note bd = alloc_bound[OF got(2) fl1 al[unfolded Inr]]
      show thesis
        by (rule ok[OF step[unfolded Inr sum.case] bd(1) _ bd(2)])
          (use bd(3,4) grow_via_same[OF got(3) bd(5,4)] same_view_eqs(1)[OF got(3)] qr in \<open>auto simp: all_quiet_def\<close>)
    qed
  qed
qed

lemma unpin_cases:
  fixes pid :: PageID and fid :: FileID
  assumes wf: "pool_inv pages ok bp"
  defines "k \<equiv> PageKey fid pid"
  assumes safe: "pins bp k = 1 \<longrightarrow> d \<or> \<not> at_risk pages bp k"
  obtains (ok) bp' where "unpin bp fid pid d = Some (Inr (), bp')" "pool_inv pages ok bp'" "0 < pins bp k"
      "files bp' = files bp"
      "moves pages bp bp' (npages pages bp) (page_of pages bp) ((pins bp)(k := pins bp k - 1))
        ((at_risk pages bp)(k := at_risk pages bp k \<and> \<not> d))"
    | (err) e where "unpin bp fid pid d = Some (Inl e, bp)" "pins bp k = 0"
proof (cases "pageTable bp k")
  case None
  then show thesis using err by (simp add: unpin_def k_def pins_def)
next
  case (Some f)
  have w: "pool_wf pages ok {} bp" using wf by (simp add: pool_inv_def)
  note fok = pool_wfD(1)[OF w]
  have linv: "lru_inv (replacer bp)" by (rule frames_okD(2)[OF fok])
  have f: "f < length (meta bp)" using resident_frame(1)[OF fok Some] frames_okD(1)[OF fok] by simp
  have pc: "pins bp k = pinCount (meta bp ! f)" using Some by (simp add: pins_def)
  show thesis
  proof (cases "pins bp k = 0")
    case True
    then show thesis using err Some pc f by (simp add: unpin_def k_def idx_def)
  next
    case False
    let ?n = "pinCount (meta bp ! f) - 1" and ?d = "dirty (meta bp ! f) \<or> d"
    let ?r = "if ?n = 0 then lru_Unpin (replacer bp) f else replacer bp"
    let ?bp = "bp\<lparr>meta := (meta bp)[f := (meta bp ! f)\<lparr>pinCount := ?n, dirty := ?d\<rparr>], replacer := ?r\<rparr>"
    have "f \<notin> set (lru_queue (replacer bp))" using frames_okD(8)[OF fok] pc False by simp
    then have q: "set (lru_queue ?r) =
      (if ?n = 0 then insert f (set (lru_queue (replacer bp))) else set (lru_queue (replacer bp)) - {f})"
      by (simp add: lru.unpin_queue[OF linv])
    have "lru_inv ?r" using linv lru.unpin_inv by simp
    moreover have "?d \<or> \<not> at_risk pages bp k" if "?n = 0"
      using that safe pc False by (cases "pins bp k") auto
    ultimately have rp: "pool_wf pages ok {} ?bp"
      "moves pages bp ?bp (npages pages bp) (page_of pages bp) ((pins bp)(k := ?n))
        ((at_risk pages bp)(k := at_risk pages bp k \<and> \<not> ?d))"
      using repin[OF w Some, of ?d ?n ?r] q by auto
    have "unpin bp fid pid d = Some (Inr (), ?bp)"
      using Some f False pc by (simp add: unpin_def k_def idx_def swap_meta_updates)
    moreover have "(at_risk pages bp k \<and> \<not> ?d) = (at_risk pages bp k \<and> \<not> d)"
      using Some by (auto simp: at_risk_def)
    ultimately show thesis
      using rp pc False by (intro ok[of ?bp]) (simp_all add: pool_inv_def)
  qed
qed

lemma flushLocked_cases:
  assumes wf: "pool_inv pages ok bp" and res: "pageTable bp k = Some f"
  obtains (ok) bp' where "flushLocked D bp f = Some (Inr (), bp')" "pool_inv pages ok bp'"
      "same_view pages bp bp'" "pageTable bp' = pageTable bp" "\<not> dirty (meta bp' ! f)"
      "\<And>g. \<not> dirty (meta bp ! g) \<Longrightarrow> \<not> dirty (meta bp' ! g)"
    | (err) e bp' where "flushLocked D bp f = Some (Inl e, bp')" "pool_inv pages ok bp'"
      "same_view pages bp bp'" "pageTable bp' = pageTable bp" "meta bp' = meta bp" "\<not> all_quiet quiet bp"
proof -
  have w: "pool_wf pages ok {} bp" using wf by (simp add: pool_inv_def)
  note fok = pool_wfD(1)[OF w]
  have fl: "f < length (frames bp)" by (rule resident_frame(1)[OF fok res])
  then have f: "f < length (meta bp)" using frames_okD(1)[OF fok] by simp
  have k: "mkey (meta bp ! f) = k" by (rule frames_okD(9)[OF fok res])
  show thesis
  proof (cases "dirty (meta bp ! f)")
    case False
    then show thesis using ok[of bp] wf f same_view_refl[of pages bp] by (simp add: flushLocked_def idx_def)
  next
    case True
    obtain r d' where wr: "dmWritePage D (files bp ! unat (pk_file k)) (pk_pid k) (frames bp ! f) = (r, d')"
      by fastforce
    define bp1 where "bp1 = bp\<lparr>files := (files bp)[unat (pk_file k) := d']\<rparr>"
    note wb = write_back[OF w res wr]
    note rw = rewrite_dirty[OF w wb(1) res True, folded bp1_def]
    have sel: "meta bp1 = meta bp" "pageTable bp1 = pageTable bp" "frames bp1 = frames bp"
      by (simp_all add: bp1_def)
    have step: "flushLocked D bp f = (case r of
        Inl e \<Rightarrow> Some (Inl (Wrap ''buffer: flush'' e), bp1)
      | Inr _ \<Rightarrow> Some (Inr (), bp1\<lparr>meta := (meta bp1)[f := (meta bp1 ! f)\<lparr>dirty := False\<rparr>]\<rparr>))"
      using True f fl wb(2) wr by (simp add: flushLocked_def idx_def k Let_def sel bp1_def[symmetric] split: sum.split)
    show thesis
    proof (cases r)
      case (Inl e)
      moreover have "\<not> all_quiet quiet bp" using wb(4) Inl by auto
      ultimately show thesis using err step rw sel by (simp add: pool_inv_def)
    next
      case (Inr u)
      have "disk_of pages bp1 k = frames bp1 ! f"
        using wb(3)[OF Inr] by (simp add: disk_of_def bp1_def)
      then have mc: "pool_wf pages ok {} (bp1\<lparr>meta := (meta bp1)[f := (meta bp1 ! f)\<lparr>dirty := False\<rparr>]\<rparr>)"
        "same_view pages bp1 (bp1\<lparr>meta := (meta bp1)[f := (meta bp1 ! f)\<lparr>dirty := False\<rparr>]\<rparr>)"
        using mark_clean[OF rw(1)] res sel by auto
      show thesis
        by (rule ok[OF step[unfolded Inr sum.case]])
          (use mc same_view_trans[OF rw(2) mc(2)] sel f in \<open>auto simp: pool_inv_def nth_list_update\<close>)
    qed
  qed
qed

lemma FlushAll_spec:
  assumes "pool_inv pages ok bp" "FlushAll D ks bp = Some (r, bp')"
  shows "pool_inv pages ok bp' \<and> same_view pages bp bp' \<and> pageTable bp' = pageTable bp \<and>
    (\<forall>g. \<not> dirty (meta bp ! g) \<longrightarrow> \<not> dirty (meta bp' ! g)) \<and>
    (r = Inr () \<longrightarrow> (\<forall>k \<in> set ks. \<forall>f. pageTable bp k = Some f \<longrightarrow> \<not> dirty (meta bp' ! f)))"
  using assms
proof (induction ks arbitrary: bp)
  case Nil
  then show ?case by (simp add: same_view_refl)
next
  case (Cons k ks)
  show ?case
  proof (cases "pageTable bp k")
    case None
    then show ?thesis using Cons.IH[OF Cons.prems(1)] Cons.prems(2) by auto
  next
    case (Some f)
    with Cons.prems(1) show ?thesis
    proof (cases rule: flushLocked_cases)
      case (ok bp1)
      then show ?thesis
        using Cons.IH[OF ok(2)] Cons.prems(2) Some same_view_trans[OF ok(3)] by auto
    next
      case (err e bp1)
      then show ?thesis using Cons.prems(2) Some by auto
    qed
  qed
qed

lemma FlushAll_total:
  assumes "pool_inv pages ok bp"
  shows "\<exists>r bp'. FlushAll D ks bp = Some (r, bp')"
  using assms
proof (induction ks arbitrary: bp)
  case (Cons k ks)
  show ?case
  proof (cases "pageTable bp k")
    case (Some f)
    with Cons.prems show ?thesis
      by (cases rule: flushLocked_cases) (use Cons.IH Some in auto)
  qed (use Cons in simp)
qed simp

lemma sync_files_pages:
  assumes "\<forall>d \<in> set ds. ok d" "sync_files D ds = (r, ds')"
  shows "length ds' = length ds \<and> (\<forall>d \<in> set ds'. ok d) \<and> map pages ds' = map pages ds"
  using assms
proof (induction ds arbitrary: ds' r)
  case (Cons d ds)
  obtain r1 d1 where s: "dmSync D d = (r1, d1)" by fastforce
  then have "pages d1 = pages d \<and> ok d1" using sync_keeps Cons.prems(1) by auto
  then show ?case
    using Cons s by (cases r1) (auto split: prod.splits)
qed simp

lemma bp_Sync_view:
  assumes wf: "pool_inv pages ok bp" and s: "bp_Sync D bp = (r, bp')"
  shows "pool_inv pages ok bp' \<and> same_view pages bp bp'"
proof -
  have w: "pool_wf pages ok {} bp" using wf by (simp add: pool_inv_def)
  obtain ds where ds: "sync_files D (files bp) = (r, ds)" "bp' = bp\<lparr>files := ds\<rparr>"
    using s by (auto simp: bp_Sync_def split: prod.splits)
  have sp: "length ds = length (files bp)" "\<forall>d \<in> set ds. ok d" "map pages ds = map pages (files bp)"
    using sync_files_pages[OF _ ds(1)] w by (auto simp: pool_wf_def)
  have "pages (ds ! i) = pages (files bp ! i)" if "i < length (files bp)" for i
    using arg_cong[OF sp(3), of "\<lambda>l. l ! i"] that sp(1) by simp
  from files_same[OF w sp(1,2) this] show ?thesis by (simp add: pool_inv_def ds(2))
qed

end

subsection \<open>Pinned frames\<close>

definition room :: "'d BufferPool \<Rightarrow> nat" where
  "room bp = length (frames bp) - card {k. 0 < pins bp k}"

lemma pinned_frames:
  assumes wf: "pool_inv pages ok bp"
  defines "fr \<equiv> \<lambda>k. the (pageTable bp k)"
  shows "inj_on fr {k. 0 < pins bp k}"
    "fr ` {k. 0 < pins bp k} = {..<length (frames bp)} - set (freeList bp) - set (lru_queue (replacer bp))"
    "finite {k. 0 < pins bp k}"
proof -
  have fok: "frames_ok {} bp" using wf by (simp add: pool_inv_def pool_wf_def)
  have pinned: "0 < pins bp k \<longleftrightarrow> (\<exists>f. pageTable bp k = Some f \<and> 0 < pinCount (meta bp ! f))" for k
    by (auto simp: pins_def split: option.split)
  show inj: "inj_on fr {k. 0 < pins bp k}"
    using resident_inj[OF fok] by (auto simp: inj_on_def pinned fr_def)
  show img: "fr ` {k. 0 < pins bp k} = {..<length (frames bp)} - set (freeList bp) - set (lru_queue (replacer bp))"
  proof (intro set_eqI iffI)
    fix f assume "f \<in> fr ` {k. 0 < pins bp k}"
    then obtain k where k: "pageTable bp k = Some f" "0 < pinCount (meta bp ! f)" by (auto simp: pinned fr_def)
    then show "f \<in> {..<length (frames bp)} - set (freeList bp) - set (lru_queue (replacer bp))"
      using resident_frame[OF fok k(1)] frames_okD(8)[OF fok, of f] by auto
  next
    fix f assume f: "f \<in> {..<length (frames bp)} - set (freeList bp) - set (lru_queue (replacer bp))"
    then have "f \<in> ran (pageTable bp)" using frames_okD(4)[OF fok] by blast
    then obtain k where k: "pageTable bp k = Some f" by (auto simp: ran_def)
    then have "0 < pinCount (meta bp ! f)" using frames_okD(8)[OF fok, of f] f by (auto intro: ranI)
    then show "f \<in> fr ` {k. 0 < pins bp k}" using k by (auto simp: pinned fr_def image_iff)
  qed
  show "finite {k. 0 < pins bp k}"
    by (rule finite_imageD[OF _ inj]) (simp add: img)
qed

lemma diff_diff_all: "A \<subseteq> U \<Longrightarrow> B \<subseteq> U \<Longrightarrow> U - A - B = U \<longleftrightarrow> A = {} \<and> B = {}"
  by auto

lemma card_pinned:
  assumes "pool_inv pages ok bp"
  shows "card {k. 0 < pins bp k} \<le> length (frames bp)"
    "room bp = 0 \<longleftrightarrow> freeList bp = [] \<and> lru_queue (replacer bp) = []"
proof -
  let ?S = "{..<length (frames bp)} - set (freeList bp) - set (lru_queue (replacer bp))"
  have c: "card {k. 0 < pins bp k} = card ?S"
    using card_image[OF pinned_frames(1)[OF assms]] pinned_frames(2)[OF assms] by simp
  also have "\<dots> \<le> card {..<length (frames bp)}" by (intro card_mono) auto
  finally show le: "card {k. 0 < pins bp k} \<le> length (frames bp)" by simp
  have fok: "frames_ok {} bp" using assms by (simp add: pool_inv_def pool_wf_def)
  have "set (freeList bp) \<subseteq> {..<length (frames bp)}" using frames_okD(4)[OF fok] by auto
  moreover have "set (lru_queue (replacer bp)) \<subseteq> {..<length (frames bp)}"
  proof
    fix f assume "f \<in> set (lru_queue (replacer bp))"
    then have "f \<in> ran (pageTable bp)" using frames_okD(8)[OF fok] by simp
    then show "f \<in> {..<length (frames bp)}" using frames_okD(4)[OF fok] by auto
  qed
  ultimately have "?S = {..<length (frames bp)} \<longleftrightarrow> set (freeList bp) = {} \<and> set (lru_queue (replacer bp)) = {}"
    by (rule diff_diff_all)
  moreover have "room bp = 0 \<longleftrightarrow> card ?S = card {..<length (frames bp)}"
    using le c by (auto simp: room_def)
  moreover have "card ?S = card {..<length (frames bp)} \<longleftrightarrow> ?S = {..<length (frames bp)}"
  proof
    assume "card ?S = card {..<length (frames bp)}"
    then show "?S = {..<length (frames bp)}" by (intro card_subset_eq) auto
  next
    assume "?S = {..<length (frames bp)}"
    then show "card ?S = card {..<length (frames bp)}" by (rule arg_cong)
  qed
  ultimately show "room bp = 0 \<longleftrightarrow> freeList bp = [] \<and> lru_queue (replacer bp) = []"
    by (simp only: set_empty)
qed

lemma room_pin:
  assumes "pool_inv pages ok bp" "pool_inv pages ok bp'" "length (frames bp') = length (frames bp)"
    and "pins bp' = (pins bp)(k := n)"
  shows "room bp' + (if 0 < n then 1 else 0) = room bp + (if 0 < pins bp k then 1 else 0)"
proof -
  let ?P = "{k. 0 < pins bp k}" and ?P' = "{k. 0 < pins bp' k}"
  have fin: "finite ?P" "finite ?P'" using pinned_frames(3) assms(1,2) by blast+
  have c: "card ?P \<le> length (frames bp)" "card ?P' \<le> length (frames bp)"
    using card_pinned(1)[OF assms(1)] card_pinned(1)[OF assms(2)] assms(3) by auto
  have "?P - {k} = ?P' - {k}" using assms(4) by auto
  moreover have cr: "card S = card (S - {k}) + (if k \<in> S then 1 else 0)" if "finite S" for S :: "pageKey set"
    using card.remove[OF that, of k] by (cases "k \<in> S") simp_all
  moreover note cr[OF fin(1)] cr[OF fin(2)]
  ultimately have "card ?P' + (if 0 < pins bp k then 1 else 0) = card ?P + (if 0 < n then 1 else 0)"
    using assms(4) by simp
  then show ?thesis using c assms(3) by (auto simp: room_def split: if_splits)
qed

subsection \<open>Building a pool\<close>

lemma NewBufferPool_inv:
  assumes "NewBufferPool n = Some bp"
  shows "pool_inv pages ok bp" "files bp = []" "room bp = nat n" "all_quiet quiet bp"
proof -
  have bp: "bp = \<lparr>files = [], frames = replicate (nat n) NewPage_frame,
      meta = replicate (nat n) zero_meta, pageTable = Map.empty,
      freeList = [0..<nat n], replacer = NewLRUReplacer\<rparr>"
    using assms by (simp add: NewBufferPool_def split: if_splits)
  have "frames_ok {} bp"
    by (rule frames_okI) (auto simp: bp lru.empty_queue)
  then show "pool_inv pages ok bp" by (simp add: pool_inv_def pool_wf_def) (simp add: bp at_risk_def)
  show "files bp = []" "room bp = nat n" "all_quiet quiet bp"
    by (simp_all add: bp room_def pins_def all_quiet_def)
qed

lemma Register_view:
  assumes wf: "pool_inv pages ok bp" and d: "ok d" and n: "length (files bp) < 2 ^ 32"
    and r: "Register bp d = (fid, bp')"
  shows "pool_inv pages ok bp'" "unat fid = length (files bp)" "npages pages bp' fid = length (pages d)"
    "\<And>i. i \<noteq> fid \<Longrightarrow> npages pages bp' i = npages pages bp i"
    "\<And>k. valid_key pages bp k \<Longrightarrow> page_of pages bp' k = page_of pages bp k"
    "pins bp' = pins bp"
proof -
  have bp': "bp' = bp\<lparr>files := files bp @ [d]\<rparr>" and fid: "fid = of_nat (length (files bp))"
    using r by (auto simp: Register_def)
  show u: "unat fid = length (files bp)" using n unfolding fid by (intro unat_of_nat_small) simp
  show "npages pages bp' fid = length (pages d)" by (simp add: npages_def bp' u)
  show np: "npages pages bp' i = npages pages bp i" if "i \<noteq> fid" for i
  proof -
    have "unat i \<noteq> length (files bp)" using that u by (metis word_unat_eq_iff)
    then show ?thesis by (auto simp: npages_def bp' nth_append)
  qed
  have disk: "disk_of pages bp' k = disk_of pages bp k" if "valid_key pages bp k" for k
    using valid_keyD(1)[OF that] by (simp add: disk_of_def bp' nth_append)
  show "page_of pages bp' k = page_of pages bp k" if "valid_key pages bp k" for k
    using disk[OF that] by (simp add: page_of_def bp' split: option.split)
  show pin: "pins bp' = pins bp" by (simp add: pins_def bp' fun_eq_iff split: option.split)
  have w: "pool_wf pages ok {} bp" using wf by (simp add: pool_inv_def)
  have risk: "at_risk pages bp' k = at_risk pages bp k" for k
    using disk[OF pool_wfD(3)[OF w]] by (simp add: at_risk_def split: option.split) (simp add: bp')
  have "valid_key pages bp' k" if "valid_key pages bp k" for k
  proof -
    have "pk_file k \<noteq> fid" using valid_keyD(1)[OF that] u by auto
    then show ?thesis using that np[of "pk_file k"] by (simp add: valid_key_def)
  qed
  moreover have "frames_ok {} bp'" using pool_wfD(1)[OF w] by (simp add: frames_ok_def bp')
  ultimately show "pool_inv pages ok bp'"
    using w d pin risk by (auto simp: pool_inv_def pool_wf_def) (auto simp: bp')
qed

end
