(* ===== verification/Pool_Steps.thy ===== *)
theory Pool_Steps
  imports Buffer_Pool
begin

text \<open>
  The buffer pool as a state machine, and its properties. Each method is one step, so
  the relation \<open>pool_step\<close> covers all interleavings of callers at method granularity; the lock makes them so, except for
  \<^verbatim>\<open>Sync\<close> and \<^verbatim>\<open>numPages\<close>, which leave it and have a finer model in \<open>Pool_Threads\<close>. A caller
  obeys two rules the code's comments state: it writes only through pointers to pages it has
  pinned, and it reports a change when it releases the last pin of the page.
\<close>

inductive pool_step :: "'d diskManager \<Rightarrow> ('d \<Rightarrow> page list) \<Rightarrow> ('d \<Rightarrow> bool) \<Rightarrow>
    'd BufferPool \<Rightarrow> 'd BufferPool \<Rightarrow> bool" for D pages ok where
  step_register: "\<lbrakk>ok d; length (files bp) < 2 ^ 32; Register bp d = (fid, bp')\<rbrakk> \<Longrightarrow> pool_step D pages ok bp bp'"
| step_fetch: "\<lbrakk>unat file < length (files bp); fetch D bp file pid = Some (r, bp')\<rbrakk> \<Longrightarrow> pool_step D pages ok bp bp'"
| step_newPage: "\<lbrakk>unat file < length (files bp); newPage D bp file = Some (r', bp')\<rbrakk> \<Longrightarrow> pool_step D pages ok bp bp'"
| step_unpin: "\<lbrakk>pins bp (PageKey file pid) = 1 \<longrightarrow> d' \<or> \<not> at_risk pages bp (PageKey file pid);
     unpin bp file pid d' = Some (u, bp')\<rbrakk> \<Longrightarrow> pool_step D pages ok bp bp'"
| step_write: "\<lbrakk>pageTable bp k = Some f; 0 < pins bp k; length b = 8192\<rbrakk> \<Longrightarrow>
     pool_step D pages ok bp (write_frame bp f b)"
| step_flush: "flushPage D bp file pid = Some (u, bp') \<Longrightarrow> pool_step D pages ok bp bp'"
| step_flushAll: "FlushAll D ks bp = Some (u, bp') \<Longrightarrow> pool_step D pages ok bp bp'"
| step_sync: "bp_Sync D bp = (u, bp') \<Longrightarrow> pool_step D pages ok bp bp'"

inductive_cases pool_stepE: "pool_step D pages ok bp bp'"

context page_store
begin

lemma flushPage_view:
  assumes wf: "pool_inv pages ok bp"
  shows "\<exists>u bp'. flushPage D bp file pid = Some (u, bp') \<and> pool_inv pages ok bp' \<and> same_view pages bp bp'"
proof (cases "pageTable bp (PageKey file pid)")
  case None
  then show ?thesis using wf same_view_refl[of pages bp] by (simp add: flushPage_def)
next
  case (Some f)
  have eq: "flushPage D bp file pid = flushLocked D bp f" using Some by (simp add: flushPage_def)
  from wf Some show ?thesis by (cases rule: flushLocked_cases) (auto simp: eq)
qed

lemma pool_step_inv:
  assumes "pool_step D pages ok bp bp'" and inv: "pool_inv pages ok bp"
  shows "pool_inv pages ok bp'"
  using assms(1)
proof (cases rule: pool_step.cases)
  case (step_register d fid)
  then show ?thesis using Register_view(1)[OF inv] by blast
next
  case (step_fetch fid pid r)
  show ?thesis by (rule fetch_cases[OF inv step_fetch(1), of pid]) (use step_fetch(2) in auto)
next
  case (step_newPage fid r)
  show ?thesis by (rule newPage_cases[OF inv step_newPage(1)]) (use step_newPage(2) in auto)
next
  case (step_unpin fid pid d u)
  show ?thesis by (rule unpin_cases[OF inv step_unpin(1)]) (use step_unpin(2) inv in auto)
next
  case (step_write k f b)
  then show ?thesis using write_pinned(1)[of pages ok "{}" bp k f b] inv by (simp add: pool_inv_def)
next
  case (step_flush fid pid u)
  then show ?thesis using flushPage_view[OF inv, of fid pid] by auto
next
  case (step_flushAll ks u)
  then show ?thesis using FlushAll_spec[OF inv] by blast
next
  case (step_sync u)
  then show ?thesis using bp_Sync_view[OF inv] by blast
qed

lemma pool_reachable_inv:
  assumes "NewBufferPool n = Some bp0" "(pool_step D pages ok)\<^sup>*\<^sup>* bp0 bp"
  shows "pool_inv pages ok bp"
  using assms(2)
proof (induction rule: rtranclp_induct)
  case base
  show ?case by (rule NewBufferPool_inv(1)[OF assms(1)])
next
  case (step bp1 bp2)
  show ?case by (rule pool_step_inv[OF step(2,3)])
qed

end

lemma pool_partition:
  assumes "pool_inv pages ok bp" "f < length (frames bp)"
  shows "(f \<in> set (freeList bp) \<and> f \<notin> ran (pageTable bp) \<and> f \<notin> set (lru_queue (replacer bp))) \<or>
    (f \<notin> set (freeList bp) \<and> f \<in> ran (pageTable bp) \<and>
     (f \<in> set (lru_queue (replacer bp)) \<longleftrightarrow> pinCount (meta bp ! f) = 0))"
proof -
  have fok: "frames_ok {} bp" using assms(1) by (simp add: pool_inv_def pool_wf_def)
  have "f \<in> set (freeList bp) \<union> ran (pageTable bp)"
    using frames_okD(4)[OF fok] assms(2) by auto
  then show ?thesis using frames_okD(6)[OF fok] frames_okD(8)[OF fok, of f] by auto
qed

subsection \<open>A concrete pool\<close>

definition demo_pool :: "DiskManager BufferPool" where
  \<comment> \<open>one frame, one registered file of two pages\<close>
  "demo_pool = snd (Register (the (NewBufferPool 1)) two_pages)"

lemma new_pool_1: "NewBufferPool 1 = Some (the (NewBufferPool 1))"
  by (simp add: NewBufferPool_def)

lemma demo_pool:
  "pool_inv disk_pages disk_inv demo_pool" "length (files demo_pool) = 1" "npages disk_pages demo_pool 0 = 2"
  "all_quiet disk_quiet demo_pool" "room demo_pool = 1" "pins demo_pool = (\<lambda>_. 0)"
  "valid_key disk_pages demo_pool (PageKey 0 1)" "pageTable demo_pool = Map.empty"
proof -
  let ?bp = "the (NewBufferPool 1) :: DiskManager BufferPool"
  note new = NewBufferPool_inv[OF new_pool_1, where 'a = DiskManager]
  have r: "Register ?bp two_pages = (0, demo_pool)"
    by (simp add: Register_def demo_pool_def new(2))
  note reg = Register_view[where ok = disk_inv and pages = disk_pages, OF new(1) two_pages(1) _ r]
  show "pool_inv disk_pages disk_inv demo_pool" using reg(1) new(2) by simp
  show np: "npages disk_pages demo_pool 0 = 2" using reg(3) new(2) by (simp add: two_pages_def)
  show "length (files demo_pool) = 1" "all_quiet disk_quiet demo_pool"
    using new(2) two_pages(2) by (simp_all add: demo_pool_def Register_def all_quiet_def)
  show "pageTable demo_pool = Map.empty" by (simp add: demo_pool_def Register_def NewBufferPool_def)
  then show "pins demo_pool = (\<lambda>_. 0)" by (simp add: pins_def fun_eq_iff)
  then show "room demo_pool = 1" by (simp add: room_def demo_pool_def Register_def NewBufferPool_def)
  show "valid_key disk_pages demo_pool (PageKey 0 1)" by (simp add: valid_key_def np)
qed

subsection \<open>Properties\<close>

text \<open>C1. In every state reachable from a new pool by any sequence of operations of callers that keep
  the pin rules, and whatever the files answer, each frame is in exactly one of the three states
  the code's comment names: free, resident and pinned, or resident, idle and known to the
  replacer.\<close>

theorem pool_three_states:
  assumes "NewBufferPool n = Some bp0"
    and "(pool_step disk_manager disk_pages disk_inv)\<^sup>*\<^sup>* bp0 bp" and "f < length (frames bp)"
  shows "(f \<in> set (freeList bp) \<and> f \<notin> ran (pageTable bp) \<and> f \<notin> set (lru_queue (replacer bp))) \<or>
    (f \<notin> set (freeList bp) \<and> f \<in> ran (pageTable bp) \<and> 0 < pinCount (meta bp ! f) \<and>
     f \<notin> set (lru_queue (replacer bp))) \<or>
    (f \<notin> set (freeList bp) \<and> f \<in> ran (pageTable bp) \<and> pinCount (meta bp ! f) = 0 \<and>
     f \<in> set (lru_queue (replacer bp)))"
  using pool_partition[OF disk.pool_reachable_inv[OF assms(1,2)] assms(3)] by auto

theorem pool_three_states_witness:
  "\<exists>bp. (pool_step disk_manager disk_pages disk_inv)\<^sup>*\<^sup>* (the (NewBufferPool 1)) bp \<and>
     files bp \<noteq> [] \<and> (0 \<in> set (freeList bp) \<or> 0 \<in> ran (pageTable bp))"
proof -
  have "Register (the (NewBufferPool 1)) two_pages = (0, demo_pool)"
    by (simp add: Register_def demo_pool_def NewBufferPool_inv(2)[OF new_pool_1])
  then have "pool_step disk_manager disk_pages disk_inv (the (NewBufferPool 1)) demo_pool"
    using NewBufferPool_inv(2)[OF new_pool_1, where 'a = DiskManager]
    by (intro step_register[of disk_inv two_pages]) (simp_all add: two_pages(1))
  then have r: "(pool_step disk_manager disk_pages disk_inv)\<^sup>*\<^sup>* (the (NewBufferPool 1)) demo_pool" by simp
  have "0 < length (frames demo_pool)" by (simp add: demo_pool_def Register_def NewBufferPool_def)
  from pool_three_states[OF new_pool_1 r this] r show ?thesis
    using demo_pool(2) by (intro exI[of _ demo_pool]) auto
qed

text \<open>C2. A fetch never panics and keeps the invariant. When it succeeds the frame it returns holds
  the current bytes of the page, the page has one more pin, and no page, no other pin and no
  pending change of any file is disturbed, although another page may have been written back and
  evicted. When it fails nothing a caller can see has changed.\<close>

theorem fetch_serves_page:
  assumes "pool_inv disk_pages disk_inv bp" "unat fid < length (files bp)"
  shows "\<exists>r bp'. fetch disk_manager bp fid pid = Some (r, bp') \<and> pool_inv disk_pages disk_inv bp' \<and>
    (case r of
       Inr f \<Rightarrow> valid_key disk_pages bp (PageKey fid pid) \<and> pageTable bp' (PageKey fid pid) = Some f \<and>
         frames bp' ! f = page_of disk_pages bp (PageKey fid pid) \<and>
         moves disk_pages bp bp' (npages disk_pages bp) (page_of disk_pages bp)
           ((pins bp)(PageKey fid pid := Suc (pins bp (PageKey fid pid)))) (at_risk disk_pages bp)
     | Inl e \<Rightarrow> same_view disk_pages bp bp')"
proof (rule disk.fetch_cases[OF assms, of pid])
  fix f bp'
  assume a: "fetch disk_manager bp fid pid = Some (Inr f, bp')" "pool_inv disk_pages disk_inv bp'"
    "valid_key disk_pages bp (PageKey fid pid)" "pageTable bp' (PageKey fid pid) = Some f"
    "moves disk_pages bp bp' (npages disk_pages bp) (page_of disk_pages bp)
      ((pins bp)(PageKey fid pid := Suc (pins bp (PageKey fid pid)))) (at_risk disk_pages bp)"
  then have "frames bp' ! f = page_of disk_pages bp (PageKey fid pid)"
    by (simp add: moves_frame valid_key_def)
  then show ?thesis using a by auto
qed auto

theorem fetch_serves_page_witness:
  "\<exists>r bp'. fetch disk_manager demo_pool 0 1 = Some (r, bp') \<and> pool_inv disk_pages disk_inv bp' \<and>
    (\<forall>f. r = Inr f \<longrightarrow> frames bp' ! f = page_of disk_pages demo_pool (PageKey 0 1))"
  using fetch_serves_page[OF demo_pool(1), of 0 1] demo_pool(2) by (fastforce split: sum.splits)

text \<open>C3. Allocating a page through the pool returns the next page id of the file, pinned once and
  blank in its frame as on disk; it keeps every other page, and a failed allocation changes nothing
  a caller can see, in particular not the length of any file.\<close>

theorem newPage_appends:
  assumes "pool_inv disk_pages disk_inv bp" "unat fid < length (files bp)"
  shows "\<exists>r bp'. newPage disk_manager bp fid = Some (r, bp') \<and> pool_inv disk_pages disk_inv bp' \<and>
    (case r of
       Inr (f, pid) \<Rightarrow> unat pid = npages disk_pages bp fid \<and> pageTable bp' (PageKey fid pid) = Some f \<and>
         moves disk_pages bp bp' ((npages disk_pages bp)(fid := Suc (unat pid)))
           ((page_of disk_pages bp)(PageKey fid pid := NewPage_frame))
           ((pins bp)(PageKey fid pid := 1)) (at_risk disk_pages bp)
     | Inl e \<Rightarrow> same_view disk_pages bp bp')"
  by (rule disk.newPage_cases[OF assms]) auto

theorem newPage_appends_witness:
  "\<exists>r bp'. newPage disk_manager demo_pool 0 = Some (r, bp') \<and>
    (\<forall>f pid. r = Inr (f, pid) \<longrightarrow> unat pid = 2 \<and> npages disk_pages bp' 0 = 3)"
proof -
  obtain r bp' where r: "newPage disk_manager demo_pool 0 = Some (r, bp')"
    "case r of Inr (f, pid) \<Rightarrow> unat pid = 2 \<and>
         moves disk_pages demo_pool bp' ((npages disk_pages demo_pool)(0 := Suc (unat pid)))
           ((page_of disk_pages demo_pool)(PageKey 0 pid := NewPage_frame))
           ((pins demo_pool)(PageKey 0 pid := 1)) (at_risk disk_pages demo_pool)
     | Inl e \<Rightarrow> True"
    using newPage_appends[OF demo_pool(1), of 0] demo_pool(2,3) by (fastforce split: sum.splits)
  then show ?thesis by (auto simp: moves_def)
qed

text \<open>C4. Releasing a pin removes exactly one pin; the change reported is remembered, an unreported
  earlier one is not masked, and no byte of any page changes. Releasing a page that is not
  resident or not pinned is an error that touches no state at all.\<close>

theorem unpin_releases:
  assumes "pool_inv disk_pages disk_inv bp"
    and "pins bp (PageKey fid pid) = 1 \<longrightarrow> d \<or> \<not> at_risk disk_pages bp (PageKey fid pid)"
  shows "if pins bp (PageKey fid pid) = 0 then \<exists>e. unpin bp fid pid d = Some (Inl e, bp)
    else \<exists>bp'. unpin bp fid pid d = Some (Inr (), bp') \<and> pool_inv disk_pages disk_inv bp' \<and>
      moves disk_pages bp bp' (npages disk_pages bp) (page_of disk_pages bp)
        ((pins bp)(PageKey fid pid := pins bp (PageKey fid pid) - 1))
        ((at_risk disk_pages bp)(PageKey fid pid := at_risk disk_pages bp (PageKey fid pid) \<and> \<not> d))"
  by (rule disk.unpin_cases[OF assms]) auto

theorem unpin_releases_witness:
  "\<exists>f bp1 bp2. fetch disk_manager demo_pool 0 1 = Some (Inr f, bp1) \<and> unpin bp1 0 1 True = Some (Inr (), bp2) \<and> pins bp2 (PageKey 0 1) = 0 \<and>
    (\<exists>e. unpin bp2 0 1 True = Some (Inl e, bp2))"
proof -
  have fl: "unat (0 :: FileID) < length (files demo_pool)" using demo_pool(2) by simp
  obtain f bp1 where f: "fetch disk_manager demo_pool 0 1 = Some (Inr f, bp1)" "pool_inv disk_pages disk_inv bp1" "pins bp1 (PageKey 0 1) = 1"
    by (rule disk.fetch_cases[OF demo_pool(1) fl, of 1])
      (use demo_pool(4-7) card_pinned(2)[OF demo_pool(1)] in \<open>auto simp: moves_def\<close>)
  obtain bp2 where u: "unpin bp1 0 1 True = Some (Inr (), bp2)" "pool_inv disk_pages disk_inv bp2" "pins bp2 (PageKey 0 1) = 0"
    using unpin_releases[OF f(2), of 0 1 True] f(3) by (auto simp: moves_def)
  show ?thesis using unpin_releases[OF u(2), of 0 1 True] f(1) u by auto
qed

lemma fetch_full:
  assumes "pool_inv disk_pages disk_inv bp" "pageTable bp (PageKey fid pid) = None" "room bp = 0"
  shows "fetch disk_manager bp fid pid = Some (Inl ErrNoFreeFrame, bp)"
proof -
  have "freeList bp = []" "lru_queue (replacer bp) = []" using card_pinned(2)[OF assms(1)] assms(3) by auto
  moreover have "lru_inv (replacer bp)" using assms(1) by (auto simp: pool_inv_def pool_wf_def frames_ok_def)
  ultimately have "acquireFrame disk_manager bp = Some (Inl ErrNoFreeFrame, bp)"
    using lru.victim_none[of "replacer bp"] by (simp add: acquireFrame_def)
  then show ?thesis using assms(2) by (simp add: fetch_def)
qed

lemma fetch_out_of_range:
  assumes inv: "pool_inv disk_pages disk_inv bp" and q: "all_quiet disk_quiet bp" and fl: "unat fid < length (files bp)"
    and k: "\<not> valid_key disk_pages bp (PageKey fid pid)" and room: "0 < room bp"
  shows "\<exists>bp'. fetch disk_manager bp fid pid = Some (Inl (Wrap ''buffer: load'' (Errorf ''disk: read page out of range'')), bp')"
proof -
  have w: "pool_wf disk_pages disk_inv {} bp" using inv by (simp add: pool_inv_def)
  have none: "pageTable bp (PageKey fid pid) = None" using pool_wfD(3)[OF w, of "PageKey fid pid"] k by fastforce
  from w show ?thesis
  proof (cases rule: disk.acquireFrame_cases)
    case full
    then show ?thesis using card_pinned(2)[OF inv] room by simp
  next
    case (torn e bp')
    then show ?thesis using q by simp
  next
    case (got f bp1)
    note fok = pool_wfD(1)[OF got(2)]
    have f: "f < length (frames bp1)" using frames_okD(4)[OF fok] by auto
    have "npages disk_pages bp1 fid = npages disk_pages bp fid" "length (files bp1) = length (files bp)" using got(3) by (simp_all add: same_view_def)
    then have "numPages (files bp1 ! unat fid) \<le> pid" "unat fid < length (files bp1)"
      using k fl by (simp_all add: valid_key_def npages_def disk_pages_def word_le_nat_alt)
    then show ?thesis using none got(1) f frames_okD(10)[OF fok f]
      by (simp add: fetch_def idx_def disk_manager_def ReadPage_def layout_simps)
  qed
qed

text \<open>C20. How a fetch ends when no I/O failure is pending: with \<^verbatim>\<open>ErrNoFreeFrame\<close>, and nothing changed, exactly when the page is not resident and every frame is
  pinned, whether or not the file has the page; otherwise with the disk manager's range error, wrapped, when the file has no such page; and otherwise it succeeds.\<close>

theorem no_free_frame_iff:
  assumes "pool_inv disk_pages disk_inv bp" "all_quiet disk_quiet bp" "unat fid < length (files bp)"
  shows "if pageTable bp (PageKey fid pid) = None \<and> room bp = 0 then fetch disk_manager bp fid pid = Some (Inl ErrNoFreeFrame, bp)
    else if valid_key disk_pages bp (PageKey fid pid) then \<exists>f bp'. fetch disk_manager bp fid pid = Some (Inr f, bp')
    else \<exists>bp'. fetch disk_manager bp fid pid = Some (Inl (Wrap ''buffer: load'' (Errorf ''disk: read page out of range'')), bp')"
proof -
  have w: "pool_wf disk_pages disk_inv {} bp" using assms(1) by (simp add: pool_inv_def)
  have "\<exists>f bp'. fetch disk_manager bp fid pid = Some (Inr f, bp')"
    if "valid_key disk_pages bp (PageKey fid pid)" "\<not> (pageTable bp (PageKey fid pid) = None \<and> room bp = 0)"
    by (rule disk.fetch_cases[OF assms(1,3), of pid]) (use that assms(2) card_pinned(2)[OF assms(1)] in auto)
  moreover have "0 < room bp" if "\<not> valid_key disk_pages bp (PageKey fid pid)" "\<not> (pageTable bp (PageKey fid pid) = None \<and> room bp = 0)"
    using that pool_wfD(3)[OF w, of "PageKey fid pid"] by fastforce
  ultimately show ?thesis using fetch_full[OF assms(1), of fid pid] fetch_out_of_range[OF assms, of pid] by auto
qed

theorem no_free_frame_iff_witness:
  "(\<exists>f bp'. fetch disk_manager demo_pool 0 1 = Some (Inr f, bp')) \<and>
   (\<exists>bp'. fetch disk_manager demo_pool 0 7 = Some (Inl (Wrap ''buffer: load'' (Errorf ''disk: read page out of range'')), bp'))"
  using no_free_frame_iff[OF demo_pool(1,4), of 0 1] no_free_frame_iff[OF demo_pool(1,4), of 0 7] demo_pool(2,3,5)
  by (simp add: valid_key_def)

lemma sync_files_durable:
  assumes "sync_files disk_manager ds = (Inr (), ds')" "d \<in> set ds'"
  shows "durable (dm_file d) = content (dm_file d)"
  using assms
proof (induction ds arbitrary: ds')
  case (Cons d0 ds)
  obtain r1 d1 where s: "disk_Sync d0 = (r1, d1)" by fastforce
  then have "durable (dm_file d1) = content (dm_file d1)" if "r1 = Inr ()"
    using that by (auto simp: disk_Sync_def File_Sync_def next_outcome_def split: list.splits io_outcome.splits)
  then show ?case
    using Cons s by (cases r1) (auto simp: disk_manager_def split: prod.splits)
qed simp

text \<open>After a flush of every resident page the files hold what the callers see.\<close>

lemma flushed_disk:
  assumes inv: "pool_inv disk_pages disk_inv bp" and risk: "\<And>k. \<not> at_risk disk_pages bp k"
    and ks: "dom (pageTable bp) \<subseteq> set ks" and fl: "FlushAll disk_manager ks bp = Some (Inr (), bp1)"
    and k: "valid_key disk_pages bp k"
  shows "disk_of disk_pages bp1 k = page_of disk_pages bp k"
proof -
  have fs: "same_view disk_pages bp bp1" "pageTable bp1 = pageTable bp"
    "\<And>k f. k \<in> set ks \<Longrightarrow> pageTable bp k = Some f \<Longrightarrow> \<not> dirty (meta bp1 ! f)"
    using disk.FlushAll_spec[OF inv fl] by auto
  have "page_of disk_pages bp1 k = page_of disk_pages bp k" using fs(1) k by (simp add: same_view_def)
  moreover have "page_of disk_pages bp1 k = disk_of disk_pages bp1 k"
  proof (cases "pageTable bp k")
    case (Some f)
    then have "\<not> dirty (meta bp1 ! f)" "\<not> at_risk disk_pages bp1 k"
      using fs(3) ks risk same_view_eqs(3)[OF fs(1)] by (auto simp: domI subset_iff)
    then show ?thesis using Some fs(2) by (simp add: page_of_def at_risk_def)
  qed (simp add: page_of_def fs(2))
  ultimately show ?thesis by simp
qed

lemma checkpoint_page:
  assumes inv: "pool_inv disk_pages disk_inv bp" and risk: "\<And>k. \<not> at_risk disk_pages bp k"
    and ks: "dom (pageTable bp) \<subseteq> set ks" and fl: "FlushAll disk_manager ks bp = Some (Inr (), bp1)"
    and sy: "bp_Sync disk_manager bp1 = (Inr (), bp2)" and k: "valid_key disk_pages bp k"
  shows "subslice (unat (pk_pid k) * 8192) (unat (pk_pid k) * 8192 + 8192)
      (durable (dm_file (files bp2 ! unat (pk_file k)))) = page_of disk_pages bp k"
proof -
  let ?i = "unat (pk_file k)" and ?p = "unat (pk_pid k)"
  have inv1: "pool_inv disk_pages disk_inv bp1" and sv1: "same_view disk_pages bp bp1"
    using disk.FlushAll_spec[OF inv fl] by auto
  have k1: "valid_key disk_pages bp1 k" using k same_view_valid[OF sv1] by simp
  note vk = valid_keyD[OF k1]
  obtain ds where ds: "sync_files disk_manager (files bp1) = (Inr (), ds)" "files bp2 = ds"
    using sy by (auto simp: bp_Sync_def split: prod.splits)
  have "\<forall>d \<in> set (files bp1). disk_inv d" using inv1 by (simp add: pool_inv_def pool_wf_def)
  then have sp: "length ds = length (files bp1)" "map disk_pages ds = map disk_pages (files bp1)"
    using disk.sync_files_pages[OF _ ds(1)] by auto
  have pg: "disk_pages (ds ! ?i) = disk_pages (files bp1 ! ?i)"
    using arg_cong[OF sp(2), of "\<lambda>l. l ! ?i"] vk(1) sp(1) by simp
  have "durable (dm_file (ds ! ?i)) = content (dm_file (ds ! ?i))"
    using sync_files_durable[OF ds(1)] vk(1) sp(1) by simp
  then have "subslice (?p * 8192) (?p * 8192 + 8192) (durable (dm_file (files bp2 ! ?i))) =
      disk_page (ds ! ?i) ?p" by (simp add: ds(2) disk_page_def)
  also have "\<dots> = disk_pages (ds ! ?i) ! ?p"
    using vk(2) arg_cong[OF pg, of length] by simp
  also have "\<dots> = disk_of disk_pages bp1 k" by (simp add: disk_of_def pg)
  finally show ?thesis using flushed_disk[OF inv risk ks fl k] by simp
qed

text \<open>C5. A checkpoint makes the engine's state durable: when every change has been reported, and
  \<^verbatim>\<open>FlushAll\<close>, in whatever order it walks the page table, and \<^verbatim>\<open>Sync\<close> both return without an error,
  then the device holds the current bytes of every page of every file.\<close>

theorem checkpoint_durable:
  assumes inv: "pool_inv disk_pages disk_inv bp" and risk: "\<And>k. \<not> at_risk disk_pages bp k"
    and ks: "dom (pageTable bp) \<subseteq> set ks" and fl: "FlushAll disk_manager ks bp = Some (Inr (), bp1)"
    and sy: "bp_Sync disk_manager bp1 = (Inr (), bp2)" and k: "valid_key disk_pages bp k"
  shows "subslice (unat (pk_pid k) * 8192) (unat (pk_pid k) * 8192 + 8192)
      (durable (dm_file (files bp2 ! unat (pk_file k)))) = page_of disk_pages bp k"
  by (rule checkpoint_page[OF assms])

theorem checkpoint_durable_witness:
  "\<exists>bp2. bp_Sync disk_manager demo_pool = (Inr (), bp2) \<and>
    subslice 8192 16384 (durable (dm_file (files bp2 ! 0))) = page_of disk_pages demo_pool (PageKey 0 1)"
proof -
  have f: "files demo_pool = [two_pages]"
    using NewBufferPool_inv(2)[OF new_pool_1, where 'a = DiskManager] by (simp add: demo_pool_def Register_def)
  have "\<exists>bp2. bp_Sync disk_manager demo_pool = (Inr (), bp2)"
    using two_pages(2) by (simp add: bp_Sync_def f disk_manager_def disk_Sync_def File_quiet disk_quiet_def)
  then obtain bp2 where s: "bp_Sync disk_manager demo_pool = (Inr (), bp2)" ..
  show ?thesis
    using checkpoint_durable[OF demo_pool(1) _ _ _ s demo_pool(7), of "[]"] demo_pool(8) s
    by (simp add: at_risk_def)
qed

text \<open>A pool of two idle pages, the older one dirty, over a file whose next write fails.\<close>

definition failing_pool :: "DiskManager BufferPool" where
  "failing_pool =
     \<lparr>files = [two_pages\<lparr>dm_file := (dm_file two_pages)\<lparr>outcomes := [IoFail 0]\<rparr>\<rparr>],
      frames = replicate 2 NewPage_frame,
      meta = [\<lparr>mkey = PageKey 0 0, pinCount = 0, dirty = True\<rparr>, \<lparr>mkey = PageKey 0 1, pinCount = 0, dirty = False\<rparr>],
      pageTable = [PageKey 0 0 \<mapsto> 0, PageKey 0 1 \<mapsto> 1], freeList = [],
      replacer = lru_Unpin (lru_Unpin NewLRUReplacer 0) 1\<rparr>"

lemma failing_replacer:
  "lru_Victim (replacer failing_pool) =
     ((0, True), \<lparr>lru_order = [(1, 1)], lru_index = Map.empty(1 \<mapsto> 1), next_elem = 2\<rparr>)"
  by (auto simp: failing_pool_def lru_Victim_def lru_Unpin_def NewLRUReplacer_def list_Remove_def)

text \<open>When writing back a dirty victim fails, the page stays resident and dirty, but the pool is
  not exactly as it was: the victim moves from the back of the eviction order to its front, so the
  next eviction takes another page.\<close>

theorem failed_flush_reorders:
  "lru_queue (replacer failing_pool) = [1, 0] \<and>
   (\<exists>e bp'. acquireFrame disk_manager failing_pool = Some (Inl e, bp') \<and>
      pageTable bp' = pageTable failing_pool \<and> meta bp' = meta failing_pool \<and>
      lru_queue (replacer bp') = [0, 1])"
proof -
  have "acquireFrame disk_manager failing_pool = Some (Inl (Wrap ''buffer: flush victim'' (Wrap ''disk: write page'' EIO)),
      failing_pool\<lparr>files := [two_pages], replacer := \<lparr>lru_order = [(2, 0), (1, 1)],
        lru_index = [1 \<mapsto> 1, 0 \<mapsto> 2], next_elem = 3\<rparr>\<rparr>)"
    by (simp add: acquireFrame_def failing_replacer)
      (simp add: failing_pool_def idx_def disk_manager_def WritePage_def layout_simps two_pages_def
        File_WriteAt_def next_outcome_def lru_Unpin_def Let_def)
  then show ?thesis
    by (simp add: lru_queue_def) (simp add: failing_pool_def lru_Unpin_def NewLRUReplacer_def)
qed

end
