(* ===== verification/Pool_Threads.thy ===== *)
theory Pool_Threads
  imports Pool_Steps
begin

text \<open>
  The parts of the buffer pool that run outside its mutex. Every method of \<^verbatim>\<open>buffer_pool.go\<close> holds the lock from its first line to its
  return, except two: \<^verbatim>\<open>Sync\<close> copies the list of files under the lock and calls \<^verbatim>\<open>fsync\<close> on one file after the other without it, and \<^verbatim>\<open>numPages\<close> picks the
  disk manager under the lock and asks it for the count without it. Here any number of goroutines are inside such a call, and between two of its
  parts any method of the pool may run (\<open>pool_step\<close>). The list of files only grows, so the managers of a snapshot are the
  first files of the pool and a snapshot is their number.

  An \<^verbatim>\<open>fsync\<close> is not one moment: it lasts while other goroutines run whole methods, which write to the file it is syncing. The device gets the bytes of a file one at a time, in any
  order, at any time, and whether or not somebody asked for it (\<open>device_step\<close>); an \<^verbatim>\<open>fsync\<close> that succeeds returns when every byte the file had at its
  call has reached the device since. No method of the pool writes a byte of a file twice, so a byte that reaches the device while a method runs is the one before
  the method or the one after it, and its step is taken before or after.
\<close>

subsection \<open>Goroutines in unlocked parts\<close>

datatype unlocked_call =
    Elsewhere
  | Sync_Files nat nat
  | Fsync nat nat "nat set"
  | Sync_Returned "err + unit"
  | numPages_File FileID
  | numPages_Returned FileID PageID

record 'd pool_threads =
  pool :: "'d BufferPool"
  unlocked :: "nat \<Rightarrow> unlocked_call"

fun returned :: "unlocked_call \<Rightarrow> bool" where
  "returned (Sync_Files _ _) = False"
| "returned (Fsync _ _ _) = False"
| "returned (numPages_File _) = False"
| "returned _ = True"

abbreviation to :: "nat \<Rightarrow> unlocked_call \<Rightarrow> 'd pool_threads \<Rightarrow> 'd pool_threads" where
  "to t c s \<equiv> s\<lparr>unlocked := (unlocked s)(t := c)\<rparr>"

abbreviation os_of :: "DiskManager pool_threads \<Rightarrow> nat \<Rightarrow> os_file" where
  "os_of s i \<equiv> dm_file (files (pool s) ! i)"

text \<open>\<open>Fsync i n J\<close>: the call is in the \<^verbatim>\<open>fsync\<close> of file \<open>i\<close> of \<open>n\<close>, and the bytes at the offsets \<open>J\<close> have still to reach the device.\<close>

inductive bp_Sync_step :: "nat \<Rightarrow> DiskManager pool_threads \<Rightarrow> DiskManager pool_threads \<Rightarrow> bool" for t s where
  sync_snapshot: "returned (unlocked s t) \<Longrightarrow> bp_Sync_step t s (to t (Sync_Files 0 (length (files (pool s)))) s)"
| sync_call: "\<lbrakk>unlocked s t = Sync_Files i n; i < n\<rbrakk> \<Longrightarrow> bp_Sync_step t s (to t (Fsync i n {..<length (content (os_of s i))}) s)"
| sync_file: "unlocked s t = Fsync i n {} \<Longrightarrow> bp_Sync_step t s (to t (Sync_Files (Suc i) n) s)"
| sync_error: "unlocked s t = Fsync i n J \<Longrightarrow> bp_Sync_step t s (to t (Sync_Returned (Inl EIO)) s)"
| sync_return: "unlocked s t = Sync_Files n n \<Longrightarrow> bp_Sync_step t s (to t (Sync_Returned (Inr ())) s)"

inductive numPages_step :: "'d diskManager \<Rightarrow> nat \<Rightarrow> 'd pool_threads \<Rightarrow> 'd pool_threads \<Rightarrow> bool" for D t s where
  count_file: "\<lbrakk>returned (unlocked s t); unat file < length (files (pool s))\<rbrakk> \<Longrightarrow> numPages_step D t s (to t (numPages_File file) s)"
| count_return: "unlocked s t = numPages_File file \<Longrightarrow>
     numPages_step D t s (to t (numPages_Returned file (dmNumPages D (files (pool s) ! unat file))) s)"

text \<open>The device: the byte at offset \<open>x\<close> of file \<open>i\<close>, as the file has it now, reaches it.\<close>

definition write_back :: "nat \<Rightarrow> DiskManager \<Rightarrow> DiskManager" where
  "write_back x d = d\<lparr>dm_file := (dm_file d)\<lparr>durable := write_at x [content (dm_file d) ! x] (durable (dm_file d))\<rparr>\<rparr>"

fun on_device :: "nat \<Rightarrow> nat \<Rightarrow> unlocked_call \<Rightarrow> unlocked_call" where
  "on_device i x (Fsync i' n J) = Fsync i' n (if i' = i then J - {x} else J)"
| "on_device i x c = c"

inductive device_step :: "DiskManager pool_threads \<Rightarrow> DiskManager pool_threads \<Rightarrow> bool" for s where
  byte_out: "\<lbrakk>i < length (files (pool s)); x < length (content (os_of s i))\<rbrakk> \<Longrightarrow>
     device_step s (s\<lparr>pool := (pool s)\<lparr>files := (files (pool s))[i := write_back x (files (pool s) ! i)]\<rparr>, unlocked := on_device i x \<circ> unlocked s\<rparr>)"

text \<open>A step of the whole: a part of an unlocked call, the device, or a method under the lock.\<close>

inductive shared_step :: "DiskManager pool_threads \<Rightarrow> DiskManager pool_threads \<Rightarrow> bool" for s where
  shared_sync: "bp_Sync_step t s s' \<Longrightarrow> shared_step s s'"
| shared_count: "numPages_step disk_manager t s s' \<Longrightarrow> shared_step s s'"
| shared_device: "device_step s s' \<Longrightarrow> shared_step s s'"
| shared_locked: "pool_step disk_manager disk_pages disk_inv (pool s) bp' \<Longrightarrow> shared_step s (s\<lparr>pool := bp'\<rparr>)"

subsection \<open>What becomes of a file\<close>

text \<open>How the managers of the files change: a relation that holds across every call of a manager but \<^verbatim>\<open>Sync\<close>, and so across every method under the
  lock.\<close>

definition evolves :: "('d \<Rightarrow> 'd \<Rightarrow> bool) \<Rightarrow> 'd list \<Rightarrow> 'd list \<Rightarrow> bool" where
  "evolves Q ds ds' \<longleftrightarrow> length ds \<le> length ds' \<and> (\<forall>i < length ds. Q (ds ! i) (ds' ! i))"

locale file_history =
  fixes D :: "'d diskManager" and Q :: "'d \<Rightarrow> 'd \<Rightarrow> bool"
  assumes history_refl: "Q d d"
    and history_trans: "Q d d' \<Longrightarrow> Q d' d'' \<Longrightarrow> Q d d''"
    and history_read: "dmReadPage D d pid dst = (r, dst', d') \<Longrightarrow> Q d d'"
    and history_write: "dmWritePage D d pid src = (r, d') \<Longrightarrow> Q d d'"
    and history_alloc: "dmAllocatePage D d = (a, d') \<Longrightarrow> Q d d'"
begin

lemma evolves_refl [simp]: "evolves Q ds ds"
  by (simp add: evolves_def history_refl)

lemma evolves_trans: "evolves Q ds ds' \<Longrightarrow> evolves Q ds' ds'' \<Longrightarrow> evolves Q ds ds''"
  by (auto simp: evolves_def intro: history_trans order_trans)

lemma evolves_append: "evolves Q ds (ds @ ds')"
  by (simp add: evolves_def nth_append history_refl)

lemma evolves_update: "Q (ds ! i) d \<Longrightarrow> evolves Q ds (ds[i := d])"
  by (cases "i < length ds") (auto simp: evolves_def nth_list_update history_refl)

lemma flushLocked_files: "flushLocked D bp f = Some (r, bp') \<Longrightarrow> evolves Q (files bp) (files bp')"
  by (auto simp: flushLocked_def Let_def idx_Some_iff bind_eq_Some_conv split: if_splits prod.splits sum.splits intro!: evolves_update dest: history_write)

lemma acquireFrame_files: "acquireFrame D bp = Some (r, bp') \<Longrightarrow> evolves Q (files bp) (files bp')"
  by (auto simp: acquireFrame_def Let_def idx_Some_iff bind_eq_Some_conv split: if_splits prod.splits sum.splits intro!: evolves_update dest: history_write)

lemma fetch_files:
  assumes "fetch D bp file pid = Some (r, bp')" shows "evolves Q (files bp) (files bp')"
proof (cases "pageTable bp (PageKey file pid)")
  case None
  then obtain r1 bp1 where a: "acquireFrame D bp = Some (r1, bp1)" using assms by (auto simp: fetch_def Let_def bind_eq_Some_conv)
  have "evolves Q (files bp1) (files bp')" using assms None a
    by (auto simp: fetch_def Let_def idx_Some_iff bindFrame_def bind_eq_Some_conv split: prod.splits sum.splits intro!: evolves_update dest: history_read)
  then show ?thesis using acquireFrame_files[OF a] by (rule evolves_trans[rotated])
qed (use assms in \<open>auto simp: fetch_def Let_def bind_eq_Some_conv\<close>)

lemma newPage_files:
  assumes "newPage D bp file = Some (r, bp')" shows "evolves Q (files bp) (files bp')"
proof -
  obtain r1 bp1 where a: "acquireFrame D bp = Some (r1, bp1)" using assms by (auto simp: newPage_def bind_eq_Some_conv)
  have "evolves Q (files bp1) (files bp')" using assms a
    by (auto simp: newPage_def Let_def idx_Some_iff bindFrame_def bind_eq_Some_conv split: prod.splits sum.splits intro!: evolves_update dest: history_alloc)
  then show ?thesis using acquireFrame_files[OF a] by (rule evolves_trans[rotated])
qed

lemma FlushAll_files: "FlushAll D ks bp = Some (r, bp') \<Longrightarrow> evolves Q (files bp) (files bp')"
proof (induction ks arbitrary: bp)
  case (Cons k ks)
  show ?case
  proof (cases "pageTable bp k")
    case (Some f)
    then obtain r1 bp1 where "flushLocked D bp f = Some (r1, bp1)" using Cons.prems by (auto simp: bind_eq_Some_conv)
    then show ?thesis using Cons Some flushLocked_files[of bp f r1 bp1] by (auto split: sum.splits intro: evolves_trans)
  qed (use Cons in simp)
qed simp

lemma pool_step_files:
  assumes "pool_step D pages ok bp bp'"
  shows "evolves Q (files bp) (files bp') \<or> (\<exists>u. bp_Sync D bp = (u, bp'))"
  using assms
proof cases
  case (step_register d fid)
  then show ?thesis using evolves_append by (auto simp: Register_def)
next
  case (step_unpin fid pid d u)
  then have "files bp' = files bp" by (auto simp: unpin_def Let_def bind_eq_Some_conv split: option.splits if_splits)
  then show ?thesis by simp
next
  case (step_flush fid pid u)
  then show ?thesis using flushLocked_files by (auto simp: flushPage_def split: option.splits)
qed (auto simp: write_frame_def dest: fetch_files newPage_files FlushAll_files)

end

text \<open>No call but \<^verbatim>\<open>Sync\<close> changes what is on the device, and no call makes a file shorter.\<close>

lemmas disk_call_defs = disk_manager_def ReadPage_def WritePage_def AllocatePage_def File_ReadAt_def File_WriteAt_def next_outcome_def

lemma write_at_length: "length c \<le> length (write_at off bs c)"
  by (simp add: write_at_def overwrite_def)

interpretation device: file_history disk_manager "\<lambda>d d'. durable (dm_file d') = durable (dm_file d)"
  by unfold_locales (auto simp: disk_call_defs Let_def split: if_splits list.splits io_outcome.splits sum.splits prod.splits)

interpretation growth: file_history disk_manager "\<lambda>d d'. numPages d \<le> numPages d' \<and> length (content (dm_file d)) \<le> length (content (dm_file d'))"
proof unfold_locales
  show "numPages d \<le> numPages d' \<and> length (content (dm_file d)) \<le> length (content (dm_file d'))" if "dmAllocatePage disk_manager d = (a, d')" for d a d'
    using that write_at_length
    by (auto simp: disk_call_defs Let_def word_le_nat_alt count_next split: if_splits list.splits io_outcome.splits)
qed (use write_at_length in \<open>auto simp: disk_call_defs Let_def split: if_splits list.splits io_outcome.splits sum.splits prod.splits\<close>)

text \<open>What any step can do to a file: it does not shrink, and a byte on the device stays or becomes the one the file has.\<close>

definition file_step :: "DiskManager \<Rightarrow> DiskManager \<Rightarrow> bool" where
  "file_step d d' \<longleftrightarrow> numPages d \<le> numPages d' \<and> length (content (dm_file d)) \<le> length (content (dm_file d')) \<and>
     (\<forall>x < length (content (dm_file d)). x < length (durable (dm_file d)) \<longrightarrow> x < length (durable (dm_file d')) \<and>
        (durable (dm_file d') ! x = durable (dm_file d) ! x \<or> durable (dm_file d') ! x = content (dm_file d') ! x))"

lemma file_step_refl: "file_step d d"
  by (simp add: file_step_def)

lemma disk_Sync_step: "dmSync disk_manager d = (r, d') \<Longrightarrow> file_step d d'"
  by (auto simp: file_step_def disk_manager_def disk_Sync_def File_Sync_def next_outcome_def split: list.splits io_outcome.splits)

lemma sync_files_step: "sync_files disk_manager ds = (r, ds') \<Longrightarrow> evolves file_step ds ds'"
proof (induction ds arbitrary: r ds')
  case (Cons d ds)
  obtain r1 d1 where s: "dmSync disk_manager d = (r1, d1)" by fastforce
  obtain r2 ds2 where s2: "sync_files disk_manager ds = (r2, ds2)" by fastforce
  have "evolves file_step (d # ds) (d1 # ds)" "evolves file_step (d # ds) (d1 # ds2)"
    using disk_Sync_step[OF s] Cons.IH[OF s2] by (auto simp: evolves_def file_step_refl nth_Cons split: nat.splits)
  then show ?case using Cons.prems s s2 by (auto split: sum.splits)
qed (simp add: evolves_def)

lemma write_back_durable:
  "length (durable (dm_file d)) \<le> length (durable (dm_file (write_back x d)))" "x < length (durable (dm_file (write_back x d)))"
  "durable (dm_file (write_back x d)) ! x = content (dm_file d) ! x"
  "y < length (durable (dm_file d)) \<Longrightarrow> y \<noteq> x \<Longrightarrow> durable (dm_file (write_back x d)) ! y = durable (dm_file d) ! y"
  "content (dm_file (write_back x d)) = content (dm_file d)" "numPages (write_back x d) = numPages d"
  by (auto simp: write_back_def write_at_def overwrite_def nth_append min_def)

lemma write_back_step: "file_step d (write_back x d)"
proof -
  have "durable (dm_file (write_back x d)) ! y = durable (dm_file d) ! y \<or> durable (dm_file (write_back x d)) ! y = content (dm_file d) ! y"
    if "y < length (durable (dm_file d))" for y
    using write_back_durable(3,4)[of x d] write_back_durable(4)[of y d x] that by (cases "y = x") auto
  then show ?thesis using write_back_durable(1)[of d x] by (auto simp: file_step_def write_back_durable(5,6))
qed

lemma write_back_view: "disk_inv (write_back x d) = disk_inv d" "disk_pages (write_back x d) = disk_pages d"
  by (simp_all add: disk_inv_def disk_pages_def disk_page_def[abs_def] write_back_durable(5,6))

lemma shared_step_files:
  assumes "shared_step s s'"
  shows "evolves file_step (files (pool s)) (files (pool s'))"
proof -
  have keep: "evolves file_step ds ds" for ds by (simp add: evolves_def file_step_refl)
  from assms show ?thesis
  proof cases
    case (shared_locked bp')
    from device.pool_step_files[OF shared_locked(2)] growth.pool_step_files[OF shared_locked(2)]
    consider (call) "evolves (\<lambda>d d'. durable (dm_file d') = durable (dm_file d)) (files (pool s)) (files bp')"
        "evolves (\<lambda>d d'. numPages d \<le> numPages d' \<and> length (content (dm_file d)) \<le> length (content (dm_file d'))) (files (pool s)) (files bp')"
      | (sync) u where "bp_Sync disk_manager (pool s) = (u, bp')" by blast
    then show ?thesis
    proof cases
      case call
      then show ?thesis using shared_locked(1) by (simp add: evolves_def file_step_def)
    next
      case (sync u)
      then show ?thesis using shared_locked(1) by (auto simp: bp_Sync_def dest!: sync_files_step split: prod.splits)
    qed
  next
    case shared_device
    then show ?thesis
      by cases (auto simp: evolves_def nth_list_update file_step_refl write_back_step)
  qed (auto elim!: bp_Sync_step.cases numPages_step.cases intro: keep)
qed

subsection \<open>Invariants\<close>

fun call_fits :: "DiskManager list \<Rightarrow> unlocked_call \<Rightarrow> bool" where
  "call_fits ds (Sync_Files i n) \<longleftrightarrow> i \<le> n \<and> n \<le> length ds"
| "call_fits ds (Fsync i n J) \<longleftrightarrow> i < n \<and> n \<le> length ds"
| "call_fits ds (numPages_File fid) \<longleftrightarrow> unat fid < length ds"
| "call_fits ds (numPages_Returned fid n) \<longleftrightarrow> unat fid < length ds \<and> n \<le> numPages (ds ! unat fid)"
| "call_fits ds _ \<longleftrightarrow> True"

lemma call_fits_step: "call_fits ds c \<Longrightarrow> evolves file_step ds ds' \<Longrightarrow> call_fits ds' c"
  by (induction ds c rule: call_fits.induct) (auto simp: evolves_def file_step_def intro: order_trans)

lemma call_fits_on_device [simp]: "call_fits ds (on_device i x c) = call_fits ds c"
  by (cases c) auto

definition shared_inv :: "DiskManager pool_threads \<Rightarrow> bool" where
  "shared_inv s \<longleftrightarrow> pool_inv disk_pages disk_inv (pool s) \<and> (\<forall>t. call_fits (files (pool s)) (unlocked s t))"

text \<open>The unlocked parts and the device change nothing a caller of the pool can see.\<close>

lemma device_view:
  assumes inv: "pool_inv disk_pages disk_inv (pool s)" and step: "device_step s s'"
  shows "pool_inv disk_pages disk_inv (pool s') \<and> same_view disk_pages (pool s) (pool s')"
  using step
proof cases
  case (byte_out i x)
  have w: "pool_wf disk_pages disk_inv {} (pool s)" using inv by (simp add: pool_inv_def)
  have "disk_inv (files (pool s) ! i)" using w byte_out(2) by (simp add: pool_wf_def)
  then have d: "disk_pages (write_back x (files (pool s) ! i)) = disk_pages (files (pool s) ! i)" "disk_inv (write_back x (files (pool s) ! i))"
    by (simp_all add: write_back_view)
  from file_same[OF w this byte_out(2)] byte_out(1) show ?thesis by (simp add: pool_inv_def)
qed

lemma unlocked_view:
  assumes inv: "shared_inv s" and step: "bp_Sync_step t s s' \<or> numPages_step disk_manager t s s' \<or> device_step s s'"
  shows "pool_inv disk_pages disk_inv (pool s') \<and> same_view disk_pages (pool s) (pool s')"
  using step inv device_view[of s s'] same_view_refl[of disk_pages "pool s"]
  by (auto simp: shared_inv_def elim!: bp_Sync_step.cases numPages_step.cases)

lemma shared_step_inv:
  assumes step: "shared_step s s'" and inv: "shared_inv s"
  shows "shared_inv s'"
proof -
  have "pool_inv disk_pages disk_inv (pool s')" using step
  proof cases
    case (shared_locked bp')
    then show ?thesis using disk.pool_step_inv inv by (auto simp: shared_inv_def)
  qed (use unlocked_view[OF inv] in blast)+
  moreover have "call_fits (files (pool s')) (unlocked s u)" for u
    using call_fits_step[OF _ shared_step_files[OF step]] inv by (simp add: shared_inv_def)
  moreover have "unlocked s' u = unlocked s u \<or> call_fits (files (pool s')) (unlocked s' u) \<or> (\<exists>i x. unlocked s' u = on_device i x (unlocked s u))" for u
    using step
  proof cases
    case shared_device
    then show ?thesis by cases auto
  qed (use inv in \<open>auto elim!: bp_Sync_step.cases numPages_step.cases simp: shared_inv_def disk_manager_def disk_NumPages_def dest!: spec[of _ u]\<close>)
  ultimately show ?thesis unfolding shared_inv_def by (metis call_fits_on_device)
qed

definition shared_start :: "'d BufferPool \<Rightarrow> 'd pool_threads" where
  "shared_start bp = \<lparr>pool = bp, unlocked = (\<lambda>_. Elsewhere)\<rparr>"

abbreviation shared_run :: "DiskManager pool_threads \<Rightarrow> DiskManager pool_threads \<Rightarrow> bool" where
  "shared_run \<equiv> shared_step\<^sup>*\<^sup>*"

lemma shared_run_inv:
  assumes "shared_run s s'" "shared_inv s" shows "shared_inv s'"
  using assms by (induction rule: rtranclp_induct) (auto intro: shared_step_inv)

lemma shared_start_inv: "pool_inv disk_pages disk_inv bp \<Longrightarrow> shared_inv (shared_start bp)"
  by (simp add: shared_inv_def shared_start_def)

lemma shared_run_grows:
  assumes "shared_run s s'" "i < length (files (pool s))"
  shows "i < length (files (pool s')) \<and> length (content (os_of s i)) \<le> length (content (os_of s' i))"
  using assms(1)
proof (induction rule: rtranclp_induct)
  case (step s1 s2)
  then show ?case using shared_step_files[OF step(2)] by (auto simp: evolves_def file_step_def intro: order_trans)
qed (use assms(2) in simp)

subsection \<open>What a concurrent sync has put on the device\<close>

text \<open>The byte at offset \<open>x\<close> on the device is one the file \<open>i\<close> had at some moment since \<open>s0\<close>.\<close>

definition byte_synced :: "DiskManager pool_threads \<Rightarrow> DiskManager pool_threads \<Rightarrow> nat \<Rightarrow> nat \<Rightarrow> bool" where
  "byte_synced s0 s i x \<longleftrightarrow> x < length (durable (os_of s i)) \<and>
     (\<exists>sm. shared_run s0 sm \<and> shared_run sm s \<and> durable (os_of s i) ! x = content (os_of sm i) ! x)"

definition synced :: "DiskManager pool_threads \<Rightarrow> DiskManager pool_threads \<Rightarrow> nat \<Rightarrow> bool" where
  "synced s0 s i \<longleftrightarrow> (\<forall>x < length (content (os_of s0 i)). byte_synced s0 s i x)"

lemma byte_synced_now:
  assumes "shared_run s0 s" "x < length (durable (os_of s i))" "durable (os_of s i) ! x = content (os_of s i) ! x"
  shows "byte_synced s0 s i x"
  using assms unfolding byte_synced_def by blast

lemma byte_synced_step:
  assumes b: "byte_synced s0 s i x" and run: "shared_run s0 s" and step: "shared_step s s'"
    and i: "i < length (files (pool s))" and x: "x < length (content (os_of s i))"
  shows "byte_synced s0 s' i x"
proof -
  obtain sm where m: "shared_run s0 sm" "shared_run sm s" "durable (os_of s i) ! x = content (os_of sm i) ! x" and d: "x < length (durable (os_of s i))"
    using b by (auto simp: byte_synced_def)
  have "file_step (files (pool s) ! i) (files (pool s') ! i)" using shared_step_files[OF step] i by (simp add: evolves_def)
  then have s': "x < length (durable (os_of s' i))"
    "durable (os_of s' i) ! x = content (os_of sm i) ! x \<or> durable (os_of s' i) ! x = content (os_of s' i) ! x"
    using d x m(3) by (auto simp: file_step_def)
  have "shared_run sm s'" "shared_run s0 s'" using m(2) run step by (auto intro: rtranclp.rtrancl_into_rtrancl)
  then show ?thesis using s' m(1) byte_synced_now[of s0 s' x i] by (auto simp: byte_synced_def)
qed

text \<open>How far goroutine \<open>t\<close>, which had taken a snapshot of \<open>n\<close> files at \<open>s0\<close>, or a later call of it, has come.\<close>

definition sync_progress :: "nat \<Rightarrow> nat \<Rightarrow> DiskManager pool_threads \<Rightarrow> DiskManager pool_threads \<Rightarrow> bool" where
  "sync_progress t n s0 s \<longleftrightarrow> (case unlocked s t of
      Sync_Files j n' \<Rightarrow> n \<le> n' \<and> (\<forall>i < j. i < n \<longrightarrow> synced s0 s i)
    | Fsync j n' J \<Rightarrow> n \<le> n' \<and> (\<forall>i < j. i < n \<longrightarrow> synced s0 s i) \<and>
        (j < n \<longrightarrow> (\<forall>x < length (content (os_of s0 j)). x \<in> J \<or> byte_synced s0 s j x))
    | Sync_Returned (Inr _) \<Rightarrow> (\<forall>i < n. synced s0 s i)
    | _ \<Rightarrow> True)"

lemma sync_progress_keep:
  assumes p: "sync_progress t n s0 s" and same: "unlocked s' t = unlocked s t"
    and keep: "\<And>i x. i < n \<Longrightarrow> x < length (content (os_of s0 i)) \<Longrightarrow> byte_synced s0 s i x \<Longrightarrow> byte_synced s0 s' i x"
  shows "sync_progress t n s0 s'"
  using p keep unfolding sync_progress_def same by (auto simp: synced_def split: unlocked_call.splits sum.splits)

lemma sync_progress_step:
  assumes p: "sync_progress t n s0 s" and inv: "shared_inv s" and n: "n \<le> length (files (pool s0))" and run: "shared_run s0 s" and step: "shared_step s s'"
  shows "sync_progress t n s0 s'"
proof -
  have grow: "i < length (files (pool s))" "length (content (os_of s0 i)) \<le> length (content (os_of s i))" if "i < n" for i
    using shared_run_grows[OF run, of i] that n by auto
  have keep: "byte_synced s0 s' i x" if "i < n" "x < length (content (os_of s0 i))" "byte_synced s0 s i x" for i x
    using byte_synced_step[OF that(3) run step] grow[OF that(1)] that(2) by simp
  have len: "n \<le> length (files (pool s))" using grow(1) not_le by blast
  note same = sync_progress_keep[OF p _ keep]
  from step show ?thesis
  proof cases
    case (shared_sync u)
    show ?thesis
    proof (cases "u = t")
      case True
      with shared_sync have "bp_Sync_step t s s'" by simp
      then show ?thesis
      proof cases
        case sync_snapshot
        then show ?thesis using len by (simp add: sync_progress_def)
      next
        case (sync_call i n')
        then show ?thesis using p keep grow by (auto simp: sync_progress_def synced_def intro: less_le_trans)
      next
        case (sync_file i n')
        then show ?thesis using p keep by (auto simp: sync_progress_def synced_def less_Suc_eq)
      next
        case (sync_return n')
        then show ?thesis using p keep by (auto simp: sync_progress_def synced_def)
      qed (simp add: sync_progress_def)
    qed (use shared_sync same in \<open>auto elim!: bp_Sync_step.cases\<close>)
  next
    case (shared_count u)
    then show ?thesis using same by (cases "u = t") (auto elim!: numPages_step.cases simp: sync_progress_def)
  next
    case shared_device
    then show ?thesis
    proof cases
      case (byte_out i x)
      have run': "shared_run s0 s'" using run step by (rule rtranclp.rtrancl_into_rtrancl)
      have "byte_synced s0 s' i x"
        by (rule byte_synced_now[OF run']) (use byte_out write_back_durable(2,3,5)[where d = "files (pool s) ! i"] in simp_all)
      then show ?thesis using p keep byte_out(1) by (auto simp: sync_progress_def synced_def split: unlocked_call.splits sum.splits)
    qed
  next
    case (shared_locked bp')
    then show ?thesis using same by simp
  qed
qed

lemma sync_progress_run:
  assumes "shared_run s0 s" "shared_inv s0" "unlocked s0 t = Sync_Files 0 n"
  shows "sync_progress t n s0 s \<and> shared_inv s"
proof -
  have "call_fits (files (pool s0)) (unlocked s0 t)" using assms(2) by (simp add: shared_inv_def)
  then have n: "n \<le> length (files (pool s0))" using assms(3) by simp
  show ?thesis using assms(1)
  proof (induction rule: rtranclp_induct)
    case base
    show ?case using assms(2,3) by (simp add: sync_progress_def)
  next
    case (step s1 s2)
    then show ?case using sync_progress_step[OF _ _ n step(1,2)] shared_step_inv[OF step(2)] by simp
  qed
qed

subsection \<open>A sync can return\<close>

text \<open>Whatever an \<^verbatim>\<open>fsync\<close> still waits for can reach the device, and then it returns.\<close>

lemma fsync_drains:
  assumes "finite J" "unlocked s t = Fsync i n J" "i < length (files (pool s))" "J \<subseteq> {..<length (content (os_of s i))}"
  shows "\<exists>s'. shared_run s s' \<and> unlocked s' t = Fsync i n {} \<and> length (files (pool s')) = length (files (pool s)) \<and>
    (\<forall>k. content (os_of s' k) = content (os_of s k))"
  using assms
proof (induction J arbitrary: s rule: finite_induct)
  case (insert x J)
  let ?s = "s\<lparr>pool := (pool s)\<lparr>files := (files (pool s))[i := write_back x (files (pool s) ! i)]\<rparr>, unlocked := on_device i x \<circ> unlocked s\<rparr>"
  have "device_step s ?s" by (rule byte_out) (use insert.prems in auto)
  then have step: "shared_step s ?s" by (rule shared_device)
  have c: "content (os_of ?s k) = content (os_of s k)" for k
    by (cases "k = i") (use insert.prems(2) in \<open>auto simp: write_back_durable(5)\<close>)
  have "\<exists>s'. shared_run ?s s' \<and> unlocked s' t = Fsync i n {} \<and> length (files (pool s')) = length (files (pool ?s)) \<and>
    (\<forall>k. content (os_of s' k) = content (os_of ?s k))"
    by (rule insert.IH) (use insert.prems insert.hyps c[of i] in auto)
  then obtain s' where s': "shared_run ?s s'" "unlocked s' t = Fsync i n {}" "length (files (pool s')) = length (files (pool ?s))"
    "\<And>k. content (os_of s' k) = content (os_of ?s k)" by blast
  have "shared_run s s'" using step s'(1) by (rule converse_rtranclp_into_rtranclp)
  moreover have "length (files (pool s')) = length (files (pool s))" using s'(3) by simp
  ultimately show ?case using s'(2,4) c by metis
qed blast

subsection \<open>Properties\<close>

lemma demo_pool_reached: "shared_run (shared_start (the (NewBufferPool 1))) (shared_start demo_pool)"
proof -
  let ?bp = "the (NewBufferPool 1) :: DiskManager BufferPool"
  have r: "Register ?bp two_pages = (0, demo_pool)" by (simp add: Register_def demo_pool_def NewBufferPool_def)
  have "pool_step disk_manager disk_pages disk_inv ?bp demo_pool"
    by (rule step_register[where d = two_pages and fid = 0]) (simp_all add: two_pages(1) r, simp add: NewBufferPool_def)
  then have "shared_step (shared_start ?bp) ((shared_start ?bp)\<lparr>pool := demo_pool\<rparr>)"
    by (intro shared_locked) (simp add: shared_start_def)
  then show ?thesis by (simp add: shared_start_def r_into_rtranclp)
qed

text \<open>C32. With the unlocked parts of \<^verbatim>\<open>Sync\<close> and \<^verbatim>\<open>numPages\<close> and the device running between the locked methods of any goroutines, the invariant of the pool holds in
  every reachable state, the unlocked parts and the device change nothing a caller can see (no page, pin or report of a change), and a page count that
  \<^verbatim>\<open>numPages\<close> has returned never exceeds the pages the file has, now or later.\<close>

theorem shared_pool_safe:
  assumes "NewBufferPool n = Some bp0" "shared_run (shared_start bp0) s"
  shows "pool_inv disk_pages disk_inv (pool s) \<and>
    (\<forall>t s'. bp_Sync_step t s s' \<or> numPages_step disk_manager t s s' \<or> device_step s s' \<longrightarrow> same_view disk_pages (pool s) (pool s')) \<and>
    (\<forall>t fid c. unlocked s t = numPages_Returned fid c \<longrightarrow> unat c \<le> npages disk_pages (pool s) fid)"
proof -
  have inv: "shared_inv s" by (rule shared_run_inv[OF assms(2) shared_start_inv[OF NewBufferPool_inv(1)[OF assms(1)]]])
  have "unat c \<le> npages disk_pages (pool s) fid" if "unlocked s t = numPages_Returned fid c" for t fid c
  proof -
    have "call_fits (files (pool s)) (unlocked s t)" using inv by (simp add: shared_inv_def)
    then show ?thesis using that by (simp add: npages_def word_le_nat_alt)
  qed
  then show ?thesis using inv unlocked_view[OF inv] unfolding shared_inv_def by blast
qed

theorem shared_pool_safe_witness:
  "\<exists>s. shared_run (shared_start (the (NewBufferPool 1))) s \<and> unlocked s 3 = numPages_Returned 0 2 \<and> 2 \<le> npages disk_pages (pool s) 0"
proof -
  let ?s1 = "to 3 (numPages_File 0) (shared_start demo_pool)"
  let ?s2 = "to 3 (numPages_Returned 0 (dmNumPages disk_manager (files (pool ?s1) ! unat (0 :: FileID)))) ?s1"
  have "numPages_step disk_manager 3 (shared_start demo_pool) ?s1" by (rule count_file) (simp_all add: shared_start_def demo_pool(2))
  moreover have "numPages_step disk_manager 3 ?s1 ?s2" by (rule count_return) simp
  ultimately have run: "shared_run (shared_start (the (NewBufferPool 1))) ?s2"
    using demo_pool_reached by (meson shared_count rtranclp.rtrancl_into_rtrancl)
  have u: "unlocked ?s2 3 = numPages_Returned 0 2"
    by (simp add: shared_start_def demo_pool_def Register_def NewBufferPool_def disk_manager_def disk_NumPages_def two_pages_def)
  then have "unat (2 :: PageID) \<le> npages disk_pages (pool ?s2) 0" using shared_pool_safe[OF new_pool_1 run] by blast
  then have "2 \<le> npages disk_pages (pool ?s2) 0" by simp
  with run u show ?thesis by blast
qed

text \<open>C33. What a successful \<^verbatim>\<open>Sync\<close> of the pool guarantees when other goroutines go on working, and perhaps sync too, while the device takes bytes in any order: at its return every
  byte that a file of the snapshot had when the snapshot was taken is on the device, as the file had it at some moment between the snapshot and
  the return; so a byte nobody changes during the call is there with its value.\<close>

theorem concurrent_Sync_durable:
  assumes "NewBufferPool k = Some bp0" "shared_run (shared_start bp0) s0" "unlocked s0 t = Sync_Files 0 n"
    and "shared_run s0 s" "unlocked s t = Sync_Returned (Inr ())" "i < n" "x < length (content (dm_file (files (pool s0) ! i)))"
  shows "x < length (durable (dm_file (files (pool s) ! i))) \<and>
    (\<exists>sm. shared_run s0 sm \<and> shared_run sm s \<and> durable (dm_file (files (pool s) ! i)) ! x = content (dm_file (files (pool sm) ! i)) ! x)"
proof -
  have "shared_inv s0" by (rule shared_run_inv[OF assms(2) shared_start_inv[OF NewBufferPool_inv(1)[OF assms(1)]]])
  from sync_progress_run[OF assms(4) this assms(3)] show ?thesis using assms(5-7) by (simp add: sync_progress_def synced_def byte_synced_def)
qed

theorem concurrent_Sync_durable_witness:
  "\<exists>s0 sm s. unlocked s0 4 = Sync_Files 0 1 \<and> shared_run s0 sm \<and> shared_run sm s \<and> unlocked s 4 = Sync_Returned (Inr ()) \<and>
     durable (dm_file (files (pool s) ! 0)) ! 9000 = content (dm_file (files (pool sm) ! 0)) ! 9000"
proof -
  let ?first = "to 4 (Sync_Files 0 1) (shared_start demo_pool)"
  let ?call = "to 4 (Fsync 0 1 {..<length (content (os_of ?first 0))}) ?first"
  have f: "files demo_pool = [two_pages]" by (simp add: demo_pool_def Register_def NewBufferPool_def)
  have "bp_Sync_step 4 (shared_start demo_pool) ?first" using sync_snapshot[of "shared_start demo_pool" 4] by (simp add: shared_start_def f)
  then have r0: "shared_run (shared_start (the (NewBufferPool 1))) ?first"
    using demo_pool_reached by (meson shared_sync rtranclp.rtrancl_into_rtrancl)
  have "bp_Sync_step 4 ?first ?call" by (rule sync_call) simp_all
  then have r1: "shared_run ?first ?call" by (auto intro: shared_sync)
  have len: "0 < length (files (pool ?call))" by (simp add: shared_start_def f)
  obtain s2 where s2: "shared_run ?call s2" "unlocked s2 4 = Fsync 0 1 {}"
    using fsync_drains[of "{..<length (content (os_of ?first 0))}" ?call 4 0 1] len by auto
  let ?next = "to 4 (Sync_Files (Suc 0) 1) s2"
  let ?final = "to 4 (Sync_Returned (Inr ())) ?next"
  have "bp_Sync_step 4 s2 ?next" by (rule sync_file) (rule s2(2))
  moreover have "bp_Sync_step 4 ?next ?final" by (rule sync_return) simp
  ultimately have "shared_run s2 ?final" by (meson shared_sync rtranclp.rtrancl_into_rtrancl rtranclp.rtrancl_refl)
  from rtranclp_trans[OF rtranclp_trans[OF r1 s2(1)] this] have r: "shared_run ?first ?final" .
  have u: "unlocked ?first 4 = Sync_Files 0 1" "unlocked ?final 4 = Sync_Returned (Inr ())" by simp_all
  have x: "9000 < length (content (os_of ?first 0))" by (simp add: shared_start_def f two_pages_def)
  show ?thesis using concurrent_Sync_durable[OF new_pool_1 r0 u(1) r u(2) zero_less_one x] u by blast
qed

end
