(* ===== verification/Pager_Interface.thy ===== *)
theory Pager_Interface
  imports Pool_Steps
begin

text \<open>
  The \<^verbatim>\<open>pager\<close> interface that \<^verbatim>\<open>heap.go\<close> and \<^verbatim>\<open>nbtree.go\<close> declare, and its provider, the
  \<^verbatim>\<open>FileHandle\<close> of \<^verbatim>\<open>buffer_pool.go\<close>. A record holds the four methods and the two things a caller
  does with a \<^verbatim>\<open>*page.Page\<close>: read and write the bytes behind the pointer.

  \<open>page_cache\<close> is the contract the access methods are verified against. It speaks about one file:
  its pages, the pins held on each, and which pages carry a change nobody has reported yet; \<open>others\<close>
  is everything else in the pool, which no operation on this file may disturb. The buffer pool
  provides it for every registered file, whatever disk manager is below (\<open>sublocale\<close>).
\<close>

subsection \<open>The interface\<close>

record 's pager =
  FetchPage :: "'s \<Rightarrow> PageID \<Rightarrow> ((err + frameID) \<times> 's) option"
  NewPage :: "'s \<Rightarrow> ((err + frameID \<times> PageID) \<times> 's) option"
  UnpinPage :: "'s \<Rightarrow> PageID \<Rightarrow> bool \<Rightarrow> ((err + unit) \<times> 's) option"
  NumPages :: "'s \<Rightarrow> PageID option"
  load :: "'s \<Rightarrow> frameID \<Rightarrow> page option"
  store :: "'s \<Rightarrow> frameID \<Rightarrow> page \<Rightarrow> 's"

definition FileHandle :: "'d diskManager \<Rightarrow> FileID \<Rightarrow> 'd BufferPool pager" where
  "FileHandle D fid =
     \<lparr>FetchPage = (\<lambda>bp pid. fetch D bp fid pid), NewPage = (\<lambda>bp. newPage D bp fid),
      UnpinPage = (\<lambda>bp pid d. unpin bp fid pid d), NumPages = (\<lambda>bp. bp_numPages D bp fid),
      load = read_frame, store = write_frame\<rparr>"

definition FlushPage :: "'d diskManager \<Rightarrow> FileID \<Rightarrow> 'd BufferPool \<Rightarrow> PageID \<Rightarrow> ((err + unit) \<times> 'd BufferPool) option" where
  "FlushPage D fid bp pid = flushPage D bp fid pid"

subsection \<open>The contract\<close>

record 'r file_view =
  fpages :: "page list"
  held :: "PageID \<Rightarrow> nat"
  unsaved :: "PageID \<Rightarrow> bool"
  others :: 'r

locale page_cache =
  fixes P :: "'s pager" and view :: "'s \<Rightarrow> 'r file_view" and ptr :: "'s \<Rightarrow> PageID \<Rightarrow> frameID option"
    and ok :: "'s \<Rightarrow> bool" and calm :: "'s \<Rightarrow> bool" and room_of :: "'s \<Rightarrow> nat"
  assumes num_pages_ok: "ok s \<Longrightarrow> \<exists>n. NumPages P s = Some n \<and> unat n = length (fpages (view s))"
    and page_size: "ok s \<Longrightarrow> b \<in> set (fpages (view s)) \<Longrightarrow> length b = 8192"
    and held_page: "ok s \<Longrightarrow> 0 < held (view s) pid \<Longrightarrow> unat pid < length (fpages (view s))"
    and unsaved_held: "ok s \<Longrightarrow> unsaved (view s) pid \<Longrightarrow> 0 < held (view s) pid"
    and fetch_total: "ok s \<Longrightarrow> \<exists>r s'. FetchPage P s pid = Some (r, s')"
    and fetch_ok: "\<lbrakk>ok s; FetchPage P s pid = Some (Inr p, s')\<rbrakk> \<Longrightarrow> ok s' \<and>
      unat pid < length (fpages (view s)) \<and> ptr s' pid = Some p \<and>
      view s' = view s\<lparr>held := (held (view s))(pid := Suc (held (view s) pid))\<rparr>"
    and fetch_err: "\<lbrakk>ok s; FetchPage P s pid = Some (Inl e, s')\<rbrakk> \<Longrightarrow> ok s' \<and> view s' = view s"
    and fetch_ptr: "\<lbrakk>ok s; FetchPage P s pid = Some (r, s'); 0 < held (view s) q\<rbrakk> \<Longrightarrow> ptr s' q = ptr s q"
    and new_total: "ok s \<Longrightarrow> \<exists>r s'. NewPage P s = Some (r, s')"
    and new_ok: "\<lbrakk>ok s; NewPage P s = Some (Inr (p, pid), s')\<rbrakk> \<Longrightarrow> ok s' \<and>
      unat pid = length (fpages (view s)) \<and> ptr s' pid = Some p \<and>
      view s' = view s\<lparr>fpages := fpages (view s) @ [NewPage_frame], held := (held (view s))(pid := 1)\<rparr>"
    and new_err: "\<lbrakk>ok s; NewPage P s = Some (Inl e, s')\<rbrakk> \<Longrightarrow> ok s' \<and> view s' = view s"
    and new_ptr: "\<lbrakk>ok s; NewPage P s = Some (r', s'); 0 < held (view s) q\<rbrakk> \<Longrightarrow> ptr s' q = ptr s q"
    and unpin_held: "\<lbrakk>ok s; 0 < held (view s) pid; held (view s) pid = 1 \<Longrightarrow> d \<or> \<not> unsaved (view s) pid\<rbrakk> \<Longrightarrow>
      \<exists>s'. UnpinPage P s pid d = Some (Inr (), s') \<and> ok s' \<and>
        view s' = view s\<lparr>held := (held (view s))(pid := held (view s) pid - 1),
          unsaved := (unsaved (view s))(pid := unsaved (view s) pid \<and> \<not> d)\<rparr> \<and>
        (\<forall>q. 0 < held (view s) q \<longrightarrow> q \<noteq> pid \<or> 1 < held (view s) q \<longrightarrow> ptr s' q = ptr s q) \<and>
        (calm s \<longrightarrow> calm s')"
    and load_ptr: "\<lbrakk>ok s; ptr s pid = Some p; 0 < held (view s) pid\<rbrakk> \<Longrightarrow>
      load P s p = Some (fpages (view s) ! unat pid)"
    and store_same: "\<lbrakk>ok s; ptr s pid = Some p; 0 < held (view s) pid\<rbrakk> \<Longrightarrow>
      store P s p (fpages (view s) ! unat pid) = s"
    and store_ptr: "\<lbrakk>ok s; ptr s pid = Some p; 0 < held (view s) pid; length b = 8192\<rbrakk> \<Longrightarrow>
      ok (store P s p b) \<and> ptr (store P s p b) = ptr s \<and>
      (\<exists>u. view (store P s p b) = view s\<lparr>fpages := (fpages (view s))[unat pid := b],
        unsaved := (unsaved (view s))(pid := u)\<rparr>) \<and>
      (calm s \<longrightarrow> calm (store P s p b))"
    and fetch_calm: "\<lbrakk>ok s; calm s; unat pid < length (fpages (view s)); 0 < room_of s \<or> 0 < held (view s) pid;
      FetchPage P s pid = Some (r, s')\<rbrakk> \<Longrightarrow> (\<exists>p. r = Inr p) \<and> calm s'"
    and new_calm: "\<lbrakk>ok s; calm s; Suc (length (fpages (view s))) < 2 ^ 32; 0 < room_of s;
      NewPage P s = Some (r', s')\<rbrakk> \<Longrightarrow> (\<exists>x. r' = Inr x) \<and> calm s'"
    and room_held: "\<lbrakk>ok s; ok s'; others (view s') = others (view s);
      held (view s') = (held (view s))(pid := n)\<rbrakk> \<Longrightarrow>
      room_of s' + (if 0 < n then 1 else 0) = room_of s + (if 0 < held (view s) pid then 1 else 0)"
begin

lemma page_size_nth: "ok s \<Longrightarrow> i < length (fpages (view s)) \<Longrightarrow> length (fpages (view s) ! i) = 8192"
  by (simp add: page_size)

text \<open>Reading a page and releasing it leaves everything as it was.\<close>

lemma read_page:
  assumes s: "ok s" and f: "FetchPage P s pid = Some (Inr p, s1)"
  obtains s2 where "load P s1 p = Some (fpages (view s) ! unat pid)"
    "UnpinPage P s1 pid False = Some (Inr (), s2)" "ok s2" "view s2 = view s"
    "unat pid < length (fpages (view s))" "\<And>q. 0 < held (view s) q \<Longrightarrow> ptr s2 q = ptr s q"
    "calm s1 \<Longrightarrow> calm s2"
proof -
  note f1 = fetch_ok[OF s f]
  have h: "0 < held (view s1) pid" using f1 by simp
  moreover have "\<not> unsaved (view s1) pid" if "held (view s1) pid = 1"
    using that f1 unsaved_held[OF s, of pid] by auto
  ultimately obtain s2 where s2: "UnpinPage P s1 pid False = Some (Inr (), s2)" "ok s2"
    "view s2 = view s1\<lparr>held := (held (view s1))(pid := held (view s1) pid - 1),
        unsaved := (unsaved (view s1))(pid := unsaved (view s1) pid \<and> \<not> False)\<rparr>"
    "\<forall>q. 0 < held (view s1) q \<longrightarrow> q \<noteq> pid \<or> 1 < held (view s1) q \<longrightarrow> ptr s2 q = ptr s1 q"
    "calm s1 \<longrightarrow> calm s2"
    using unpin_held[of s1 pid False] f1 by blast
  have "view s2 = view s" using s2(3) f1 by simp
  moreover have "ptr s2 q = ptr s q" if "0 < held (view s) q" for q
    using that s2(4)[rule_format, of q] f1 fetch_ptr[OF s f that] by (cases "q = pid") auto
  moreover have "load P s1 p = Some (fpages (view s) ! unat pid)"
    using load_ptr[of s1 pid p] f1 h by simp
  ultimately show thesis using that[of s2] s2 f1 by blast
qed

lemma pages_bound:
  assumes "ok s" shows "length (fpages (view s)) < 2 ^ 32"
proof -
  obtain n :: PageID where "unat n = length (fpages (view s))" using num_pages_ok[OF assms] by blast
  then show ?thesis using unsigned_less[of n, where 'a = nat] by simp
qed

text \<open>Replacing the bytes of a page the caller has pinned, and releasing it as changed.\<close>

lemma write_release:
  assumes s: "ok s" "ptr s pid = Some p" "0 < held (view s) pid" and b: "length b = 8192"
  obtains s2 where "UnpinPage P (store P s p b) pid True = Some (Inr (), s2)" "ok s2"
    "view s2 = view s\<lparr>fpages := (fpages (view s))[unat pid := b],
       held := (held (view s))(pid := held (view s) pid - 1), unsaved := (unsaved (view s))(pid := False)\<rparr>"
    "\<And>q. q \<noteq> pid \<Longrightarrow> 0 < held (view s) q \<Longrightarrow> ptr s2 q = ptr s q" "calm s \<Longrightarrow> calm s2"
proof -
  let ?s1 = "store P s p b"
  obtain u where s1: "ok ?s1" "ptr ?s1 = ptr s" "view ?s1 = view s\<lparr>fpages := (fpages (view s))[unat pid := b],
      unsaved := (unsaved (view s))(pid := u)\<rparr>" "calm s \<longrightarrow> calm ?s1"
    using store_ptr[OF s b] by blast
  obtain s2 where s2: "UnpinPage P ?s1 pid True = Some (Inr (), s2)" "ok s2"
    "view s2 = view ?s1\<lparr>held := (held (view ?s1))(pid := held (view ?s1) pid - 1),
        unsaved := (unsaved (view ?s1))(pid := unsaved (view ?s1) pid \<and> \<not> True)\<rparr>"
    "\<forall>q. 0 < held (view ?s1) q \<longrightarrow> q \<noteq> pid \<or> 1 < held (view ?s1) q \<longrightarrow> ptr s2 q = ptr ?s1 q"
    "calm ?s1 \<longrightarrow> calm s2"
    using unpin_held[of ?s1 pid True] s1 s(3) by auto
  show thesis by (rule that[OF s2(1,2)]) (use s1 s2(3-5) in simp_all)
qed

text \<open>A fresh page: two writes through its pointer, then its release.\<close>

lemma new_page_write:
  assumes s: "ok s" and n: "NewPage P s = Some (Inr (p, pid), s1)"
  shows "unat pid = length (fpages (view s))" "load P s1 p = Some NewPage_frame"
    and "length a = 8192 \<Longrightarrow> load P (store P s1 p a) p = Some a"
    and "length a = 8192 \<Longrightarrow> length b = 8192 \<Longrightarrow>
      \<exists>s2. UnpinPage P (store P (store P s1 p a) p b) pid True = Some (Inr (), s2) \<and> ok s2 \<and>
        view s2 = view s\<lparr>fpages := fpages (view s) @ [b]\<rparr> \<and> (calm s1 \<longrightarrow> calm s2) \<and>
        (\<forall>q. 0 < held (view s) q \<longrightarrow> ptr s2 q = ptr s q)"
proof -
  let ?ps = "fpages (view s)"
  have v1: "view s1 = view s\<lparr>fpages := ?ps @ [NewPage_frame], held := (held (view s))(pid := 1)\<rparr>"
    and pid: "unat pid = length ?ps" and ptr: "ptr s1 pid = Some p" and ok1: "ok s1"
    using new_ok[OF s n] by auto
  show "unat pid = length ?ps" by (rule pid)
  have h0: "held (view s) pid = 0" using held_page[OF s, of pid] pid by auto
  have u0: "\<not> unsaved (view s) pid" using unsaved_held[OF s, of pid] h0 by auto
  show "load P s1 p = Some NewPage_frame"
    using load_ptr[OF ok1 ptr] v1 pid by (simp add: nth_append)
  assume a: "length a = 8192"
  let ?s2 = "store P s1 p a"
  obtain u where s2: "ok ?s2" "ptr ?s2 = ptr s1" "calm s1 \<longrightarrow> calm ?s2"
    "view ?s2 = view s1\<lparr>fpages := ?ps @ [a], unsaved := (unsaved (view s1))(pid := u)\<rparr>"
    using store_ptr[OF ok1 ptr _ a] v1 pid by auto
  show "load P ?s2 p = Some a"
    using load_ptr[of ?s2 pid p] s2 ptr v1 pid by (simp add: nth_append)
  assume b: "length b = 8192"
  have "ptr ?s2 pid = Some p" "0 < held (view ?s2) pid" using s2 ptr v1 by auto
  from write_release[OF s2(1) this b] obtain s3 where s3:
    "UnpinPage P (store P ?s2 p b) pid True = Some (Inr (), s3)" "ok s3"
    "view s3 = view ?s2\<lparr>fpages := (fpages (view ?s2))[unat pid := b],
       held := (held (view ?s2))(pid := held (view ?s2) pid - 1), unsaved := (unsaved (view ?s2))(pid := False)\<rparr>"
    "\<And>q. q \<noteq> pid \<Longrightarrow> 0 < held (view ?s2) q \<Longrightarrow> ptr s3 q = ptr ?s2 q" "calm ?s2 \<longrightarrow> calm s3" by metis
  have "view s3 = view s\<lparr>fpages := ?ps @ [b]\<rparr>"
    using s3(3) s2(4) v1 pid h0 u0 by (simp add: fun_upd_idem)
  moreover have "ptr s3 q = ptr s q" if "0 < held (view s) q" for q
    using that h0 s3(4)[of q] s2(2,4) v1 new_ptr[OF s n that] by (cases "q = pid") auto
  ultimately show "\<exists>s2. UnpinPage P (store P ?s2 p b) pid True = Some (Inr (), s2) \<and> ok s2 \<and>
      view s2 = view s\<lparr>fpages := ?ps @ [b]\<rparr> \<and> (calm s1 \<longrightarrow> calm s2) \<and>
      (\<forall>q. 0 < held (view s) q \<longrightarrow> ptr s2 q = ptr s q)"
    using s3(1,2,5) s2(3) by blast
qed

lemma room_same: "ok s \<Longrightarrow> ok s' \<Longrightarrow> view s' = view s\<lparr>fpages := x\<rparr> \<Longrightarrow> room_of s' = room_of s"
  using room_held[of s s' 0 "held (view s) 0"] by simp

text \<open>A page read and released: either the fetch fails and nothing changes, or the bytes are the
  page's and nothing has changed after the release.\<close>

lemma read_cases [consumes 2, case_names failed served]:
  assumes s: "ok s" and pid: "unat pid < length (fpages (view s))"
  obtains (failed) e s' where "FetchPage P s pid = Some (Inl e, s')" "ok s'" "view s' = view s"
      "\<not> (calm s \<and> 0 < room_of s)"
  | (served) p s1 s2 where "FetchPage P s pid = Some (Inr p, s1)" "load P s1 p = Some (fpages (view s) ! unat pid)"
      "UnpinPage P s1 pid False = Some (Inr (), s2)" "ok s2" "view s2 = view s" "room_of s2 = room_of s"
      "calm s \<Longrightarrow> 0 < room_of s \<Longrightarrow> calm s2" "\<And>q. 0 < held (view s) q \<Longrightarrow> ptr s2 q = ptr s q"
proof -
  obtain r s1 where f: "FetchPage P s pid = Some (r, s1)" using fetch_total[OF s] by blast
  show thesis
  proof (cases r)
    case (Inl e)
    have "\<not> (calm s \<and> 0 < room_of s)"
    proof
      assume "calm s \<and> 0 < room_of s"
      with fetch_calm[OF s _ pid _ f] show False by (simp add: Inl)
    qed
    then show thesis using failed[of e s1] f Inl fetch_err[OF s, of pid e s1] by blast
  next
    case (Inr p)
    obtain s2 where "load P s1 p = Some (fpages (view s) ! unat pid)" "UnpinPage P s1 pid False = Some (Inr (), s2)"
      "ok s2" "view s2 = view s" "\<And>q. 0 < held (view s) q \<Longrightarrow> ptr s2 q = ptr s q" "calm s1 \<Longrightarrow> calm s2"
      by (rule read_page[OF s f[unfolded Inr]]) blast
    then show thesis using served[of p s1 s2] f Inr room_same[OF s, of s2 "fpages (view s)"] fetch_calm[OF s _ pid _ f] by auto
  qed
qed

lemma room_eq:
  "ok s \<Longrightarrow> ok s' \<Longrightarrow> others (view s') = others (view s) \<Longrightarrow> held (view s') = held (view s) \<Longrightarrow> room_of s' = room_of s"
  using room_held[of s s' 0 "held (view s) 0"] by simp

end

subsection \<open>The calls of an operation\<close>

text \<open>Recording the calls of an operation: a state in which the steps since \<open>s0\<close> are known keeps the contract, so every operation
  verified against it is a sequence of such steps.\<close>

context page_cache
begin

lemma traced:
  assumes fetch: "\<And>s pid r s'. \<lbrakk>ok s; FetchPage P s pid = Some (r, s')\<rbrakk> \<Longrightarrow> R s s'"
    and new: "\<And>s r s'. \<lbrakk>ok s; NewPage P s = Some (r, s')\<rbrakk> \<Longrightarrow> R s s'"
    and unpin: "\<And>s pid d s'. \<lbrakk>ok s; 0 < held (view s) pid; held (view s) pid = 1 \<Longrightarrow> d \<or> \<not> unsaved (view s) pid;
      UnpinPage P s pid d = Some (Inr (), s')\<rbrakk> \<Longrightarrow> R s s'"
    and store: "\<And>s pid p b. \<lbrakk>ok s; ptr s pid = Some p; 0 < held (view s) pid; length b = 8192\<rbrakk> \<Longrightarrow> R s (store P s p b)"
  shows "page_cache P view ptr (\<lambda>s. ok s \<and> R\<^sup>*\<^sup>* s0 s) calm room_of"
proof
  fix s pid d assume s: "ok s \<and> R\<^sup>*\<^sup>* s0 s" and h: "0 < held (view s) pid" "held (view s) pid = 1 \<Longrightarrow> d \<or> \<not> unsaved (view s) pid"
  have "R\<^sup>*\<^sup>* s0 s'" if "UnpinPage P s pid d = Some (Inr (), s')" for s'
    using s unpin[OF conjunct1[OF s] h that] by (auto intro: rtranclp.rtrancl_into_rtrancl)
  then show "\<exists>s'. UnpinPage P s pid d = Some (Inr (), s') \<and> (ok s' \<and> R\<^sup>*\<^sup>* s0 s') \<and>
      view s' = view s\<lparr>held := (held (view s))(pid := held (view s) pid - 1),
        unsaved := (unsaved (view s))(pid := unsaved (view s) pid \<and> \<not> d)\<rparr> \<and>
      (\<forall>q. 0 < held (view s) q \<longrightarrow> q \<noteq> pid \<or> 1 < held (view s) q \<longrightarrow> ptr s' q = ptr s q) \<and> (calm s \<longrightarrow> calm s')"
    using unpin_held[OF conjunct1[OF s] h] by blast
next
  fix s pid p and b :: page assume s: "ok s \<and> R\<^sup>*\<^sup>* s0 s" "ptr s pid = Some p" "0 < held (view s) pid" "length b = 8192"
  have "R\<^sup>*\<^sup>* s0 (store P s p b)" using s(1) store[OF conjunct1[OF s(1)] s(2-4)] by (auto intro: rtranclp.rtrancl_into_rtrancl)
  then show "(ok (store P s p b) \<and> R\<^sup>*\<^sup>* s0 (store P s p b)) \<and> ptr (store P s p b) = ptr s \<and>
      (\<exists>u. view (store P s p b) = view s\<lparr>fpages := (fpages (view s))[unat pid := b], unsaved := (unsaved (view s))(pid := u)\<rparr>) \<and>
      (calm s \<longrightarrow> calm (store P s p b))"
    using store_ptr[OF conjunct1[OF s(1)] s(2-4)] by simp
next
  fix s pid p s' assume s: "ok s \<and> R\<^sup>*\<^sup>* s0 s" "FetchPage P s pid = Some (Inr p, s')"
  show "(ok s' \<and> R\<^sup>*\<^sup>* s0 s') \<and> unat pid < length (fpages (view s)) \<and> ptr s' pid = Some p \<and>
      view s' = view s\<lparr>held := (held (view s))(pid := Suc (held (view s) pid))\<rparr>"
    using s(1) fetch_ok[OF _ s(2)] fetch[OF _ s(2)] by (auto intro: rtranclp.rtrancl_into_rtrancl)
next
  fix s pid e s' assume s: "ok s \<and> R\<^sup>*\<^sup>* s0 s" "FetchPage P s pid = Some (Inl e, s')"
  show "(ok s' \<and> R\<^sup>*\<^sup>* s0 s') \<and> view s' = view s" using s(1) fetch_err[OF _ s(2)] fetch[OF _ s(2)] by (auto intro: rtranclp.rtrancl_into_rtrancl)
next
  fix s p pid s' assume s: "ok s \<and> R\<^sup>*\<^sup>* s0 s" "NewPage P s = Some (Inr (p, pid), s')"
  show "(ok s' \<and> R\<^sup>*\<^sup>* s0 s') \<and> unat pid = length (fpages (view s)) \<and> ptr s' pid = Some p \<and>
      view s' = view s\<lparr>fpages := fpages (view s) @ [NewPage_frame], held := (held (view s))(pid := 1)\<rparr>"
    using s(1) new_ok[OF _ s(2)] new[OF _ s(2)] by (auto intro: rtranclp.rtrancl_into_rtrancl)
next
  fix s e s' assume s: "ok s \<and> R\<^sup>*\<^sup>* s0 s" "NewPage P s = Some (Inl e, s')"
  show "(ok s' \<and> R\<^sup>*\<^sup>* s0 s') \<and> view s' = view s" using s(1) new_err[OF _ s(2)] new[OF _ s(2)] by (auto intro: rtranclp.rtrancl_into_rtrancl)
qed (elim conjE, (rule num_pages_ok page_size held_page unsaved_held fetch_total fetch_ptr new_total new_ptr load_ptr store_same fetch_calm
  new_calm room_held; assumption))+

end

subsection \<open>The pool provides it\<close>

definition mk_view :: "FileID \<Rightarrow> nat \<Rightarrow> nat \<Rightarrow> (FileID \<Rightarrow> nat) \<Rightarrow> (pageKey \<Rightarrow> page) \<Rightarrow> (pageKey \<Rightarrow> nat) \<Rightarrow>
    (pageKey \<Rightarrow> bool) \<Rightarrow>
    (nat \<times> nat \<times> (FileID \<Rightarrow> nat) \<times> (pageKey \<Rightarrow> page) \<times> (pageKey \<Rightarrow> nat) \<times> (pageKey \<Rightarrow> bool)) file_view" where
  "mk_view fid nf nfr N C P R =
     \<lparr>fpages = map (\<lambda>i. C (PageKey fid (of_nat i))) [0..<N fid],
      held = (\<lambda>pid. P (PageKey fid pid)), unsaved = (\<lambda>pid. R (PageKey fid pid)),
      others = (nf, nfr, N(fid := 0),
        \<lambda>k. if pk_file k = fid \<or> N (pk_file k) \<le> unat (pk_pid k) then [] else C k,
        \<lambda>k. if pk_file k = fid then 0 else P k, \<lambda>k. pk_file k \<noteq> fid \<and> R k)\<rparr>"

definition pool_view :: "('d \<Rightarrow> page list) \<Rightarrow> FileID \<Rightarrow> 'd BufferPool \<Rightarrow>
    (nat \<times> nat \<times> (FileID \<Rightarrow> nat) \<times> (pageKey \<Rightarrow> page) \<times> (pageKey \<Rightarrow> nat) \<times> (pageKey \<Rightarrow> bool)) file_view" where
  "pool_view pages fid bp = mk_view fid (length (files bp)) (length (frames bp)) (npages pages bp)
     (page_of pages bp) (pins bp) (at_risk pages bp)"

definition pool_ptr :: "FileID \<Rightarrow> 'd BufferPool \<Rightarrow> PageID \<Rightarrow> frameID option" where
  "pool_ptr fid bp pid = pageTable bp (PageKey fid pid)"

definition pool_ok :: "('d \<Rightarrow> page list) \<Rightarrow> ('d \<Rightarrow> bool) \<Rightarrow> FileID \<Rightarrow> 'd BufferPool \<Rightarrow> bool" where
  "pool_ok pages ok fid bp \<longleftrightarrow> pool_inv pages ok bp \<and> unat fid < length (files bp)"

lemma mk_view_cong:
  assumes "\<And>k. unat (pk_pid k) < N (pk_file k) \<Longrightarrow> C k = C' k" "N fid \<le> 2 ^ 32"
  shows "mk_view fid a b N C P R = mk_view fid a b N C' P R"
  using assms by (auto simp: mk_view_def unat_of_nat_small)

lemma view_moves:
  assumes "moves pages bp bp' N C P R" "N fid \<le> 2 ^ 32"
  shows "pool_view pages fid bp' = mk_view fid (length (files bp)) (length (frames bp)) N C P R"
proof -
  have eqs: "length (files bp') = length (files bp)" "length (frames bp') = length (frames bp)"
    "npages pages bp' = N" "pins bp' = P" "at_risk pages bp' = R"
    "\<And>k. unat (pk_pid k) < N (pk_file k) \<Longrightarrow> page_of pages bp' k = C k"
    using assms(1) by (auto simp: moves_def)
  show ?thesis unfolding pool_view_def eqs(1-5) by (rule mk_view_cong) (use eqs(6) assms(2) in auto)
qed

lemma others_pins:
  assumes "others (pool_view pages fid bp') = others (pool_view pages fid bp)"
    "held (pool_view pages fid bp') = (held (pool_view pages fid bp))(pid := n)"
  shows "pins bp' = (pins bp)(PageKey fid pid := n)" "length (frames bp') = length (frames bp)"
proof
  fix k
  have o: "(if pk_file k = fid then 0 else pins bp' k) = (if pk_file k = fid then 0 else pins bp k)"
    using assms(1) by (simp add: pool_view_def mk_view_def) meson
  have h: "pins bp' (PageKey fid q) = (if q = pid then n else pins bp (PageKey fid q))" for q
    using fun_cong[OF assms(2), of q] by (simp add: pool_view_def mk_view_def)
  show "pins bp' k = ((pins bp)(PageKey fid pid := n)) k"
    using o h[of "pk_pid k"] by (cases k) (auto split: if_splits)
qed (use assms in \<open>simp add: pool_view_def mk_view_def\<close>)

context page_store
begin

lemma npages_bound:
  assumes "pool_inv pages ok bp" shows "npages pages bp i < 2 ^ 32"
proof (cases "unat i < length (files bp)")
  case True
  then have "ok (files bp ! unat i)" using assms by (auto simp: pool_inv_def pool_wf_def)
  from num_pages[OF this] show ?thesis
    using unsigned_less[of "dmNumPages D (files bp ! unat i)", where 'a = nat] True by (simp add: npages_def)
qed (simp add: npages_def)

lemma moves_mk_view:
  assumes "pool_inv pages ok bp'" "moves pages bp bp' N C P R"
  shows "pool_view pages fid bp' = mk_view fid (length (files bp)) (length (frames bp)) N C P R"
proof (rule view_moves[OF assms(2)])
  have "npages pages bp' = N" using assms(2) by (simp add: moves_def)
  then show "N fid \<le> 2 ^ 32" using npages_bound[OF assms(1), of fid] by simp
qed

lemma view_pin:
  assumes "pool_inv pages ok bp'"
    "moves pages bp bp' (npages pages bp) (page_of pages bp) ((pins bp)(PageKey fid pid := n)) R"
    "\<And>k. pk_file k \<noteq> fid \<Longrightarrow> R k = at_risk pages bp k"
  shows "pool_view pages fid bp' = pool_view pages fid bp
    \<lparr>held := (held (pool_view pages fid bp))(pid := n), unsaved := (\<lambda>q. R (PageKey fid q))\<rparr>"
  unfolding moves_mk_view[OF assms(1,2)] using assms(3)
  by (auto simp: pool_view_def mk_view_def fun_eq_iff)

lemma view_same:
  assumes "pool_inv pages ok bp'" "same_view pages bp bp'"
  shows "pool_view pages fid bp' = pool_view pages fid bp"
  using moves_mk_view[OF assms(1) assms(2)[unfolded same_view_moves]] by (simp add: pool_view_def)

lemma nth_pool_view:
  assumes "pool_inv pages ok bp" "unat pid < npages pages bp fid"
  shows "fpages (pool_view pages fid bp) ! unat pid = page_of pages bp (PageKey fid pid)"
    "length (fpages (pool_view pages fid bp)) = npages pages bp fid"
  using assms by (simp_all add: pool_view_def mk_view_def)

lemma handle_page_length:
  assumes inv: "pool_inv pages ok bp" and k: "valid_key pages bp k"
  shows "length (page_of pages bp k) = 8192"
proof -
  have fok: "frames_ok {} bp" using inv by (simp add: pool_inv_def pool_wf_def)
  have "ok (files bp ! unat (pk_file k))"
    using inv valid_keyD(1)[OF k] by (simp add: pool_inv_def pool_wf_def)
  from page_length[OF this nth_mem[OF valid_keyD(2)[OF k]]] show ?thesis
    using frames_okD(10)[OF fok] resident_frame(1)[OF fok]
    by (auto simp: page_of_def disk_of_def split: option.split)
qed

lemma handle_fetch:
  assumes "pool_ok pages ok fid bp" "fetch D bp fid pid = Some (r, bp')"
  shows "pool_ok pages ok fid bp' \<and>
    (\<forall>q. 0 < held (pool_view pages fid bp) q \<longrightarrow> pool_ptr fid bp' q = pool_ptr fid bp q) \<and>
    (case r of Inl _ \<Rightarrow> pool_view pages fid bp' = pool_view pages fid bp
     | Inr p \<Rightarrow> unat pid < length (fpages (pool_view pages fid bp)) \<and> pool_ptr fid bp' pid = Some p \<and>
        pool_view pages fid bp' = pool_view pages fid bp
          \<lparr>held := (held (pool_view pages fid bp))(pid := Suc (held (pool_view pages fid bp) pid))\<rparr>) \<and>
    (all_quiet quiet bp \<and> unat pid < length (fpages (pool_view pages fid bp)) \<and>
     (0 < room bp \<or> 0 < held (pool_view pages fid bp) pid) \<longrightarrow> (\<exists>p. r = Inr p) \<and> all_quiet quiet bp')"
proof -
  have inv: "pool_inv pages ok bp" and fl: "unat fid < length (files bp)" using assms(1) by (auto simp: pool_ok_def)
  have len: "length (fpages (pool_view pages fid bp)) = npages pages bp fid"
    and held: "held (pool_view pages fid bp) q = pins bp (PageKey fid q)" for q
    by (simp_all add: pool_view_def mk_view_def)
  from inv fl show ?thesis
  proof (cases rule: fetch_cases[where pid = pid])
    case (ok f bp1)
    then have r: "r = Inr f" "bp' = bp1" using assms(2) by auto
    have "pool_view pages fid bp1 = pool_view pages fid bp
        \<lparr>held := (held (pool_view pages fid bp))(pid := Suc (pins bp (PageKey fid pid)))\<rparr>"
      using view_pin[OF ok(2,6)] by (simp add: pool_view_def mk_view_def)
    then show ?thesis
      using ok r fl by (auto simp: pool_ok_def moves_def pool_ptr_def len held valid_key_def)
  next
    case (err e bp1)
    then have r: "r = Inl e" "bp' = bp1" using assms(2) by auto
    have "pageTable bp (PageKey fid pid) = None \<Longrightarrow> pins bp (PageKey fid pid) = 0" by (simp add: pins_def)
    then show ?thesis
      using err r fl view_same[OF err(2,3)] card_pinned(2)[OF inv]
      by (auto simp: pool_ok_def same_view_def pool_ptr_def len held valid_key_def)
  qed
qed

lemma handle_newPage:
  assumes "pool_ok pages ok fid bp" "newPage D bp fid = Some (r, bp')"
  shows "pool_ok pages ok fid bp' \<and>
    (\<forall>q. 0 < held (pool_view pages fid bp) q \<longrightarrow> pool_ptr fid bp' q = pool_ptr fid bp q) \<and>
    (case r of Inl _ \<Rightarrow> pool_view pages fid bp' = pool_view pages fid bp
     | Inr (p, pid) \<Rightarrow> unat pid = length (fpages (pool_view pages fid bp)) \<and> pool_ptr fid bp' pid = Some p \<and>
        pool_view pages fid bp' = pool_view pages fid bp
          \<lparr>fpages := fpages (pool_view pages fid bp) @ [NewPage_frame],
           held := (held (pool_view pages fid bp))(pid := 1)\<rparr>) \<and>
    (all_quiet quiet bp \<and> Suc (length (fpages (pool_view pages fid bp))) < 2 ^ 32 \<and> 0 < room bp \<longrightarrow>
      (\<exists>x. r = Inr x) \<and> all_quiet quiet bp')"
proof -
  have inv: "pool_inv pages ok bp" and fl: "unat fid < length (files bp)" using assms(1) by (auto simp: pool_ok_def)
  have len: "length (fpages (pool_view pages fid bp)) = npages pages bp fid"
    and held: "held (pool_view pages fid bp) q = pins bp (PageKey fid q)" for q
    by (simp_all add: pool_view_def mk_view_def)
  from inv fl show ?thesis
  proof (cases rule: newPage_cases)
    case (ok f pid bp1)
    then have r: "r = Inr (f, pid)" "bp' = bp1" using assms(2) by auto
    have old: "of_nat i \<noteq> pid" if "i < unat pid" for i
    proof
      assume "of_nat i = pid"
      moreover have "i < 2 ^ LENGTH(32)" using that unsigned_less[of pid, where 'a = nat] by linarith
      ultimately have "unat pid = i" using unat_of_nat_small[of i, where 'a = 32] by simp
      then show False using that by simp
    qed
    have "pool_view pages fid bp1 = pool_view pages fid bp
        \<lparr>fpages := fpages (pool_view pages fid bp) @ [NewPage_frame],
         held := (held (pool_view pages fid bp))(pid := 1)\<rparr>"
      unfolding moves_mk_view[OF ok(2,6)]
      using ok(3) old by (auto simp: pool_view_def mk_view_def fun_eq_iff simp flip: ok(3))
    then show ?thesis
      using ok r fl by (auto simp: pool_ok_def moves_def pool_ptr_def len held)
  next
    case (err e bp1)
    then have r: "r = Inl e" "bp' = bp1" using assms(2) by auto
    then show ?thesis
      using err r fl view_same[OF err(2,3)] card_pinned(2)[OF inv]
      by (auto simp: pool_ok_def same_view_def pool_ptr_def len held)
  qed
qed

lemma handle_unpin:
  assumes p: "pool_ok pages ok fid bp" "0 < held (pool_view pages fid bp) pid"
    and safe: "held (pool_view pages fid bp) pid = 1 \<Longrightarrow> d \<or> \<not> unsaved (pool_view pages fid bp) pid"
  shows "\<exists>bp'. unpin bp fid pid d = Some (Inr (), bp') \<and> pool_ok pages ok fid bp' \<and>
    pool_view pages fid bp' = pool_view pages fid bp
      \<lparr>held := (held (pool_view pages fid bp))(pid := held (pool_view pages fid bp) pid - 1),
       unsaved := (unsaved (pool_view pages fid bp))(pid := unsaved (pool_view pages fid bp) pid \<and> \<not> d)\<rparr> \<and>
    (\<forall>q. 0 < held (pool_view pages fid bp) q \<longrightarrow> q \<noteq> pid \<or> 1 < held (pool_view pages fid bp) q \<longrightarrow>
      pool_ptr fid bp' q = pool_ptr fid bp q) \<and>
    (all_quiet quiet bp \<longrightarrow> all_quiet quiet bp')"
proof -
  have inv: "pool_inv pages ok bp" and fl: "unat fid < length (files bp)" using p(1) by (auto simp: pool_ok_def)
  have held: "held (pool_view pages fid bp) q = pins bp (PageKey fid q)"
    and unsaved: "unsaved (pool_view pages fid bp) q = at_risk pages bp (PageKey fid q)" for q
    by (simp_all add: pool_view_def mk_view_def)
  have "pins bp (PageKey fid pid) = 1 \<longrightarrow> d \<or> \<not> at_risk pages bp (PageKey fid pid)"
    using safe by (simp add: held unsaved)
  with inv show ?thesis
  proof (cases rule: unpin_cases)
    case (ok bp')
    have "pool_view pages fid bp' = pool_view pages fid bp
      \<lparr>held := (held (pool_view pages fid bp))(pid := pins bp (PageKey fid pid) - 1),
       unsaved := (unsaved (pool_view pages fid bp))(pid := at_risk pages bp (PageKey fid pid) \<and> \<not> d)\<rparr>"
    proof -
      have "(\<lambda>q. ((at_risk pages bp)(PageKey fid pid := x)) (PageKey fid q)) = (unsaved (pool_view pages fid bp))(pid := x)" for x
        by (auto simp: fun_eq_iff unsaved)
      moreover have "((at_risk pages bp)(PageKey fid pid := x)) k = at_risk pages bp k" if "pk_file k \<noteq> fid" for k x
        using that by auto
      ultimately show ?thesis using view_pin[OF ok(2,5)] by metis
    qed
    moreover have "all_quiet quiet bp'" if "all_quiet quiet bp" using that ok(4) by (simp add: all_quiet_def)
    ultimately show ?thesis
      using ok fl by (auto simp: pool_ok_def moves_def pool_ptr_def held unsaved)
  next
    case (err e)
    then show ?thesis using p(2) by (simp add: held)
  qed
qed

lemma handle_store:
  assumes p: "pool_ok pages ok fid bp" "pool_ptr fid bp pid = Some f" "0 < held (pool_view pages fid bp) pid"
    and b: "length b = 8192"
  shows "pool_ok pages ok fid (write_frame bp f b)" "pool_ptr fid (write_frame bp f b) = pool_ptr fid bp"
    "\<exists>u. pool_view pages fid (write_frame bp f b) = pool_view pages fid bp
      \<lparr>fpages := (fpages (pool_view pages fid bp))[unat pid := b],
       unsaved := (unsaved (pool_view pages fid bp))(pid := u)\<rparr>"
proof -
  let ?k = "PageKey fid pid" and ?bp = "write_frame bp f b"
  have inv: "pool_wf pages ok {} bp" and fl: "unat fid < length (files bp)"
    using p(1) by (auto simp: pool_ok_def pool_inv_def)
  have res: "pageTable bp ?k = Some f" "0 < pins bp ?k"
    using p(2,3) by (auto simp: pool_ptr_def pool_view_def mk_view_def)
  note wp = write_pinned[OF inv res b]
  show ok: "pool_ok pages ok fid ?bp"
    using wp(1) fl by (simp add: pool_ok_def pool_inv_def write_frame_def)
  show "pool_ptr fid ?bp = pool_ptr fid bp" by (simp add: pool_ptr_def write_frame_def fun_eq_iff)
  have pid: "unat pid < npages pages bp fid" using pool_wfD(3)[OF inv res(1)] by (simp add: valid_key_def)
  have eq: "(map (\<lambda>i. page_of pages bp (PageKey fid (of_nat i))) [0..<npages pages bp fid])[unat pid := b] =
      map (\<lambda>i. ((page_of pages bp)(?k := b)) (PageKey fid (of_nat i))) [0..<npages pages bp fid]"
  proof (rule nth_equalityI)
    fix i assume "i < length ((map (\<lambda>i. page_of pages bp (PageKey fid (of_nat i))) [0..<npages pages bp fid])[unat pid := b])"
    then have i: "i < npages pages bp fid" "i < 2 ^ 32"
      using npages_bound[of bp fid] p(1) by (auto simp: pool_ok_def intro: order.strict_trans)
    then have "of_nat i = pid \<longleftrightarrow> i = unat pid" by (simp add: word_unat_eq_iff unat_of_nat_small)
    then show "(map (\<lambda>i. page_of pages bp (PageKey fid (of_nat i))) [0..<npages pages bp fid])[unat pid := b] ! i =
        map (\<lambda>i. ((page_of pages bp)(?k := b)) (PageKey fid (of_nat i))) [0..<npages pages bp fid] ! i"
      using i pid by (auto simp: nth_list_update)
  qed simp
  have "pool_view pages fid ?bp = pool_view pages fid bp
      \<lparr>fpages := (fpages (pool_view pages fid bp))[unat pid := b],
       unsaved := (unsaved (pool_view pages fid bp))(pid := at_risk pages ?bp ?k)\<rparr>"
    unfolding moves_mk_view[OF wp(1)[folded pool_inv_def] wp(2)]
    by (auto simp: pool_view_def mk_view_def fun_eq_iff eq)
  then show "\<exists>u. pool_view pages fid ?bp = pool_view pages fid bp
      \<lparr>fpages := (fpages (pool_view pages fid bp))[unat pid := b],
       unsaved := (unsaved (pool_view pages fid bp))(pid := u)\<rparr>" by blast
qed

lemma handle_load:
  assumes p: "pool_ok pages ok fid bp" "pool_ptr fid bp pid = Some f"
  shows "f < length (frames bp)" "frames bp ! f = fpages (pool_view pages fid bp) ! unat pid"
    "unat pid < length (fpages (pool_view pages fid bp))"
proof -
  have inv: "pool_wf pages ok {} bp" using p(1) by (auto simp: pool_ok_def pool_inv_def)
  have res: "pageTable bp (PageKey fid pid) = Some f" using p(2) by (simp add: pool_ptr_def)
  show "f < length (frames bp)" by (rule resident_frame(1)[OF pool_wfD(1)[OF inv] res])
  have pid: "unat pid < npages pages bp fid" using pool_wfD(3)[OF inv res] by (simp add: valid_key_def)
  then show "frames bp ! f = fpages (pool_view pages fid bp) ! unat pid"
    "unat pid < length (fpages (pool_view pages fid bp))"
    using res by (simp_all add: pool_view_def mk_view_def page_of_def)
qed

end

sublocale page_store \<subseteq> handle: page_cache "FileHandle D fid" "pool_view pages fid" "pool_ptr fid"
    "pool_ok pages ok fid" "all_quiet quiet" room for fid
proof
  fix bp assume p: "pool_ok pages ok fid bp"
  then have inv: "pool_inv pages ok bp" and fl: "unat fid < length (files bp)" by (auto simp: pool_ok_def)
  have okf: "ok (files bp ! unat fid)" using inv fl by (simp add: pool_inv_def pool_wf_def)
  have len: "length (fpages (pool_view pages fid bp)) = npages pages bp fid"
    and held: "held (pool_view pages fid bp) q = pins bp (PageKey fid q)" for q
    by (simp_all add: pool_view_def mk_view_def)
  show "\<exists>n. NumPages (FileHandle D fid) bp = Some n \<and> unat n = length (fpages (pool_view pages fid bp))"
    using fl num_pages[OF okf] by (simp add: FileHandle_def bp_numPages_def idx_def len npages_def)
  show "length b = 8192" if "b \<in> set (fpages (pool_view pages fid bp))" for b
  proof -
    obtain i where "i < npages pages bp fid" "b = page_of pages bp (PageKey fid (of_nat i))"
      using \<open>b \<in> _\<close> by (auto simp: pool_view_def mk_view_def)
    then show ?thesis
      using handle_page_length[OF inv, of "PageKey fid (of_nat i)"] npages_bound[OF inv, of fid]
      by (simp add: valid_key_def unat_of_nat_small)
  qed
  show "unat pid < length (fpages (pool_view pages fid bp))" if "0 < held (pool_view pages fid bp) pid" for pid
    using that inv by (auto simp: held len pins_def pool_inv_def pool_wf_def valid_key_def split: option.splits)
  show "0 < held (pool_view pages fid bp) pid" if "unsaved (pool_view pages fid bp) pid" for pid
    using that inv by (auto simp: held pool_view_def mk_view_def pool_inv_def pool_wf_def)
  show "\<exists>r s'. FetchPage (FileHandle D fid) bp pid = Some (r, s')" for pid
    by (rule fetch_cases[OF inv fl, of pid]) (auto simp: FileHandle_def)
  show "\<exists>r s'. NewPage (FileHandle D fid) bp = Some (r, s')"
    by (rule newPage_cases[OF inv fl]) (auto simp: FileHandle_def)
next
  fix bp pid assume p: "pool_ok pages ok fid bp"
  show "pool_ok pages ok fid bp' \<and> unat pid < length (fpages (pool_view pages fid bp)) \<and> pool_ptr fid bp' pid = Some f \<and>
      pool_view pages fid bp' = pool_view pages fid bp
        \<lparr>held := (held (pool_view pages fid bp))(pid := Suc (held (pool_view pages fid bp) pid))\<rparr>"
    if "FetchPage (FileHandle D fid) bp pid = Some (Inr f, bp')" for f bp'
    using handle_fetch[OF p, of pid "Inr f" bp'] that by (simp add: FileHandle_def)
  show "pool_ok pages ok fid bp' \<and> pool_view pages fid bp' = pool_view pages fid bp"
    if "FetchPage (FileHandle D fid) bp pid = Some (Inl e, bp')" for e bp'
    using handle_fetch[OF p, of pid "Inl e" bp'] that by (simp add: FileHandle_def)
  show "pool_ptr fid bp' q = pool_ptr fid bp q"
    if "FetchPage (FileHandle D fid) bp pid = Some (r, bp')" "0 < held (pool_view pages fid bp) q" for r bp' q
    using handle_fetch[OF p, of pid r bp'] that by (simp add: FileHandle_def)
  show "(\<exists>f. r = Inr f) \<and> all_quiet quiet bp'"
    if "all_quiet quiet bp" "unat pid < length (fpages (pool_view pages fid bp))"
      "0 < room bp \<or> 0 < held (pool_view pages fid bp) pid" "FetchPage (FileHandle D fid) bp pid = Some (r, bp')" for r bp'
    using handle_fetch[OF p, of pid r bp'] that by (simp add: FileHandle_def)
  show "pool_ok pages ok fid bp' \<and> unat pid = length (fpages (pool_view pages fid bp)) \<and> pool_ptr fid bp' pid = Some f \<and>
      pool_view pages fid bp' = pool_view pages fid bp
        \<lparr>fpages := fpages (pool_view pages fid bp) @ [NewPage_frame],
         held := (held (pool_view pages fid bp))(pid := 1)\<rparr>"
    if "NewPage (FileHandle D fid) bp = Some (Inr (f, pid), bp')" for f bp'
    using handle_newPage[OF p, of "Inr (f, pid)" bp'] that by (simp add: FileHandle_def)
  show "pool_ok pages ok fid bp' \<and> pool_view pages fid bp' = pool_view pages fid bp"
    if "NewPage (FileHandle D fid) bp = Some (Inl e, bp')" for e bp'
    using handle_newPage[OF p, of "Inl e" bp'] that by (simp add: FileHandle_def)
  show "pool_ptr fid bp' q = pool_ptr fid bp q"
    if "NewPage (FileHandle D fid) bp = Some (r', bp')" "0 < held (pool_view pages fid bp) q" for r' bp' q
    using handle_newPage[OF p, of r' bp'] that by (simp add: FileHandle_def)
  show "(\<exists>x. r' = Inr x) \<and> all_quiet quiet bp'"
    if "all_quiet quiet bp" "Suc (length (fpages (pool_view pages fid bp))) < 2 ^ 32" "0 < room bp"
      "NewPage (FileHandle D fid) bp = Some (r', bp')" for r' bp'
    using handle_newPage[OF p, of r' bp'] that by (simp add: FileHandle_def)
  show "\<exists>bp'. UnpinPage (FileHandle D fid) bp pid d = Some (Inr (), bp') \<and> pool_ok pages ok fid bp' \<and>
      pool_view pages fid bp' = pool_view pages fid bp
        \<lparr>held := (held (pool_view pages fid bp))(pid := held (pool_view pages fid bp) pid - 1),
         unsaved := (unsaved (pool_view pages fid bp))(pid := unsaved (pool_view pages fid bp) pid \<and> \<not> d)\<rparr> \<and>
      (\<forall>q. 0 < held (pool_view pages fid bp) q \<longrightarrow> q \<noteq> pid \<or> 1 < held (pool_view pages fid bp) q \<longrightarrow>
        pool_ptr fid bp' q = pool_ptr fid bp q) \<and>
      (all_quiet quiet bp \<longrightarrow> all_quiet quiet bp')"
    if "0 < held (pool_view pages fid bp) pid"
      "held (pool_view pages fid bp) pid = 1 \<Longrightarrow> d \<or> \<not> unsaved (pool_view pages fid bp) pid" for d
    using handle_unpin[OF p that] by (simp add: FileHandle_def)
  fix f assume f: "pool_ptr fid bp pid = Some f" "0 < held (pool_view pages fid bp) pid"
  show "load (FileHandle D fid) bp f = Some (fpages (pool_view pages fid bp) ! unat pid)"
    using handle_load[OF p f(1)] by (simp add: FileHandle_def read_frame_def idx_def)
  show "store (FileHandle D fid) bp f (fpages (pool_view pages fid bp) ! unat pid) = bp"
    by (simp add: FileHandle_def write_frame_def flip: handle_load(2)[OF p f(1)])
  show "pool_ok pages ok fid (store (FileHandle D fid) bp f b) \<and>
      pool_ptr fid (store (FileHandle D fid) bp f b) = pool_ptr fid bp \<and>
      (\<exists>u. pool_view pages fid (store (FileHandle D fid) bp f b) = pool_view pages fid bp
        \<lparr>fpages := (fpages (pool_view pages fid bp))[unat pid := b],
         unsaved := (unsaved (pool_view pages fid bp))(pid := u)\<rparr>) \<and>
      (all_quiet quiet bp \<longrightarrow> all_quiet quiet (store (FileHandle D fid) bp f b))"
    if "length b = 8192" for b
    using handle_store[OF p f that] by (simp add: FileHandle_def all_quiet_def write_frame_def)
next
  fix bp bp' pid n assume "pool_ok pages ok fid bp" "pool_ok pages ok fid bp'"
    and o: "others (pool_view pages fid bp') = others (pool_view pages fid bp)"
      "held (pool_view pages fid bp') = (held (pool_view pages fid bp))(pid := n)"
  then have inv: "pool_inv pages ok bp" "pool_inv pages ok bp'" by (auto simp: pool_ok_def)
  have "held (pool_view pages fid bp) pid = pins bp (PageKey fid pid)" by (simp add: pool_view_def mk_view_def)
  then show "room bp' + (if 0 < n then 1 else 0) = room bp + (if 0 < held (pool_view pages fid bp) pid then 1 else 0)"
    using room_pin[OF inv others_pins(2,1)[OF o]] by simp
qed

end
