(* ===== verification/Slotted_Page.thy ===== *)
theory Slotted_Page
  imports Page_Layout
begin

text \<open>
  The slotted page of \<^verbatim>\<open>internal/storage/page/slotted_page.go\<close>. The view \<^verbatim>\<open>SlottedPage\<close> is the
  page's bytes; an operation that writes returns the bytes after the write. All boundary
  arithmetic is on \<^verbatim>\<open>uint16\<close> as in the code, so an unformatted page shows its underflow.

  \<open>wf_page\<close> is the layout invariant of a formatted page, \<open>tuples\<close> its abstract content: the list
  of tuples in slot order. \<open>InsertTuple\<close> is proved to be \<^verbatim>\<open>append\<close> on that list, or the
  \<^verbatim>\<open>ErrNoSpace\<close> that leaves the page alone.
\<close>

subsection \<open>The code\<close>

definition ErrNoSpace :: err where
  "ErrNoSpace = Sentinel ''page: not enough free space for the tuple''"

definition SlotCount :: "page \<Rightarrow> u16" where
  "SlotCount p = (PdUpper p - HeaderSize) div SlotEntrySize"

definition slot_at :: "u16 \<Rightarrow> u16" where
  "slot_at i = HeaderSize + i * SlotEntrySize"

definition slotEntryAt :: "page \<Rightarrow> u16 \<Rightarrow> byte list option" where
  "slotEntryAt p i = go_slice p (unat (slot_at i)) (unat (slot_at i + SlotEntrySize))"

definition SlotEntryAt :: "page \<Rightarrow> u16 \<Rightarrow> byte list option" where
  "SlotEntryAt p i = (if i \<ge> SlotCount p then None else slotEntryAt p i)"

text \<open>
  The iterator \<^verbatim>\<open>Slots\<close> runs its \<^verbatim>\<open>yield\<close> on each slot in order until it returns false. The
  state \<open>s\<close> is what the loop body carries from one iteration to the next.
\<close>

function slots_loop ::
    "page \<Rightarrow> u16 \<Rightarrow> u16 \<Rightarrow> (u16 \<Rightarrow> byte list \<Rightarrow> 's \<Rightarrow> (bool \<times> 's) option) \<Rightarrow> 's \<Rightarrow> 's option" where
  "slots_loop p n i yield s =
     (if i < n then do {
        entry \<leftarrow> slotEntryAt p i;
        (continue, s') \<leftarrow> yield i entry s;
        if continue then slots_loop p n (i + 1) yield s' else Some s'
      } else Some s)"
  by pat_completeness auto
termination
  by (relation "measure (\<lambda>(p, n, i, yield, s). unat n - unat i)")
    (auto simp: word_less_nat_alt unat_plus_1)

definition Slots ::
    "page \<Rightarrow> (u16 \<Rightarrow> byte list \<Rightarrow> 's \<Rightarrow> (bool \<times> 's) option) \<Rightarrow> 's \<Rightarrow> 's option" where
  "Slots p yield s = slots_loop p (SlotCount p) 0 yield s"

definition LocateTupleByEntry :: "page \<Rightarrow> byte list \<Rightarrow> byte list option" where
  "LocateTupleByEntry p entry = go_slice p (unat (Offset entry)) (unat (Offset entry + Length entry))"

definition Init :: "page \<Rightarrow> page" where
  "Init p = SetPdPagesize (SetPdLower (SetPdUpper (go_clear p) HeaderSize) PageSize) PageSize"

definition FreeSpace :: "page \<Rightarrow> u16" where
  "FreeSpace p = PdLower p - PdUpper p"

definition InsertTuple :: "page \<Rightarrow> byte list \<Rightarrow> ((err + u16) \<times> page) option" where
  "InsertTuple p data =
     (if length data + unat SlotEntrySize > unat (FreeSpace p) then Some (Inl ErrNoSpace, p)
      else
        let dataLen = of_nat (length data);
            slotIndex = SlotCount p;
            tupleOffset = PdLower p - dataLen;
            at = unat (slot_at slotIndex)
        in do {
          entry \<leftarrow> slotEntryAt p slotIndex;
          r \<leftarrow> SetOffset entry tupleOffset;
          case r of
            Inl e \<Rightarrow> Some (Inl (Wrap ''page: insert tuple'' e), p)
          | Inr entry \<Rightarrow> do {
              let p = overwrite at entry p;
              r \<leftarrow> SetLength entry dataLen;
              case r of
                Inl e \<Rightarrow> Some (Inl (Wrap ''page: insert tuple'' e), p)
              | Inr entry \<Rightarrow> do {
                  let p = overwrite at entry p;
                  dst \<leftarrow> go_slice p (unat tupleOffset) (unat (PdLower p));
                  let p = overwrite (unat tupleOffset) (take (length dst) data) p;
                  let p = SetPdUpper p (PdUpper p + SlotEntrySize);
                  let p = SetPdLower p tupleOffset;
                  Some (Inr slotIndex, p)
                }
            }
        })"

subsection \<open>The abstract page\<close>

definition nslots :: "page \<Rightarrow> nat" where
  "nslots p = (unat (PdUpper p) - 24) div 4"

definition entry_bytes :: "page \<Rightarrow> nat \<Rightarrow> byte list" where
  "entry_bytes p i = subslice (24 + 4 * i) (28 + 4 * i) p"

definition tuple_off :: "page \<Rightarrow> nat \<Rightarrow> nat" where
  "tuple_off p i = unat (Offset (entry_bytes p i))"

definition tuple_len :: "page \<Rightarrow> nat \<Rightarrow> nat" where
  "tuple_len p i = unat (Length (entry_bytes p i))"

definition tuple_bytes :: "page \<Rightarrow> nat \<Rightarrow> byte list" where
  "tuple_bytes p i = subslice (tuple_off p i) (tuple_off p i + tuple_len p i) p"

definition tuples :: "page \<Rightarrow> byte list list" where
  "tuples p = map (tuple_bytes p) [0..<nslots p]"

text \<open>The end of tuple \<open>i\<close>: tuples are stacked downward from the end of the page.\<close>

definition tuple_end :: "page \<Rightarrow> nat \<Rightarrow> nat" where
  "tuple_end p i = (if i = 0 then 8192 else tuple_off p (i - 1))"

definition wf_page :: "page \<Rightarrow> bool" where
  "wf_page p \<longleftrightarrow> length p = 8192
     \<and> 24 \<le> unat (PdUpper p) \<and> unat (PdUpper p) = 24 + 4 * nslots p
     \<and> unat (PdUpper p) \<le> unat (PdLower p)
     \<and> unat (PdLower p) = tuple_end p (nslots p)
     \<and> list_all (\<lambda>i. tuple_off p i + tuple_len p i = tuple_end p i) [0..<nslots p]"

fun insert_all :: "page \<Rightarrow> byte list list \<Rightarrow> (u16 list \<times> page) option" where
  \<comment> \<open>a caller that inserts the tuples in turn and gives up on the first error\<close>
  "insert_all p [] = Some ([], p)"
| "insert_all p (d # ds) =
     (case InsertTuple p d of
        Some (Inr i, p') \<Rightarrow> map_option (apfst ((#) i)) (insert_all p' ds)
      | _ \<Rightarrow> None)"

declare slots_loop.simps [simp del]

subsection \<open>Reading a formatted page\<close>

lemma unat_SlotCount:
  assumes "24 \<le> unat (PdUpper p)"
  shows "unat (SlotCount p) = nslots p"
  using assms by (simp add: SlotCount_def nslots_def unat_div unat_sub_small layout_simps)

lemma unat_slot_at:
  assumes "unat i \<le> 16000"
  shows "unat (slot_at i) = 24 + 4 * unat i" "unat (slot_at i + SlotEntrySize) = 28 + 4 * unat i"
proof -
  have m: "unat (i * SlotEntrySize) = unat i * 4"
    using assms by (subst unat_mult_small) (simp_all add: layout_simps)
  show s: "unat (slot_at i) = 24 + 4 * unat i"
    using assms unfolding slot_at_def by (subst unat_add_small) (simp_all add: m layout_simps)
  show "unat (slot_at i + SlotEntrySize) = 28 + 4 * unat i"
    using assms by (subst unat_add_small) (simp_all add: s layout_simps)
qed

lemma slotEntryAt_eq:
  assumes "28 + 4 * unat i \<le> length p" "length p = 8192"
  shows "slotEntryAt p i = Some (entry_bytes p (unat i))"
  using assms by (simp add: slotEntryAt_def unat_slot_at go_slice_def entry_bytes_def)

lemma length_tuples [simp]: "length (tuples p) = nslots p"
  by (simp add: tuples_def)

lemma nth_tuples [simp]: "i < nslots p \<Longrightarrow> tuples p ! i = tuple_bytes p i"
  by (simp add: tuples_def)

lemma wf_pageD:
  assumes "wf_page p"
  shows "length p = 8192" "unat (PdUpper p) = 24 + 4 * nslots p"
    "24 + 4 * nslots p \<le> unat (PdLower p)" "unat (PdLower p) = tuple_end p (nslots p)"
    "i < nslots p \<Longrightarrow> tuple_off p i + tuple_len p i = tuple_end p i"
  using assms by (auto simp: wf_page_def list_all_iff)

lemma tuple_end_Suc [simp]: "tuple_end p (Suc i) = tuple_off p i"
  by (simp add: tuple_end_def)

lemma tuple_end_mono:
  assumes "wf_page p" "i \<le> j" "j \<le> nslots p"
  shows "tuple_end p j \<le> tuple_end p i"
  using assms(2,3)
proof (induction j rule: dec_induct)
  case base
  show ?case by simp
next
  case (step j)
  then show ?case using wf_pageD(5)[OF assms(1), of j] by simp
qed

lemma tuple_bounds:
  assumes "wf_page p" "i < nslots p"
  shows "unat (PdLower p) \<le> tuple_off p i" "tuple_off p i + tuple_len p i \<le> 8192"
  using tuple_end_mono[OF assms(1), of "Suc i" "nslots p"] tuple_end_mono[OF assms(1), of 0 i]
    wf_pageD(4,5)[OF assms(1)] assms(2) by (simp_all add: tuple_end_def)

lemma wf_page_lower: "wf_page p \<Longrightarrow> unat (PdLower p) \<le> 8192"
  using tuple_end_mono[of p 0 "nslots p"] by (simp add: wf_pageD tuple_end_def)

lemma nslots_bound: "wf_page p \<Longrightarrow> nslots p \<le> 2042"
  using wf_page_lower[of p] wf_pageD(3)[of p] by simp

lemma unat_SlotCount_wf: "wf_page p \<Longrightarrow> unat (SlotCount p) = nslots p"
  by (simp add: unat_SlotCount wf_pageD)

lemma slotEntryAt_wf:
  assumes "wf_page p" "unat i < nslots p"
  shows "slotEntryAt p i = Some (entry_bytes p (unat i))"
  using assms wf_pageD(1,3)[OF assms(1)] wf_page_lower[OF assms(1)]
  by (intro slotEntryAt_eq) auto

lemma SlotEntryAt_wf:
  assumes "wf_page p"
  shows "SlotEntryAt p i = (if unat i < nslots p then Some (entry_bytes p (unat i)) else None)"
  using assms by (auto simp: SlotEntryAt_def slotEntryAt_wf word_le_nat_alt unat_SlotCount_wf)

lemma LocateTupleByEntry_wf:
  assumes "wf_page p" "i < nslots p"
  shows "LocateTupleByEntry p (entry_bytes p i) = Some (tuple_bytes p i)"
proof -
  have b: "tuple_off p i + tuple_len p i \<le> 8192" by (rule tuple_bounds(2)[OF assms])
  then have "unat (Offset (entry_bytes p i) + Length (entry_bytes p i)) = tuple_off p i + tuple_len p i"
    by (subst unat_add_small) (simp_all add: tuple_off_def tuple_len_def)
  then show ?thesis
    using b wf_pageD(1)[OF assms(1)]
    by (simp add: LocateTupleByEntry_def go_slice_def tuple_bytes_def flip: tuple_off_def)
qed

subsection \<open>Formatting\<close>

lemma header_of_Init:
  assumes "length p = 8192"
  shows "PdUpper (Init p) = HeaderSize" "PdLower (Init p) = PageSize" "PdPagesize (Init p) = PageSize"
proof -
  have "header_of (Init p) = header_of (go_clear p)
      \<lparr>pd_upper := HeaderSize, pd_lower := PageSize, pd_pagesize := PageSize\<rparr>"
    using assms by (simp add: Init_def header_of_setters)
  then show "PdUpper (Init p) = HeaderSize" "PdLower (Init p) = PageSize" "PdPagesize (Init p) = PageSize"
    by (simp_all add: header_of_def)
qed

lemma nslots_Init: "length p = 8192 \<Longrightarrow> nslots (Init p) = 0"
  by (simp add: nslots_def header_of_Init layout_simps)

lemma wf_page_Init:
  assumes "length p = 8192"
  shows "wf_page (Init p)" "tuples (Init p) = []" "unat (FreeSpace (Init p)) = 8168"
proof -
  have "length (Init p) = 8192" using assms by (simp add: Init_def)
  then show "wf_page (Init p)" "tuples (Init p) = []" "unat (FreeSpace (Init p)) = 8168"
    using assms
    by (simp_all add: wf_page_def tuples_def nslots_Init header_of_Init layout_simps tuple_end_def
        FreeSpace_def unat_sub_small)
qed

subsection \<open>Inserting a tuple\<close>

lemma unat_FreeSpace:
  "wf_page p \<Longrightarrow> unat (FreeSpace p) = unat (PdLower p) - (24 + 4 * nslots p)"
  using wf_pageD(2,3)[of p] by (simp add: FreeSpace_def unat_sub_small)

lemma InsertTuple_no_space:
  "unat (FreeSpace p) < length data + 4 \<Longrightarrow> InsertTuple p data = Some (Inl ErrNoSpace, p)"
  by (simp add: InsertTuple_def layout_simps)

text \<open>The page after an insert: the slot entry, the tuple bytes and the two boundary pointers.\<close>

definition inserted :: "page \<Rightarrow> byte list \<Rightarrow> byte list \<Rightarrow> page" where
  "inserted p e data =
     SetPdLower (SetPdUpper (overwrite (unat (PdLower p) - length data) data
         (overwrite (24 + 4 * nslots p) e p))
       (PdUpper p + SlotEntrySize)) (of_nat (unat (PdLower p) - length data))"

lemma InsertTuple_inserted:
  assumes wf: "wf_page p" and room: "length data + 4 \<le> unat (FreeSpace p)"
  obtains e where "InsertTuple p data = Some (Inr (SlotCount p), inserted p e data)"
    "length e = 4" "unat (Offset e) = unat (PdLower p) - length data"
    "unat (Length e) = length data" "Flag e = Flag (entry_bytes p (nslots p))"
proof -
  define U L off where "U = 24 + 4 * nslots p" and "L = unat (PdLower p)" and "off = L - length data"
  have b: "length p = 8192" "U + 4 \<le> off" "off + length data = L" "L \<le> 8192" "length data < 8192"
    using wf_pageD[OF wf] wf_page_lower[OF wf] room unat_FreeSpace[OF wf]
    by (auto simp: U_def L_def off_def)
  have sc: "unat (SlotCount p) = nslots p" by (rule unat_SlotCount_wf[OF wf])
  have n: "nslots p \<le> 2042" by (rule nslots_bound[OF wf])
  have e0: "slotEntryAt p (SlotCount p) = Some (entry_bytes p (nslots p))"
    using slotEntryAt_eq[of "SlotCount p" p] b by (simp add: sc U_def)
  have l0: "length (entry_bytes p (nslots p)) = 4"
    using b by (simp add: entry_bytes_def slice_simps U_def)
  have at: "unat (slot_at (SlotCount p)) = U" using unat_slot_at(1)[of "SlotCount p"] n by (simp add: sc U_def)
  have dl: "unat (of_nat (length data) :: u16) = length data" using b by (intro unat_of_nat_small) simp
  have toff: "unat (PdLower p - of_nat (length data)) = off"
    using b by (subst unat_sub_small) (simp_all add: dl L_def off_def)
  have toff': "PdLower p - of_nat (length data) = of_nat off"
    by (rule word_unat_eq_iff[THEN iffD2]) (use b in \<open>simp add: toff unat_of_nat_small\<close>)
  obtain e1 where e1: "SetOffset (entry_bytes p (nslots p)) (PdLower p - of_nat (length data)) = Some (Inr e1)"
    "length e1 = 4" "slot_of e1 = slot_of (entry_bytes p (nslots p))\<lparr>slot_offset := PdLower p - of_nat (length data)\<rparr>"
    using SetOffset_ok[OF l0, of "PdLower p - of_nat (length data)"] toff b by auto
  obtain e2 where e2: "SetLength e1 (of_nat (length data)) = Some (Inr e2)" "length e2 = 4"
    "slot_of e2 = slot_of e1\<lparr>slot_length := of_nat (length data)\<rparr>"
    using SetLength_ok[OF e1(2), of "of_nat (length data)"] dl b by auto
  have ww: "overwrite U e2 (overwrite U e1 p) = overwrite U e2 p"
    using e1(2) e2(2) b by (simp add: overwrite_overwrite_same)
  have hdr: "PdLower (overwrite U e2 p) = PdLower p"
    "PdUpper (overwrite off data (overwrite U e2 p)) = PdUpper p"
    using b e2(2) header_of_overwrite[of U e2 p] header_of_overwrite[of off data "overwrite U e2 p"]
    by (simp_all add: PdLower_header PdUpper_header U_def)
  have dst: "go_slice (overwrite U e2 p) off L = Some (subslice off L (overwrite U e2 p))"
    "length (subslice off L (overwrite U e2 p)) = length data"
    using b e2(2) by (simp_all add: go_slice_def slice_simps)
  have "InsertTuple p data = Some (Inr (SlotCount p), inserted p e2 data)"
    using room
    by (simp add: InsertTuple_def layout_simps e0 e1(1) e2(1) at ww toff hdr dst Let_def
        flip: L_def)
      (simp add: inserted_def toff' off_def U_def L_def)
  moreover have "unat (Offset e2) = L - length data" "unat (Length e2) = length data"
    "Flag e2 = Flag (entry_bytes p (nslots p))"
    using e2(3) e1(3) by (simp_all add: slot_of_def toff dl off_def)
  ultimately show thesis using that[of e2] e2(2) by (simp add: L_def)
qed

lemma inserted_fields:
  assumes wf: "wf_page p" and room: "length data + 4 \<le> unat (FreeSpace p)"
    and e: "length e = 4" "unat (Offset e) = unat (PdLower p) - length data"
      "unat (Length e) = length data"
  defines "q \<equiv> inserted p e data"
  shows "length q = 8192" "unat (PdUpper q) = 28 + 4 * nslots p"
    "unat (PdLower q) = unat (PdLower p) - length data" "nslots q = Suc (nslots p)"
    "i < nslots p \<Longrightarrow> entry_bytes q i = entry_bytes p i"
    "entry_bytes q (nslots p) = e"
    "i < nslots p \<Longrightarrow> tuple_bytes q i = tuple_bytes p i"
    "tuple_bytes q (nslots p) = data"
proof -
  define U L off where "U = 24 + 4 * nslots p" and "L = unat (PdLower p)" and "off = L - length data"
  have b: "length p = 8192" "U + 4 \<le> off" "off + length data = L" "L \<le> 8192" "24 \<le> U"
    using wf_pageD[OF wf] wf_page_lower[OF wf] room unat_FreeSpace[OF wf]
    by (auto simp: U_def L_def off_def)
  define r where "r = overwrite off data (overwrite U e p)"
  have r: "length r = 8192" "header_of r = header_of p"
    using b e(1) by (simp_all add: r_def header_of_overwrite)
  have q: "q = SetPdLower (SetPdUpper r (PdUpper p + SlotEntrySize)) (of_nat off)"
    by (simp add: q_def inserted_def r_def U_def off_def L_def)
  show "length q = 8192" using r by (simp add: q)
  have hq: "header_of q = header_of p\<lparr>pd_upper := PdUpper p + SlotEntrySize, pd_lower := of_nat off\<rparr>"
    using r by (simp add: q header_of_setters)
  have "unat (PdUpper p + SlotEntrySize) = 28 + 4 * nslots p"
    using wf_pageD(2)[OF wf] b by (subst unat_add_small) (simp_all add: layout_simps U_def)
  then show uq: "unat (PdUpper q) = 28 + 4 * nslots p" by (simp add: PdUpper_header hq)
  show "unat (PdLower q) = unat (PdLower p) - length data"
    using b by (simp add: PdLower_header hq unat_of_nat_small)
      (simp add: off_def L_def flip: PdLower_header)
  show nq: "nslots q = Suc (nslots p)" by (simp add: nslots_def[of q] uq)
  have keep: "subslice lo hi q = subslice lo hi p"
    if "24 \<le> lo" "hi \<le> U \<or> U + 4 \<le> lo" "hi \<le> off \<or> L \<le> lo" for lo hi
    using that b e(1) r(1) by (simp add: q header_setters_beyond r_def slice_simps)
  show eq: "entry_bytes q i = entry_bytes p i" if "i < nslots p" for i
    unfolding entry_bytes_def by (rule keep) (use that b in \<open>auto simp: U_def\<close>)
  show en: "entry_bytes q (nslots p) = e"
    using b e(1) r(1) by (simp add: entry_bytes_def q header_setters_beyond r_def slice_simps U_def)
  show "tuple_bytes q i = tuple_bytes p i" if i: "i < nslots p" for i
  proof -
    have "L \<le> tuple_off p i" using tuple_bounds(1)[OF wf i] by (simp add: L_def)
    then show ?thesis
      unfolding tuple_bytes_def tuple_off_def tuple_len_def eq[OF i]
      by (intro keep) (use b in \<open>auto simp: tuple_off_def\<close>)
  qed
  show "tuple_bytes q (nslots p) = data"
  proof -
    have "tuple_bytes q (nslots p) = subslice off (off + length data) q"
      using e by (simp add: tuple_bytes_def tuple_off_def tuple_len_def en off_def L_def)
    also have "\<dots> = data"
      using b e(1) r(1) by (simp add: q header_setters_beyond r_def slice_simps)
    finally show ?thesis .
  qed
qed

lemma wf_page_inserted:
  assumes wf: "wf_page p" and room: "length data + 4 \<le> unat (FreeSpace p)"
    and e: "length e = 4" "unat (Offset e) = unat (PdLower p) - length data"
      "unat (Length e) = length data"
  shows "wf_page (inserted p e data)" "tuples (inserted p e data) = tuples p @ [data]"
    "unat (FreeSpace (inserted p e data)) = unat (FreeSpace p) - (length data + 4)"
proof -
  note f = inserted_fields[OF assms]
  let ?q = "inserted p e data"
  have room': "24 + 4 * nslots p + length data + 4 \<le> unat (PdLower p)"
    using room unat_FreeSpace[OF wf] wf_pageD(3)[OF wf] by simp
  have old: "tuple_off ?q i = tuple_off p i" "tuple_len ?q i = tuple_len p i" if "i < nslots p" for i
    using f(5)[OF that] by (simp_all add: tuple_off_def tuple_len_def)
  have new: "tuple_off ?q (nslots p) = unat (PdLower p) - length data"
    "tuple_len ?q (nslots p) = length data"
    using f(6) e by (simp_all add: tuple_off_def tuple_len_def)
  have ends: "tuple_end ?q i = tuple_end p i" if "i \<le> nslots p" for i
    using that old[of "i - 1"] by (cases i) (auto simp: tuple_end_def)
  have stack: "tuple_off ?q i + tuple_len ?q i = tuple_end ?q i" if "i < Suc (nslots p)" for i
  proof (cases "i = nslots p")
    case True
    then show ?thesis using new ends[of i] room' wf_pageD(4)[OF wf] by simp
  next
    case False
    then show ?thesis using that old ends[of i] wf_pageD(5)[OF wf, of i] by simp
  qed
  have "list_all (\<lambda>i. tuple_off ?q i + tuple_len ?q i = tuple_end ?q i) [0..<Suc (nslots p)]"
    unfolding list_all_iff by (rule ballI, rule stack) auto
  moreover have "tuple_end ?q (Suc (nslots p)) = unat (PdLower p) - length data" using new by simp
  moreover have "28 + 4 * nslots p \<le> unat (PdLower p) - length data" using room' by simp
  ultimately show wfq: "wf_page ?q"
    using f(1-3) unfolding wf_page_def f(4) by simp
  show "tuples ?q = tuples p @ [data]"
    using f(4,7,8) by (simp add: tuples_def)
  show "unat (FreeSpace ?q) = unat (FreeSpace p) - (length data + 4)"
    using unat_FreeSpace[OF wfq] unat_FreeSpace[OF wf] f(3,4) by simp
qed

lemma InsertTuple_ok:
  assumes "wf_page p" "length data + 4 \<le> unat (FreeSpace p)"
  obtains p' where "InsertTuple p data = Some (Inr (SlotCount p), p')" "wf_page p'"
    "tuples p' = tuples p @ [data]" "unat (FreeSpace p') = unat (FreeSpace p) - (length data + 4)"
  using InsertTuple_inserted[OF assms] wf_page_inserted[OF assms] by metis

lemma InsertTuple_cases:
  assumes "wf_page p"
  obtains (no_space) "InsertTuple p data = Some (Inl ErrNoSpace, p)"
      "unat (FreeSpace p) < length data + 4"
    | (inserted) p' where "InsertTuple p data = Some (Inr (SlotCount p), p')" "wf_page p'"
      "tuples p' = tuples p @ [data]" "length data + 4 \<le> unat (FreeSpace p)"
      "unat (FreeSpace p') = unat (FreeSpace p) - (length data + 4)"
  using InsertTuple_no_space[of p data] InsertTuple_ok[OF assms, of data] by (metis not_less)

subsection \<open>Iterating over the slots\<close>

text \<open>On a formatted page the iterator is a left-to-right fold over the slots.\<close>

fun fold_yield :: "('a \<Rightarrow> 's \<Rightarrow> (bool \<times> 's) option) \<Rightarrow> 'a list \<Rightarrow> 's \<Rightarrow> 's option" where
  "fold_yield f [] s = Some s"
| "fold_yield f (x # xs) s = do {
     (continue, s') \<leftarrow> f x s;
     if continue then fold_yield f xs s' else Some s'
   }"

lemma slots_loop_fold:
  assumes "wf_page p" "unat i \<le> nslots p"
  shows "slots_loop p (SlotCount p) i yield s =
    fold_yield (\<lambda>k. yield (of_nat k) (entry_bytes p k)) [unat i..<nslots p] s"
  using assms
proof (induction p "SlotCount p" i yield s rule: slots_loop.induct)
  case (1 p i yield s)
  have sc: "unat (SlotCount p) = nslots p" by (rule unat_SlotCount_wf[OF "1.prems"(1)])
  show ?case
  proof (cases "i < SlotCount p")
    case True
    then have lt: "unat i < nslots p" by (simp add: word_less_nat_alt sc)
    have up: "[unat i..<nslots p] = unat i # [unat (i + 1)..<nslots p]"
      using lt by (simp add: upt_conv_Cons unat_plus_1[OF True])
    have "slots_loop p (SlotCount p) i yield s =
        do { (c, s') \<leftarrow> yield i (entry_bytes p (unat i)) s;
             if c then slots_loop p (SlotCount p) (i + 1) yield s' else Some s' }"
      using True lt by (simp add: slots_loop.simps[of p _ i] slotEntryAt_wf[OF "1.prems"(1)])
    also have "\<dots> = do { (c, s') \<leftarrow> yield i (entry_bytes p (unat i)) s;
        if c then fold_yield (\<lambda>k. yield (of_nat k) (entry_bytes p k)) [unat (i + 1)..<nslots p] s'
        else Some s' }"
      using "1.hyps"[OF True slotEntryAt_wf[OF "1.prems"(1) lt] _ refl _ "1.prems"(1)] lt
      by (cases "yield i (entry_bytes p (unat i)) s") (auto simp: unat_plus_1[OF True])
    finally show ?thesis by (simp add: up)
  next
    case False
    then show ?thesis using "1.prems" by (simp add: slots_loop.simps[of p _ i] word_less_nat_alt sc)
  qed
qed

lemma Slots_wf:
  assumes "wf_page p"
  shows "Slots p yield s = fold_yield (\<lambda>k. yield (of_nat k) (entry_bytes p k)) [0..<nslots p] s"
  using slots_loop_fold[OF assms, of 0] by (simp add: Slots_def)

subsection \<open>Properties\<close>

text \<open>C19. \<^verbatim>\<open>InsertTuple\<close> on a formatted page refines appending to the list of tuples: with room for
  the tuple and its slot it returns the next slot number, keeps the layout invariant, appends the
  tuple and uses exactly its bytes of free space; without room it returns \<^verbatim>\<open>ErrNoSpace\<close> and the
  page is unchanged. No other error and no panic is possible.\<close>

theorem InsertTuple_refines_append:
  assumes "wf_page p"
  shows "if length data + 4 \<le> unat (FreeSpace p)
    then \<exists>p'. InsertTuple p data = Some (Inr (of_nat (length (tuples p))), p') \<and> wf_page p' \<and>
      tuples p' = tuples p @ [data] \<and> unat (FreeSpace p') = unat (FreeSpace p) - (length data + 4)
    else InsertTuple p data = Some (Inl ErrNoSpace, p)"
proof -
  have "SlotCount p = of_nat (length (tuples p))"
    by (simp flip: unat_SlotCount_wf[OF assms])
  then show ?thesis
    by (cases rule: InsertTuple_cases[OF assms, of data]) auto
qed

theorem InsertTuple_refines_append_witness:
  "\<exists>p'. InsertTuple (Init NewPage_frame) [1, 2, 3] = Some (Inr 0, p') \<and> tuples p' = [[1, 2, 3]]"
  using InsertTuple_refines_append[of "Init NewPage_frame" "[1, 2, 3]"] wf_page_Init[of NewPage_frame]
  by auto

text \<open>On a formatted page \<^verbatim>\<open>SlotEntryAt\<close> accepts exactly the slots in use, and the entry it
  returns locates the tuple stored there: the two panicking accesses are inside the page.\<close>

theorem slot_lookup:
  assumes "wf_page p"
  shows "if unat i < length (tuples p)
    then \<exists>e. SlotEntryAt p i = Some e \<and> LocateTupleByEntry p e = Some (tuples p ! unat i)
    else SlotEntryAt p i = None"
  using SlotEntryAt_wf[OF assms, of i] LocateTupleByEntry_wf[OF assms, of "unat i"] by simp

theorem slot_lookup_witness:
  "\<exists>p' e. InsertTuple (Init NewPage_frame) [1, 2, 3] = Some (Inr 0, p') \<and>
    SlotEntryAt p' 0 = Some e \<and> LocateTupleByEntry p' e = Some [1, 2, 3]"
proof -
  obtain p' where p': "InsertTuple (Init NewPage_frame) [1, 2, 3] = Some (Inr (SlotCount (Init NewPage_frame)), p')"
    "wf_page p'" "tuples p' = tuples (Init NewPage_frame) @ [[1, 2, 3]]"
    using InsertTuple_ok[of "Init NewPage_frame" "[1, 2, 3]"] wf_page_Init[of NewPage_frame] by auto
  have "SlotCount (Init NewPage_frame) = 0"
    using unat_SlotCount_wf[of "Init NewPage_frame"] wf_page_Init[of NewPage_frame]
    by (simp add: nslots_Init unat_eq_0)
  then show ?thesis using slot_lookup[OF p'(2), of 0] p'(1,3) wf_page_Init(2)[of NewPage_frame]
    by (auto split: if_splits)
qed

text \<open>Ranging over \<^verbatim>\<open>Slots\<close> of a formatted page visits every slot once, in slot order, each with
  its own entry, and stops where the loop body stops: collecting the located tuples gives exactly
  the page's content.\<close>

theorem Slots_collects_tuples:
  assumes "wf_page p"
  shows "Slots p (\<lambda>i e acc. do { t \<leftarrow> LocateTupleByEntry p e; Some (True, acc @ [(unat i, t)]) }) [] =
    Some (enumerate 0 (tuples p))"
proof -
  have "fold_yield (\<lambda>k acc. do { t \<leftarrow> LocateTupleByEntry p (entry_bytes p k);
        Some (True, acc @ [(unat (of_nat k :: u16), t)]) }) [i..<nslots p] acc =
      Some (acc @ map (\<lambda>k. (k, tuple_bytes p k)) [i..<nslots p])"
    if "i \<le> nslots p" for i acc
    using that
  proof (induction "nslots p - i" arbitrary: i acc)
    case (Suc n)
    then have i: "i < nslots p" "unat (of_nat i :: u16) = i"
      using nslots_bound[OF assms] by (auto intro: unat_of_nat_small)
    then show ?case
      using Suc.hyps(1)[of "Suc i"] Suc.hyps(2)
      by (simp add: upt_conv_Cons LocateTupleByEntry_wf[OF assms])
  qed simp
  from this[of 0 "[]"] show ?thesis
    by (simp add: Slots_wf[OF assms] tuples_def enumerate_eq_zip)
      (simp add: zip_map2 zip_same_conv_map)
qed

theorem Slots_collects_tuples_witness:
  "Slots (Init NewPage_frame) (\<lambda>i e acc. do { t \<leftarrow> LocateTupleByEntry (Init NewPage_frame) e;
     Some (True, acc @ [(unat i, t)]) }) [] = Some []"
  using Slots_collects_tuples[of "Init NewPage_frame"] wf_page_Init[of NewPage_frame] by simp

lemma insert_all_spec:
  assumes "wf_page p"
  shows "if sum_list (map (\<lambda>d. length d + 4) ds) \<le> unat (FreeSpace p)
    then \<exists>p'. insert_all p ds = Some (map of_nat [nslots p..<nslots p + length ds], p') \<and>
      wf_page p' \<and> tuples p' = tuples p @ ds
    else insert_all p ds = None"
  using assms
proof (induction ds arbitrary: p)
  case (Cons d ds)
  from Cons.prems show ?case
  proof (cases rule: InsertTuple_cases[where data = d])
    case (inserted p')
    have sc: "SlotCount p = of_nat (nslots p)"
      by (simp flip: unat_SlotCount_wf[OF Cons.prems])
    have n: "nslots p' = Suc (nslots p)" using arg_cong[OF inserted(3), of length] by simp
    have up: "[nslots p..<nslots p + length (d # ds)] = nslots p # [Suc (nslots p)..<Suc (nslots p) + length ds]"
      by (simp add: upt_conv_Cons del: upt_Suc)
    show ?thesis using Cons.IH[OF inserted(2)] inserted(1,3-5)
      unfolding up by (auto simp: n sc simp del: upt_Suc split: if_splits)
  qed auto
qed simp

text \<open>Formatting any frame and inserting a list of tuples one after the other succeeds exactly
  when the tuples and their slot entries fit into the 8168 bytes after the header, gives out the
  slots 0, 1, 2, ... and leaves a page holding exactly that list.\<close>

theorem fill_page:
  assumes "length frame = 8192"
  shows "if sum_list (map (\<lambda>d. length d + 4) ds) \<le> 8168
    then \<exists>p. insert_all (Init frame) ds = Some (map of_nat [0..<length ds], p) \<and>
      wf_page p \<and> tuples p = ds
    else insert_all (Init frame) ds = None"
  using insert_all_spec[OF wf_page_Init(1)[OF assms], of ds]
  by (simp add: wf_page_Init(2,3)[OF assms] nslots_Init[OF assms] split: if_splits)

theorem fill_page_witness:
  "\<exists>p. insert_all (Init NewPage_frame) [[1], [], [2, 3]] = Some ([0, 1, 2], p) \<and>
     tuples p = [[1], [], [2, 3]]"
  using fill_page[of NewPage_frame "[[1], [], [2, 3]]"] by (auto simp del: insert_all.simps)

text \<open>A zeroed page that was never formatted is not an empty page: its slot count underflows to
  16378 and it has no free space, so inserting is refused while the iterator would walk past the
  page.\<close>

theorem unformatted_page:
  "SlotCount NewPage_frame = 16378 \<and> FreeSpace NewPage_frame = 0 \<and>
   InsertTuple NewPage_frame data = Some (Inl ErrNoSpace, NewPage_frame) \<and>
   SlotEntryAt NewPage_frame 2042 = None"
proof -
  have z: "subslice lo hi NewPage_frame = replicate (min 8192 hi - lo) 0" for lo hi
    by (simp add: subslice_def NewPage_frame_def layout_simps)
  have u: "PdUpper NewPage_frame = 0" "PdLower NewPage_frame = 0"
    by (simp_all add: PdUpper_def PdLower_def z be_uint_def numeral_2_eq_2)
  show ?thesis
    by (simp add: SlotCount_def u HeaderSize_def SlotEntrySize_def FreeSpace_def InsertTuple_def
        SlotEntryAt_def slotEntryAt_def slot_at_def go_slice_def)
qed

end
