(* ===== verification/Heap_File.thy ===== *)
theory Heap_File
  imports Pager_Interface Slotted_Page
begin

text \<open>
  The heap access method of \<^verbatim>\<open>internal/access/heap/heap.go\<close> over the pager interface. Every
  operation takes the pager and its state and returns the state after it.

  A scan's callback is a function on a state of its own, \<^typ>\<open>'c\<close>, that returns an error to stop: it
  stands for the Go closure and the variables it captures, and does not touch the pager.

  The abstract heap is the list of its pages' tuple lists (\<open>rows\<close>), looked up by tuple id
  (\<open>row_at\<close>). \<open>heap_ok\<close> says that every page is formatted.
\<close>

subsection \<open>Tuple ids\<close>

datatype TID = TID (Page: PageID) (Slot: u16)

text \<open>Tuple ids are ordered by page, then by slot: the physical order of a scan.\<close>

instantiation TID :: linorder
begin

definition less_eq_TID :: "TID \<Rightarrow> TID \<Rightarrow> bool" where
  "less_eq_TID a b \<longleftrightarrow> Page a < Page b \<or> (Page a = Page b \<and> Slot a \<le> Slot b)"

definition less_TID :: "TID \<Rightarrow> TID \<Rightarrow> bool" where
  "less_TID a b \<longleftrightarrow> Page a < Page b \<or> (Page a = Page b \<and> Slot a < Slot b)"

instance
  by standard (auto simp: less_eq_TID_def less_TID_def TID.expand)

end

subsection \<open>The code\<close>

definition heap_grow :: "'s pager \<Rightarrow> 's \<Rightarrow> byte list \<Rightarrow> ((err + TID) \<times> 's) option" where
  \<comment> \<open>the second half of \<^verbatim>\<open>Insert\<close>: allocate a fresh page and format it\<close>
  "heap_grow P s data = do {
     (r, s) \<leftarrow> NewPage P s;
     case r of
       Inl e \<Rightarrow> Some (Inl (Wrap ''heap: insert'' e), s)
     | Inr (raw, pid) \<Rightarrow> do {
         sp \<leftarrow> load P s raw;
         let s = store P s raw (Init sp);
         sp \<leftarrow> load P s raw;
         (r, sp) \<leftarrow> InsertTuple sp data;
         let s = store P s raw sp;
         case r of
           Inl e \<Rightarrow> do {
             (_, s) \<leftarrow> UnpinPage P s pid True;
             Some (Inl (Wrap ''heap: insert: tuple does not fit an empty page'' e), s)
           }
         | Inr slot \<Rightarrow> do {
             (_, s) \<leftarrow> UnpinPage P s pid True;
             Some (Inr (TID pid slot), s)
           }
       }
   }"

definition heap_Insert :: "'s pager \<Rightarrow> 's \<Rightarrow> byte list \<Rightarrow> ((err + TID) \<times> 's) option" where
  "heap_Insert P s data = do {
     n \<leftarrow> NumPages P s;
     if n > 0 then do {
       let pid = n - 1;
       (r, s) \<leftarrow> FetchPage P s pid;
       case r of
         Inl e \<Rightarrow> Some (Inl (Wrap ''heap: insert'' e), s)
       | Inr raw \<Rightarrow> do {
           sp \<leftarrow> load P s raw;
           (r, sp) \<leftarrow> InsertTuple sp data;
           let s = store P s raw sp;
           case r of
             Inr slot \<Rightarrow> do {
               (_, s) \<leftarrow> UnpinPage P s pid True;
               Some (Inr (TID pid slot), s)
             }
           | Inl e \<Rightarrow> do {
               (_, s) \<leftarrow> UnpinPage P s pid False;
               if \<not> errors_Is e ErrNoSpace then Some (Inl (Wrap ''heap: insert'' e), s)
               else heap_grow P s data
             }
         }
     }
     else heap_grow P s data
   }"

definition heap_Get :: "'s pager \<Rightarrow> 's \<Rightarrow> TID \<Rightarrow> ((err + byte list) \<times> 's) option" where
  "heap_Get P s tid = do {
     (r, s) \<leftarrow> FetchPage P s (Page tid);
     case r of
       Inl e \<Rightarrow> Some (Inl (Wrap ''heap: get'' e), s)
     | Inr raw \<Rightarrow> do {
         p \<leftarrow> load P s raw;
         if Slot tid \<ge> SlotCount p then do {
           (_, s) \<leftarrow> UnpinPage P s (Page tid) False;
           Some (Inl (Errorf ''heap: get: slot out of range''), s)
         }
         else do {
           entry \<leftarrow> SlotEntryAt p (Slot tid);
           src \<leftarrow> LocateTupleByEntry p entry;
           (_, s) \<leftarrow> UnpinPage P s (Page tid) False;
           Some (Inr src, s)
         }
       }
   }"

definition scanPage :: "PageID \<Rightarrow> page \<Rightarrow> (TID \<Rightarrow> byte list \<Rightarrow> 'c \<Rightarrow> (err + unit) \<times> 'c) \<Rightarrow> 'c \<Rightarrow>
    ((err + unit) \<times> 'c) option" where
  "scanPage pid p fn c =
     Slots p (\<lambda>slot entry (_, c). do {
         tup \<leftarrow> LocateTupleByEntry p entry;
         let (r, c) = fn (TID pid slot) tup c;
         case r of
           Inl e \<Rightarrow> Some (False, Inl e, c)
         | Inr _ \<Rightarrow> Some (True, Inr (), c)
       }) (Inr (), c)"

function heap_scan_from :: "'s pager \<Rightarrow> (TID \<Rightarrow> byte list \<Rightarrow> 'c \<Rightarrow> (err + unit) \<times> 'c) \<Rightarrow> PageID \<Rightarrow> 's \<Rightarrow> 'c \<Rightarrow>
    ((err + unit) \<times> 's \<times> 'c) option" where
  \<comment> \<open>the loop of \<^verbatim>\<open>Scan\<close>, from page \<open>pid\<close> on\<close>
  "heap_scan_from P fn pid s c = do {
     n \<leftarrow> NumPages P s;
     if pid < n then do {
       (r, s) \<leftarrow> FetchPage P s pid;
       case r of
         Inl e \<Rightarrow> Some (Inl (Wrap ''heap: scan page'' e), s, c)
       | Inr raw \<Rightarrow> do {
           p \<leftarrow> load P s raw;
           (r, c) \<leftarrow> scanPage pid p fn c;
           (_, s) \<leftarrow> UnpinPage P s pid False;
           case r of
             Inl e \<Rightarrow> Some (Inl e, s, c)
           | Inr _ \<Rightarrow> heap_scan_from P fn (pid + 1) s c
         }
     }
     else Some (Inr (), s, c)
   }"
  by pat_completeness auto
termination
  by (relation "measure (\<lambda>(P, fn, pid, s, c). 2 ^ 32 - unat pid)")
    (auto simp only: in_measure prod.case intro: u32_distance)

definition heap_Scan :: "'s pager \<Rightarrow> 's \<Rightarrow> (TID \<Rightarrow> byte list \<Rightarrow> 'c \<Rightarrow> (err + unit) \<times> 'c) \<Rightarrow> 'c \<Rightarrow>
    ((err + unit) \<times> 's \<times> 'c) option" where
  "heap_Scan P s fn c = heap_scan_from P fn 0 s c"

declare heap_scan_from.simps [simp del]

subsection \<open>The abstract heap\<close>

definition rows :: "page list \<Rightarrow> byte list list list" where
  "rows ps = map tuples ps"

definition row_at :: "page list \<Rightarrow> TID \<Rightarrow> byte list option" where
  "row_at ps tid =
     (if unat (Page tid) < length ps \<and> unat (Slot tid) < length (rows ps ! unat (Page tid))
      then Some (rows ps ! unat (Page tid) ! unat (Slot tid)) else None)"

definition heap_ok :: "page list \<Rightarrow> bool" where
  "heap_ok ps \<longleftrightarrow> list_all wf_page ps"

text \<open>All tuples in physical order, each with its id.\<close>

definition page_rows :: "page list \<Rightarrow> nat \<Rightarrow> (TID \<times> byte list) list" where
  "page_rows ps i = map (\<lambda>j. (TID (of_nat i) (of_nat j), tuples (ps ! i) ! j)) [0..<length (tuples (ps ! i))]"

definition heap_list :: "page list \<Rightarrow> (TID \<times> byte list) list" where
  "heap_list ps = concat (map (page_rows ps) [0..<length ps])"

subsection \<open>Changing one page of the abstract heap\<close>

lemma heap_okD: "heap_ok ps \<Longrightarrow> i < length ps \<Longrightarrow> wf_page (ps ! i)"
  by (simp add: heap_ok_def list_all_length)

lemma heap_ok_append: "heap_ok ps \<Longrightarrow> wf_page p \<Longrightarrow> heap_ok (ps @ [p])"
  by (simp add: heap_ok_def)

lemma heap_ok_update: "heap_ok ps \<Longrightarrow> wf_page p \<Longrightarrow> heap_ok (ps[i := p])"
  by (auto simp: heap_ok_def list_all_iff dest!: set_update_subset_insert[THEN subsetD])

lemma length_rows [simp]: "length (rows ps) = length ps"
  by (simp add: rows_def)

lemma row_at_append_empty: "tuples p = [] \<Longrightarrow> row_at (ps @ [p]) = row_at ps"
  by (auto simp: row_at_def rows_def nth_append fun_eq_iff less_Suc_eq)

lemma row_at_append:
  assumes "tuples p = [data]" "unat pid = length ps"
  shows "row_at (ps @ [p]) = (row_at ps)(TID pid 0 \<mapsto> data)" "row_at ps (TID pid 0) = None"
proof
  fix tid
  obtain q s where tid: "tid = TID q s" by (cases tid)
  have "unat q = length ps \<longleftrightarrow> q = pid" using assms(2) by (metis word_unat_eq_iff)
  then show "row_at (ps @ [p]) tid = ((row_at ps)(TID pid 0 \<mapsto> data)) tid"
    using assms by (auto simp: row_at_def rows_def nth_append less_Suc_eq tid unat_eq_0)
qed (simp add: row_at_def assms)

lemma row_at_update:
  assumes "tuples p = tuples (ps ! unat pid) @ [data]" "unat pid < length ps"
    and n: "length (tuples (ps ! unat pid)) < 2 ^ 16"
  defines "slot \<equiv> of_nat (length (tuples (ps ! unat pid)))"
  shows "row_at (ps[unat pid := p]) = (row_at ps)(TID pid slot \<mapsto> data)" "row_at ps (TID pid slot) = None"
proof -
  have sl: "unat slot = length (tuples (ps ! unat pid))" using n by (simp add: slot_def unat_of_nat_small)
  show "row_at ps (TID pid slot) = None" using sl by (simp add: row_at_def rows_def assms(2))
  show "row_at (ps[unat pid := p]) = (row_at ps)(TID pid slot \<mapsto> data)"
  proof
    fix tid
    obtain q s where tid: "tid = TID q s" by (cases tid)
    have q: "unat q = unat pid \<longleftrightarrow> q = pid" and s: "unat s = unat slot \<longleftrightarrow> s = slot"
      by (metis word_unat_eq_iff)+
    show "row_at (ps[unat pid := p]) tid = ((row_at ps)(TID pid slot \<mapsto> data)) tid"
      using assms(1,2) q s sl
      by (cases "q = pid") (auto simp: row_at_def rows_def nth_append nth_list_update less_Suc_eq tid)
  qed
qed

subsection \<open>Inserting\<close>

text \<open>What an insert may do to the pages: on success the tuple is new, at the end of the physical
  order, and every other tuple stays; on an error every tuple stays.\<close>

definition heap_inserted :: "page list \<Rightarrow> byte list \<Rightarrow> err + TID \<Rightarrow> page list \<Rightarrow> bool" where
  "heap_inserted ps data r ps' \<longleftrightarrow> heap_ok ps' \<and>
     (case r of
        Inr tid \<Rightarrow> row_at ps tid = None \<and> row_at ps' = (row_at ps)(tid \<mapsto> data) \<and>
          concat (rows ps') = concat (rows ps) @ [data]
      | Inl _ \<Rightarrow> row_at ps' = row_at ps \<and> concat (rows ps') = concat (rows ps))"

lemma heap_inserted_append:
  assumes "heap_ok ps" "wf_page p" "tuples p = [data]" "unat pid = length ps"
  shows "heap_inserted ps data (Inr (TID pid 0)) (ps @ [p])"
  using assms heap_ok_append[OF assms(1,2)] row_at_append[OF assms(3,4)]
  by (simp add: heap_inserted_def rows_def)

lemma heap_inserted_empty:
  assumes "heap_ok ps" "wf_page p" "tuples p = []"
  shows "heap_inserted ps data (Inl e) (ps @ [p])"
  using assms heap_ok_append[OF assms(1,2)] row_at_append_empty[OF assms(3)]
  by (simp add: heap_inserted_def rows_def)

lemma heap_inserted_last:
  assumes "heap_ok ps" "wf_page p" "ps \<noteq> []" "unat pid = length ps - 1"
    and t: "tuples p = tuples (last ps) @ [data]" and slot: "slot = SlotCount (last ps)"
  shows "heap_inserted ps data (Inr (TID pid slot)) (ps[unat pid := p])"
proof -
  have pid: "unat pid < length ps" "ps ! unat pid = last ps" using assms(3,4) by (auto simp: last_conv_nth)
  have wf: "wf_page (last ps)" using heap_okD[OF assms(1) pid(1)] pid(2) by simp
  have n: "length (tuples (last ps)) < 2 ^ 16" using nslots_bound[OF wf] by simp
  have "slot = of_nat (length (tuples (last ps)))" by (simp add: slot flip: unat_SlotCount_wf[OF wf])
  moreover have "ps[unat pid := p] = butlast ps @ [p]"
    using assms(3,4) by (metis append_butlast_last_id length_butlast list_update_length)
  moreover have "concat (rows (butlast ps @ [p])) = concat (rows ps) @ [data]"
  proof -
    have "rows ps = rows (butlast ps) @ [tuples (last ps)]"
      using assms(3) by (metis append_butlast_last_id list.simps(8,9) map_append rows_def)
    then show ?thesis using t by (simp add: rows_def)
  qed
  ultimately show ?thesis
    using row_at_update[of p ps pid data] t pid n heap_ok_update[OF assms(1,2), of "unat pid"]
    by (simp add: heap_inserted_def)
qed

subsection \<open>Scanning a page\<close>

text \<open>A scan from page \<open>i\<close> that ends at a page it cannot read has visited the pages before it.\<close>

definition scan_stops :: "(TID \<Rightarrow> byte list \<Rightarrow> 'c \<Rightarrow> (err + unit) \<times> 'c) \<Rightarrow> page list \<Rightarrow> nat \<Rightarrow> 'c \<Rightarrow> err + unit \<Rightarrow> 'c \<Rightarrow> bool" where
  "scan_stops fn ps i c r c' \<longleftrightarrow> (\<exists>e j. r = Inl (Wrap ''heap: scan page'' e) \<and> j < length ps \<and> i \<le> j \<and>
     visit fn (concat (map (page_rows ps) [i..<j])) c = (Inr (), c'))"

lemma scan_stops_step:
  assumes "visit fn (page_rows ps i) c = (Inr u, c1)" "scan_stops fn ps (Suc i) c1 r c'"
  shows "scan_stops fn ps i c r c'"
proof -
  obtain e j where j: "r = Inl (Wrap ''heap: scan page'' e)" "j < length ps" "Suc i \<le> j"
    "visit fn (concat (map (page_rows ps) [Suc i..<j])) c1 = (Inr (), c')"
    using assms(2) by (auto simp: scan_stops_def)
  have "visit fn (concat (map (page_rows ps) [i..<j])) c = (Inr (), c')"
    using j(3,4) assms(1) by (simp add: upt_conv_Cons visit_append)
  then show ?thesis using j unfolding scan_stops_def by (metis Suc_leD)
qed

text \<open>The end of a scan from page \<open>i\<close> on: all tuples visited, or stopped by a page that cannot be read.\<close>

definition scan_done :: "(TID \<Rightarrow> byte list \<Rightarrow> 'c \<Rightarrow> (err + unit) \<times> 'c) \<Rightarrow> page list \<Rightarrow> nat \<Rightarrow> bool \<Rightarrow> 'c \<Rightarrow> err + unit \<Rightarrow> 'c \<Rightarrow> bool \<Rightarrow> bool" where
  "scan_done fn ps i io_ok c r c' io_ok' \<longleftrightarrow>
     (r, c') = visit fn (concat (map (page_rows ps) [i..<length ps])) c \<and> (io_ok \<longrightarrow> io_ok') \<or> \<not> io_ok \<and> scan_stops fn ps i c r c'"

lemma scan_done_mono: "scan_done fn ps i io c r c' io' \<Longrightarrow> (io2 \<longrightarrow> io) \<Longrightarrow> scan_done fn ps i io2 c r c' io'"
  by (auto simp: scan_done_def)

lemma scan_done_page:
  assumes i: "i < length ps" and v: "visit fn (page_rows ps i) c = (r1, c1)"
  shows "r1 = Inl e \<Longrightarrow> scan_done fn ps i io c (Inl e) c1 io"
    "r1 = Inr () \<Longrightarrow> scan_done fn ps (Suc i) io c1 r c' io' \<Longrightarrow> scan_done fn ps i io c r c' io'"
proof -
  have up: "[i..<length ps] = i # [Suc i..<length ps]" using i by (simp add: upt_conv_Cons)
  show "scan_done fn ps i io c (Inl e) c1 io" if "r1 = Inl e" using that v by (simp add: scan_done_def up visit_append)
  show "scan_done fn ps i io c r c' io'" if "r1 = Inr ()" "scan_done fn ps (Suc i) io c1 r c' io'"
    using that v scan_stops_step[of fn ps i c "()" c1 r c'] by (auto simp: scan_done_def up visit_append)
qed

lemma scanPage_visit:
  assumes "wf_page (ps ! i)" "unat pid = i"
  shows "scanPage pid (ps ! i) fn c = Some (visit fn (page_rows ps i) c)"
proof -
  let ?p = "ps ! i"
  let ?y = "\<lambda>slot entry (_ :: err + unit, c). do {
         tup \<leftarrow> LocateTupleByEntry ?p entry;
         let (r, c) = fn (TID pid slot) tup c;
         case r of
           Inl e \<Rightarrow> Some (False, Inl e, c)
         | Inr _ \<Rightarrow> Some (True, Inr (), c)
       }"
  have "fold_yield (\<lambda>k. ?y (of_nat k) (entry_bytes ?p k)) js (Inr (), c) =
      Some (visit fn (map (\<lambda>j. (TID pid (of_nat j), tuples ?p ! j)) js) c)"
    if "\<forall>j \<in> set js. j < nslots ?p" for js
    using that
  proof (induction js arbitrary: c)
    case (Cons j js)
    then have "LocateTupleByEntry ?p (entry_bytes ?p j) = Some (tuples ?p ! j)"
      using LocateTupleByEntry_wf[OF assms(1)] by simp
    then show ?case using Cons by (auto split: prod.split sum.split)
  qed simp
  from this[of "[0..<nslots ?p]"] have "scanPage pid ?p fn c =
      Some (visit fn (map (\<lambda>j. (TID pid (of_nat j), tuples ?p ! j)) [0..<nslots ?p]) c)"
    unfolding scanPage_def Slots_wf[OF assms(1)] by simp
  moreover have "of_nat i = pid" using assms(2) by auto
  ultimately show ?thesis by (simp add: page_rows_def)
qed

context page_cache
begin

lemma heap_grow_spec:
  assumes s: "ok s" and h: "heap_ok (fpages (view s))"
  shows "\<exists>r s' ps'. heap_grow P s data = Some (r, s') \<and> ok s' \<and> view s' = view s\<lparr>fpages := ps'\<rparr> \<and>
    heap_inserted (fpages (view s)) data r ps' \<and>
    (calm s \<and> Suc (length (fpages (view s))) < 2 ^ 32 \<and> 0 < room_of s \<longrightarrow>
      calm s' \<and> ((\<exists>tid. r = Inr tid) \<longleftrightarrow> length data \<le> 8164))"
proof -
  obtain r s1 where n: "NewPage P s = Some (r, s1)" using new_total[OF s] by blast
  let ?ps = "fpages (view s)"
  show ?thesis
  proof (cases r)
    case (Inl e)
    then show ?thesis
      using n new_err[OF s, of e s1] h new_calm[OF s _ _ _ n]
      by (auto simp: heap_grow_def heap_inserted_def intro!: exI[of _ ?ps])
  next
    case (Inr x)
    obtain raw pid where r: "r = Inr (raw, pid)" using Inr by (cases x) auto
    note np = new_page_write[OF s n[unfolded r]]
    define p0 where "p0 = Init NewPage_frame"
    have p0: "wf_page p0" "tuples p0 = []" "length p0 = 8192" "unat (FreeSpace p0) = 8168"
      using wf_page_Init[of NewPage_frame] wf_pageD(1) by (auto simp: p0_def)
    let ?s2 = "store P s1 raw p0"
    have c: "calm s1" if "calm s \<and> Suc (length ?ps) < 2 ^ 32 \<and> 0 < room_of s"
      using new_calm[OF s _ _ _ n] that by auto
    have step: "heap_grow P s data = do {
        (r, sp) \<leftarrow> InsertTuple p0 data;
        case r of
          Inl e \<Rightarrow> do { (_, s) \<leftarrow> UnpinPage P (store P ?s2 raw sp) pid True;
            Some (Inl (Wrap ''heap: insert: tuple does not fit an empty page'' e), s) }
        | Inr slot \<Rightarrow> do { (_, s) \<leftarrow> UnpinPage P (store P ?s2 raw sp) pid True; Some (Inr (TID pid slot), s) } }"
      unfolding p0_def by (simp add: heap_grow_def n r np(2) np(3)[OF p0(3), unfolded p0_def] Let_def)
    from p0(1) show ?thesis
    proof (cases rule: InsertTuple_cases[where data = data])
      case no_space
      obtain s3 where "UnpinPage P (store P ?s2 raw p0) pid True = Some (Inr (), s3) \<and> ok s3 \<and>
        view s3 = view s\<lparr>fpages := ?ps @ [p0]\<rparr> \<and> (calm s1 \<longrightarrow> calm s3)" using np(4)[OF p0(3) p0(3)] by blast
      then show ?thesis
        using no_space c p0(4) heap_inserted_empty[OF h p0(1,2)] by (auto simp: step intro!: exI[of _ "?ps @ [p0]"])
    next
      case (inserted p')
      obtain s3 where "UnpinPage P (store P ?s2 raw p') pid True = Some (Inr (), s3) \<and> ok s3 \<and>
        view s3 = view s\<lparr>fpages := ?ps @ [p']\<rparr> \<and> (calm s1 \<longrightarrow> calm s3)" using np(4)[OF p0(3) wf_pageD(1)[OF inserted(2)]] by blast
      moreover have "SlotCount p0 = 0" using unat_SlotCount_wf[OF p0(1)] p0(2) length_tuples[of p0] by (simp add: unat_eq_0)
      ultimately show ?thesis
        using inserted c p0(2,4) heap_inserted_append[OF h inserted(2) _ np(1), of data]
        by (auto simp: step intro!: exI[of _ "?ps @ [p']"])
    qed
  qed
qed

text \<open>The attempt on the last page, once it is pinned: the tuple goes there, or the heap grows.\<close>

lemma heap_Insert_last:
  assumes s: "ok s" and h: "heap_ok (fpages (view s))" and u: "\<And>pid. \<not> unsaved (view s) pid"
    and n: "NumPages P s = Some n" "0 < n" and pid: "unat (n - 1) = length (fpages (view s)) - 1" "fpages (view s) \<noteq> []"
    and f: "FetchPage P s (n - 1) = Some (Inr raw, s1)"
  shows "\<exists>r s' ps'. heap_Insert P s data = Some (r, s') \<and> ok s' \<and> view s' = view s\<lparr>fpages := ps'\<rparr> \<and>
    heap_inserted (fpages (view s)) data r ps' \<and>
    (calm s1 \<and> Suc (length (fpages (view s))) < 2 ^ 32 \<and> 0 < room_of s \<longrightarrow>
      calm s' \<and> ((\<exists>tid. r = Inr tid) \<longleftrightarrow> length data \<le> 8164))"
proof -
  let ?ps = "fpages (view s)" and ?pid = "n - 1"
  note f1 = fetch_ok[OF s f]
  have at: "?ps ! unat ?pid = last ?ps" using pid by (simp add: last_conv_nth)
  have wf: "wf_page (last ?ps)" using heap_okD[OF h, of "unat ?pid"] pid at by simp
  have ld: "load P s1 raw = Some (last ?ps)" using load_ptr[of s1 ?pid raw] f1 at by simp
  from wf show ?thesis
  proof (cases rule: InsertTuple_cases[where data = data])
    case no_space
    have st: "store P s1 raw (last ?ps) = s1" using store_same[of s1 ?pid raw] f1 at by simp
    obtain s2 where s2: "UnpinPage P s1 ?pid False = Some (Inr (), s2)" "ok s2" "view s2 = view s" "calm s1 \<longrightarrow> calm s2"
      by (rule read_page[OF s f]) blast
    have "room_of s2 = room_of s" using room_held[OF s s2(2), of ?pid "held (view s) ?pid"] s2(3) by simp
    moreover have "heap_Insert P s data = heap_grow P s2 data"
      using n f ld no_space(1) st s2(1) by (simp add: heap_Insert_def ErrNoSpace_def)
    ultimately show ?thesis using heap_grow_spec[OF s2(2), of data] h s2(3,4) by (auto 0 3)
  next
    case (inserted p')
    obtain s2 where s2: "UnpinPage P (store P s1 raw p') ?pid True = Some (Inr (), s2)" "ok s2"
      "view s2 = view s1\<lparr>fpages := (fpages (view s1))[unat ?pid := p'],
         held := (held (view s1))(?pid := held (view s1) ?pid - 1), unsaved := (unsaved (view s1))(?pid := False)\<rparr>"
      "calm s1 \<longrightarrow> calm s2"
      by (rule write_release[of s1 ?pid raw p']) (use f1 wf_pageD(1)[OF inserted(2)] in auto)
    have "view s2 = view s\<lparr>fpages := ?ps[unat ?pid := p']\<rparr>" using s2(3) f1 u by (simp add: fun_upd_idem)
    moreover have "heap_Insert P s data = Some (Inr (TID ?pid (SlotCount (last ?ps))), s2)"
      using n f ld inserted(1) s2(1) by (simp add: heap_Insert_def)
    moreover have "length data \<le> 8164" using inserted(4) unat_FreeSpace[OF wf] wf_page_lower[OF wf] by simp
    ultimately show ?thesis
      using heap_inserted_last[OF h inserted(2) pid(2,1) inserted(3) refl] s2(2,4) by auto
  qed
qed

lemma heap_Insert_spec:
  assumes s: "ok s" and h: "heap_ok (fpages (view s))" and u: "\<And>pid. \<not> unsaved (view s) pid"
  shows "\<exists>r s' ps'. heap_Insert P s data = Some (r, s') \<and> ok s' \<and> view s' = view s\<lparr>fpages := ps'\<rparr> \<and>
    heap_inserted (fpages (view s)) data r ps' \<and>
    (calm s \<and> Suc (length (fpages (view s))) < 2 ^ 32 \<and> 0 < room_of s \<longrightarrow>
      calm s' \<and> ((\<exists>tid. r = Inr tid) \<longleftrightarrow> length data \<le> 8164))"
proof -
  let ?ps = "fpages (view s)"
  obtain n where n: "NumPages P s = Some n" "unat n = length ?ps" using num_pages_ok[OF s] by blast
  show ?thesis
  proof (cases "n > 0")
    case False
    then show ?thesis using heap_grow_spec[OF s h] n(1) by (simp add: heap_Insert_def)
  next
    case True
    have pid: "unat (n - 1) = length ?ps - 1" "?ps \<noteq> []"
      using True n(2) by (auto simp: unat_sub_small word_less_nat_alt Suc_le_eq)
    obtain r s1 where f: "FetchPage P s (n - 1) = Some (r, s1)" using fetch_total[OF s] by blast
    have c: "calm s1 \<and> (\<exists>raw. r = Inr raw)" if "calm s \<and> 0 < room_of s" using fetch_calm[OF s _ _ _ f] that pid by auto
    show ?thesis
    proof (cases r)
      case (Inl e)
      then show ?thesis
        using f n True fetch_err[OF s, of "n - 1" e s1] h c
        by (auto simp: heap_Insert_def heap_inserted_def intro!: exI[of _ ?ps])
    next
      case (Inr raw)
      then show ?thesis using heap_Insert_last[OF s h u n(1) True pid, of raw s1 data] f c by (auto 0 3)
    qed
  qed
qed

subsection \<open>Reading\<close>

lemma heap_Get_spec:
  assumes s: "ok s" and h: "heap_ok (fpages (view s))"
  shows "\<exists>r s'. heap_Get P s tid = Some (r, s') \<and> ok s' \<and> view s' = view s \<and>
    (\<forall>d. r = Inr d \<longrightarrow> row_at (fpages (view s)) tid = Some d) \<and>
    (calm s \<and> 0 < room_of s \<longrightarrow> (\<forall>d. row_at (fpages (view s)) tid = Some d \<longrightarrow> r = Inr d \<and> calm s'))"
proof -
  let ?ps = "fpages (view s)" and ?pid = "Page tid"
  obtain r s1 where f: "FetchPage P s ?pid = Some (r, s1)" using fetch_total[OF s] by blast
  show ?thesis
  proof (cases r)
    case (Inl e)
    have "\<not> unat ?pid < length ?ps" if "calm s" "0 < room_of s" using fetch_calm[OF s _ _ _ f] that Inl by auto
    then show ?thesis
      using f Inl fetch_err[OF s, of ?pid e s1] by (auto simp: heap_Get_def row_at_def)
  next
    case (Inr raw)
    obtain s2 where s2: "load P s1 raw = Some (?ps ! unat ?pid)" "UnpinPage P s1 ?pid False = Some (Inr (), s2)"
      "ok s2" "view s2 = view s" "unat ?pid < length ?ps" "calm s1 \<longrightarrow> calm s2"
      by (rule read_page[OF s f[unfolded Inr]]) blast
    have wf: "wf_page (?ps ! unat ?pid)" by (rule heap_okD[OF h s2(5)])
    have c: "calm s1" if "calm s" "0 < room_of s" using fetch_calm[OF s _ s2(5) _ f] that by blast
    show ?thesis
    proof (cases "unat (Slot tid) < nslots (?ps ! unat ?pid)")
      case False
      then show ?thesis using f Inr s2 unat_SlotCount_wf[OF wf]
        by (auto simp: heap_Get_def row_at_def rows_def word_le_nat_alt)
    next
      case True
      then show ?thesis
        using f Inr s2 unat_SlotCount_wf[OF wf] SlotEntryAt_wf[OF wf, of "Slot tid"] LocateTupleByEntry_wf[OF wf True] c
        by (auto simp: heap_Get_def row_at_def rows_def word_le_nat_alt)
    qed
  qed
qed

text \<open>A scan runs the callback over the tuples in physical order, up to its first error or a page
  that cannot be read.\<close>

lemma heap_scan_done:
  assumes "ok s" "view s = V" "heap_ok (fpages V)" "unat pid \<le> length (fpages V)"
  shows "\<exists>r s' c'. heap_scan_from P fn pid s c = Some (r, s', c') \<and> ok s' \<and> view s' = V \<and> room_of s' = room_of s \<and>
    scan_done fn (fpages V) (unat pid) (calm s \<and> 0 < room_of s) c r c' (calm s')"
  using assms
proof (induction "length (fpages V) - unat pid" arbitrary: pid s c)
  case 0
  obtain n where n: "NumPages P s = Some n" "unat n = length (fpages V)" using num_pages_ok[OF "0.prems"(1)] "0.prems"(2) by auto
  then have "\<not> pid < n" using 0 by (simp add: word_less_nat_alt)
  then show ?case using 0 n by (simp add: heap_scan_from.simps[of P fn pid] scan_done_def)
next
  case (Suc k)
  let ?ps = "fpages V"
  note s = Suc.prems(1)
  obtain n where n: "NumPages P s = Some n" "unat n = length ?ps" using num_pages_ok[OF s] Suc.prems(2) by auto
  have lt: "pid < n" "unat pid < length (fpages (view s))" using Suc.hyps(2) n Suc.prems(2) by (auto simp: word_less_nat_alt)
  have suc: "unat (pid + 1) = Suc (unat pid)" by (rule unat_plus_1[OF lt(1)])
  from s lt(2) show ?case
  proof (cases rule: read_cases)
    case (failed e s')
    then show ?thesis
      using n(1) lt Suc.prems(2) room_same[OF s, of s' ?ps]
      by (auto simp: heap_scan_from.simps[of P fn pid] scan_done_def scan_stops_def intro!: exI[of _ "unat pid"])
  next
    case (served raw s1 s2)
    obtain r1 c1 where v: "visit fn (page_rows ?ps (unat pid)) c = (r1, c1)" by fastforce
    have "scanPage pid (?ps ! unat pid) fn c = Some (r1, c1)"
      using scanPage_visit[OF heap_okD[OF Suc.prems(3)] refl, of pid fn c] lt(2) Suc.prems(2) v by simp
    then have step: "heap_scan_from P fn pid s c =
        (case r1 of Inl e \<Rightarrow> Some (Inl e, s2, c1) | Inr _ \<Rightarrow> heap_scan_from P fn (pid + 1) s2 c1)"
      using n(1) lt(1) served(1-3) Suc.prems(2) by (simp add: heap_scan_from.simps[of P fn pid])
    note pg = scan_done_page[OF lt(2)[unfolded Suc.prems(2)] v]
    show ?thesis
    proof (cases r1)
      case (Inl e)
      then show ?thesis using step served(4-7) pg(1)[OF Inl] Suc.prems(2) by (auto simp: scan_done_def)
    next
      case (Inr u)
      have "k = length ?ps - unat (pid + 1)" "unat (pid + 1) \<le> length ?ps" "view s2 = V"
        using Suc.hyps(2) lt(2) suc served(5) Suc.prems(2) by auto
      from Suc.hyps(1)[OF this(1) served(4) this(3) Suc.prems(3) this(2), of c1] obtain r' s' c' where
        ih: "heap_scan_from P fn (pid + 1) s2 c1 = Some (r', s', c')" "ok s'" "view s' = V" "room_of s' = room_of s2"
          "scan_done fn ?ps (Suc (unat pid)) (calm s2 \<and> 0 < room_of s2) c1 r' c' (calm s')" unfolding suc by blast
      have "scan_done fn ?ps (unat pid) (calm s \<and> 0 < room_of s) c r' c' (calm s')"
        by (rule pg(2)[OF _ scan_done_mono[OF ih(5)]]) (use Inr served(6,7) in auto)
      then show ?thesis using ih(1-4) step Inr served(6) by simp
    qed
  qed
qed

lemma heap_scan_from_spec:
  assumes "ok s" "view s = V" "heap_ok (fpages V)" "unat pid \<le> length (fpages V)"
  shows "\<exists>r s' c'. heap_scan_from P fn pid s c = Some (r, s', c') \<and> ok s' \<and> view s' = V \<and>
    (((r, c') = visit fn (concat (map (page_rows (fpages V)) [unat pid..<length (fpages V)])) c \<and>
      (calm s \<and> 0 < room_of s \<longrightarrow> calm s')) \<or>
     (\<not> (calm s \<and> 0 < room_of s) \<and> scan_stops fn (fpages V) (unat pid) c r c'))"
  using heap_scan_done[OF assms, of fn c] unfolding scan_done_def by blast

end

subsection \<open>The physical order\<close>

lemma page_rows_TID:
  assumes "(tid, d) \<in> set (page_rows ps i)" "heap_ok ps" "i < length ps" "length ps < 2 ^ 32"
  shows "unat (Page tid) = i" "row_at ps tid = Some d"
proof -
  obtain j where j: "j < nslots (ps ! i)" "tid = TID (of_nat i) (of_nat j)" "d = tuples (ps ! i) ! j"
    using assms(1) by (auto simp: page_rows_def)
  have "j < 2 ^ 16" using j(1) nslots_bound[OF heap_okD[OF assms(2,3)]] by simp
  then have u: "unat (Page tid) = i" "unat (Slot tid) = j" using j(2) assms(3,4) by (simp_all add: unat_of_nat_small)
  then show "unat (Page tid) = i" "row_at ps tid = Some d"
    using j assms(3) by (simp_all add: row_at_def rows_def)
qed

lemma heap_list_row_at:
  assumes h: "heap_ok ps" "length ps < 2 ^ 32"
  shows "(tid, d) \<in> set (heap_list ps) \<longleftrightarrow> row_at ps tid = Some d"
proof
  assume "(tid, d) \<in> set (heap_list ps)"
  then show "row_at ps tid = Some d" using page_rows_TID(2)[OF _ h(1) _ h(2)] by (auto simp: heap_list_def)
next
  assume r: "row_at ps tid = Some d"
  then have i: "unat (Page tid) < length ps" "unat (Slot tid) < length (tuples (ps ! unat (Page tid)))"
    "d = tuples (ps ! unat (Page tid)) ! unat (Slot tid)"
    by (auto simp: row_at_def rows_def split: if_splits)
  have "(tid, d) \<in> set (page_rows ps (unat (Page tid)))"
    unfolding page_rows_def using i(2,3) by (cases tid) (auto simp: image_iff intro!: bexI[of _ "unat (Slot tid)"])
  then show "(tid, d) \<in> set (heap_list ps)" using i(1) by (auto simp: heap_list_def)
qed

lemma page_rows_sorted:
  assumes "nslots (ps ! i) \<le> 2042"
  shows "sorted_wrt (<) (map fst (page_rows ps i))"
proof -
  have "(of_nat a :: u16) < of_nat b" if "a < b" "b < nslots (ps ! i)" for a b
    using that assms by (simp add: word_less_nat_alt unat_of_nat_small)
  then show ?thesis
    by (auto simp: page_rows_def sorted_wrt_iff_nth_less less_TID_def)
qed

lemma heap_list_sorted:
  assumes h: "heap_ok ps" "length ps < 2 ^ 32"
  shows "sorted_wrt (<) (map fst (heap_list ps))"
proof -
  have "sorted_wrt (<) (map fst (concat (map (page_rows ps) [0..<n])))" if "n \<le> length ps" for n
    using that
  proof (induction n)
    case (Suc n)
    have "a < b" if ab: "a \<in> fst ` set (concat (map (page_rows ps) [0..<n]))" "b \<in> fst ` set (page_rows ps n)" for a b
    proof -
      obtain i da db where "i < n" "(a, da) \<in> set (page_rows ps i)" "(b, db) \<in> set (page_rows ps n)"
        using ab by fastforce
      then have "unat (Page a) = i" "unat (Page b) = n"
        using page_rows_TID(1)[OF _ h(1) _ h(2)] Suc.prems by auto
      then show ?thesis using \<open>i < n\<close> by (simp add: less_TID_def word_less_nat_alt)
    qed
    moreover have "sorted_wrt (<) (map fst (page_rows ps n))"
      using page_rows_sorted nslots_bound[OF heap_okD[OF h(1)]] Suc.prems by simp
    ultimately show ?case using Suc by (simp add: sorted_wrt_append)
  qed simp
  from this[of "length ps"] show ?thesis by (simp add: heap_list_def)
qed

subsection \<open>A concrete heap file\<close>

definition empty_file :: DiskManager where
  "empty_file = \<lparr>dm_file = \<lparr>content = [], durable = [], outcomes = []\<rparr>, numPages = 0\<rparr>"

definition pool_over :: "int \<Rightarrow> DiskManager \<Rightarrow> DiskManager BufferPool" where
  "pool_over n d = snd (Register (the (NewBufferPool n)) d)"

lemma pool_over:
  assumes n: "0 < n" and d: "disk_inv d" "disk_quiet d"
  shows "pool_ok disk_pages disk_inv 0 (pool_over n d)" "fpages (pool_view disk_pages 0 (pool_over n d)) = disk_pages d"
    "all_quiet disk_quiet (pool_over n d)" "room (pool_over n d) = nat n" "\<not> at_risk disk_pages (pool_over n d) k"
    "pageTable (pool_over n d) = Map.empty" "files (pool_over n d) = [d]"
proof -
  let ?bp = "the (NewBufferPool n) :: DiskManager BufferPool"
  have "NewBufferPool n = Some ?bp" using n by (simp add: NewBufferPool_def)
  note new = NewBufferPool_inv[OF this]
  have r: "Register ?bp d = (0, pool_over n d)" by (simp add: Register_def pool_over_def new(2))
  note reg = Register_view[where ok = disk_inv and pages = disk_pages, OF new(1) d(1) _ r]
  show f: "files (pool_over n d) = [d]" using new(2) by (simp add: pool_over_def Register_def)
  show ok: "pool_ok disk_pages disk_inv 0 (pool_over n d)" using reg(1) new(2) by (simp add: pool_ok_def f)
  show "all_quiet disk_quiet (pool_over n d)" using d(2) by (simp add: all_quiet_def f)
  show "room (pool_over n d) = nat n" using new(2,3) reg(6) by (simp add: room_def) (simp add: pool_over_def Register_def)
  show t: "pageTable (pool_over n d) = Map.empty" using n by (simp add: pool_over_def Register_def NewBufferPool_def)
  then show "\<not> at_risk disk_pages (pool_over n d) k" by (simp add: at_risk_def)
  have len: "npages disk_pages (pool_over n d) 0 = length (disk_pages d)" using reg(3) new(2) by simp
  have "length (disk_pages d) < 2 ^ 32" by (simp add: disk_pages_def unsigned_less[where 'a = nat, of "numPages d", simplified])
  then show "fpages (pool_view disk_pages 0 (pool_over n d)) = disk_pages d"
    by (intro nth_equalityI) (simp_all add: pool_view_def mk_view_def len page_of_def t disk_of_def f unat_of_nat_small)
qed

abbreviation fresh_pool :: "int \<Rightarrow> DiskManager BufferPool" where
  "fresh_pool n \<equiv> pool_over n empty_file"

lemma fresh_pool:
  assumes "0 < n"
  shows "pool_ok disk_pages disk_inv 0 (fresh_pool n)" "fpages (pool_view disk_pages 0 (fresh_pool n)) = []"
    "all_quiet disk_quiet (fresh_pool n)" "room (fresh_pool n) = nat n" "\<not> unsaved (pool_view disk_pages 0 (fresh_pool n)) pid"
proof -
  have e: "disk_inv empty_file" "disk_quiet empty_file" "disk_pages empty_file = []"
    by (simp_all add: empty_file_def disk_inv_def disk_quiet_def disk_pages_def)
  note p = pool_over[OF assms e(1,2)]
  show "pool_ok disk_pages disk_inv 0 (fresh_pool n)" "fpages (pool_view disk_pages 0 (fresh_pool n)) = []"
    "all_quiet disk_quiet (fresh_pool n)" "room (fresh_pool n) = nat n" using p e(3) by simp_all
  show "\<not> unsaved (pool_view disk_pages 0 (fresh_pool n)) pid" using p(5) by (simp add: pool_view_def mk_view_def)
qed

abbreviation blank_pool :: "DiskManager BufferPool" where
  "blank_pool \<equiv> fresh_pool 1"

lemma blank_pool:
  "pool_ok disk_pages disk_inv 0 blank_pool" "fpages (pool_view disk_pages 0 blank_pool) = []"
  "all_quiet disk_quiet blank_pool" "room blank_pool = 1" "\<not> unsaved (pool_view disk_pages 0 blank_pool) pid"
  using fresh_pool[of 1] by simp_all

subsection \<open>Properties\<close>

text \<open>C17. Inserting into a heap file over the real pool and disk, whatever I/O fails on the way,
  refines inserting into a map from tuple ids to tuples: a success returns a fresh id, binds it to
  the tuple and puts the tuple last in physical order; an error changes no tuple. In both cases
  all pages stay formatted, all pins are released, and no other file is disturbed.\<close>

theorem heap_Insert_refines:
  assumes "pool_ok disk_pages disk_inv fid bp" "heap_ok (fpages (pool_view disk_pages fid bp))"
    and "\<And>pid. \<not> unsaved (pool_view disk_pages fid bp) pid"
  shows "\<exists>r bp' ps'. heap_Insert (FileHandle disk_manager fid) bp data = Some (r, bp') \<and>
    pool_ok disk_pages disk_inv fid bp' \<and>
    pool_view disk_pages fid bp' = pool_view disk_pages fid bp\<lparr>fpages := ps'\<rparr> \<and>
    heap_inserted (fpages (pool_view disk_pages fid bp)) data r ps'"
  using disk.handle.heap_Insert_spec[OF assms, of data] by blast

theorem heap_Insert_refines_witness:
  "\<exists>r bp' ps'. heap_Insert (FileHandle disk_manager 0) blank_pool [1, 2] = Some (r, bp') \<and>
    heap_inserted [] [1, 2] r ps' \<and> fpages (pool_view disk_pages 0 bp') = ps'"
  using heap_Insert_refines[of 0 blank_pool "[1, 2]"] blank_pool(1,2,5) by (fastforce simp: heap_ok_def)

text \<open>With no I/O failure pending, a free frame and room for one more page id, an insert succeeds
  exactly for the tuples an empty page can hold.\<close>

theorem heap_Insert_succeeds_iff:
  assumes "pool_ok disk_pages disk_inv fid bp" "heap_ok (fpages (pool_view disk_pages fid bp))"
    and "\<And>pid. \<not> unsaved (pool_view disk_pages fid bp) pid"
    and "all_quiet disk_quiet bp" "0 < room bp" "Suc (length (fpages (pool_view disk_pages fid bp))) < 2 ^ 32"
  shows "(\<exists>tid bp'. heap_Insert (FileHandle disk_manager fid) bp data = Some (Inr tid, bp')) \<longleftrightarrow> length data \<le> 8164"
  using disk.handle.heap_Insert_spec[OF assms(1-3), of data] assms(4-6) by auto

theorem heap_Insert_succeeds_iff_witness:
  "\<exists>tid bp'. heap_Insert (FileHandle disk_manager 0) blank_pool [1, 2] = Some (Inr tid, bp')"
  using heap_Insert_succeeds_iff[of 0 blank_pool "[1, 2]"] blank_pool by (simp add: heap_ok_def)

text \<open>After an insert returned an id, and with no I/O failure pending, \<^verbatim>\<open>Get\<close> of that id returns
  the tuple inserted, and \<^verbatim>\<open>Get\<close> of any id that was bound before still returns what it was bound
  to.\<close>

theorem heap_Get_after_Insert:
  assumes p: "pool_ok disk_pages disk_inv fid bp" "heap_ok (fpages (pool_view disk_pages fid bp))"
    "\<And>pid. \<not> unsaved (pool_view disk_pages fid bp) pid"
    and c: "all_quiet disk_quiet bp" "0 < room bp" "Suc (length (fpages (pool_view disk_pages fid bp))) < 2 ^ 32"
    and i: "heap_Insert (FileHandle disk_manager fid) bp data = Some (Inr tid, bp')"
  shows "\<exists>bp''. heap_Get (FileHandle disk_manager fid) bp' tid = Some (Inr data, bp'') \<and>
    (\<forall>tid' d. row_at (fpages (pool_view disk_pages fid bp)) tid' = Some d \<longrightarrow>
       (\<exists>bp''. heap_Get (FileHandle disk_manager fid) bp' tid' = Some (Inr d, bp'')))"
proof -
  let ?v = "pool_view disk_pages fid"
  obtain ps' where i': "pool_ok disk_pages disk_inv fid bp'" "?v bp' = ?v bp\<lparr>fpages := ps'\<rparr>"
    "heap_inserted (fpages (?v bp)) data (Inr tid) ps'" "all_quiet disk_quiet bp'"
    using disk.handle.heap_Insert_spec[OF p, of data] c i by auto
  have h': "heap_ok ps'" "row_at ps' = (row_at (fpages (?v bp)))(tid \<mapsto> data)" "row_at (fpages (?v bp)) tid = None"
    using i'(3) by (auto simp: heap_inserted_def)
  have "room bp' = room bp"
    using disk.handle.room_held[OF p(1) i'(1), of 0 "held (?v bp) 0"] i'(2) by simp
  then have get: "\<exists>bp''. heap_Get (FileHandle disk_manager fid) bp' t = Some (Inr d, bp'')"
    if "row_at ps' t = Some d" for t d
    using disk.handle.heap_Get_spec[OF i'(1), of t] i'(2,4) h'(1) c(2) that by auto
  have old: "row_at ps' t = Some d" if "row_at (fpages (?v bp)) t = Some d" for t d
    using that h'(2,3) by auto
  have "row_at ps' tid = Some data" using h'(2) by simp
  from get[OF this] show ?thesis using get[OF old] by blast
qed

theorem heap_Get_after_Insert_witness:
  "\<exists>tid bp' bp''. heap_Insert (FileHandle disk_manager 0) blank_pool [1, 2] = Some (Inr tid, bp') \<and>
     heap_Get (FileHandle disk_manager 0) bp' tid = Some (Inr [1, 2], bp'')"
proof -
  obtain r bp' where i: "heap_Insert (FileHandle disk_manager 0) blank_pool [1, 2] = Some (r, bp')" "\<exists>tid. r = Inr tid"
    using disk.handle.heap_Insert_spec[of 0 blank_pool "[1, 2]"] blank_pool by (auto simp: heap_ok_def)
  then obtain tid where "heap_Insert (FileHandle disk_manager 0) blank_pool [1, 2] = Some (Inr tid, bp')" by auto
  from heap_Get_after_Insert[OF _ _ _ _ _ _ this] this blank_pool show ?thesis by (auto simp: heap_ok_def)
qed

text \<open>C18. A scan without an I/O failure runs its callback on every tuple of the heap exactly once, in
  strictly increasing order of tuple id, with the tuple's bytes, stops at the callback's first
  error, and changes no page and no pin.\<close>

theorem heap_Scan_in_order:
  assumes p: "pool_ok disk_pages disk_inv fid bp" "heap_ok (fpages (pool_view disk_pages fid bp))"
    and c: "all_quiet disk_quiet bp" "0 < room bp"
  shows "\<exists>bp' xs. heap_Scan (FileHandle disk_manager fid) bp fn acc =
      Some (fst (visit fn xs acc), bp', snd (visit fn xs acc)) \<and>
    pool_view disk_pages fid bp' = pool_view disk_pages fid bp \<and>
    sorted_wrt (<) (map fst xs) \<and>
    (\<forall>tid d. (tid, d) \<in> set xs \<longleftrightarrow> row_at (fpages (pool_view disk_pages fid bp)) tid = Some d)"
proof -
  let ?ps = "fpages (pool_view disk_pages fid bp)"
  have b: "length ?ps < 2 ^ 32" by (rule disk.handle.pages_bound[OF p(1)])
  obtain r bp' acc' where "heap_scan_from (FileHandle disk_manager fid) fn 0 bp acc = Some (r, bp', acc')"
    "pool_view disk_pages fid bp' = pool_view disk_pages fid bp" "visit fn (heap_list ?ps) acc = (r, acc')"
    using disk.handle.heap_scan_from_spec[OF p(1) refl p(2), of 0 fn acc] c by (auto simp: heap_list_def)
  then show ?thesis
    using heap_list_sorted[OF p(2) b] heap_list_row_at[OF p(2) b]
    by (intro exI[of _ bp'] exI[of _ "heap_list ?ps"]) (simp add: heap_Scan_def)
qed

theorem heap_Scan_in_order_witness:
  "\<exists>tid bp bp'. heap_Insert (FileHandle disk_manager 0) blank_pool [1, 2] = Some (Inr tid, bp) \<and>
    heap_Scan (FileHandle disk_manager 0) bp (\<lambda>t d out. (Inr (), out @ [(t, d)])) [] = Some (Inr (), bp', [(tid, [1, 2])])"
proof -
  let ?f = "\<lambda>(t :: TID) (d :: byte list) out. (Inr () :: err + unit, out @ [(t, d)])"
  have h: "heap_ok (fpages (pool_view disk_pages 0 blank_pool))" by (simp add: blank_pool(2) heap_ok_def)
  obtain tid bp ps where i: "heap_Insert (FileHandle disk_manager 0) blank_pool [1, 2] = Some (Inr tid, bp)" "pool_ok disk_pages disk_inv 0 bp"
    "pool_view disk_pages 0 bp = pool_view disk_pages 0 blank_pool\<lparr>fpages := ps\<rparr>" "heap_inserted [] [1, 2] (Inr tid) ps" "all_quiet disk_quiet bp"
    using disk.handle.heap_Insert_spec[OF blank_pool(1) h blank_pool(5), of "[1, 2]"] blank_pool(2-4) by auto
  have m: "heap_ok (fpages (pool_view disk_pages 0 bp))" "0 < room bp" "row_at (fpages (pool_view disk_pages 0 bp)) = [tid \<mapsto> [1, 2]]"
    using i(3,4) disk.handle.room_eq[OF blank_pool(1) i(2)] blank_pool(4) by (simp_all add: heap_inserted_def row_at_def[of "[]"] rows_def fun_eq_iff)
  obtain bp' xs where s: "heap_Scan (FileHandle disk_manager 0) bp ?f [] = Some (fst (visit ?f xs []), bp', snd (visit ?f xs []))"
    "sorted_wrt (<) (map fst xs)" "\<forall>t d. (t, d) \<in> set xs \<longleftrightarrow> [tid \<mapsto> [1, 2]] t = Some d"
    using heap_Scan_in_order[OF i(2) m(1) i(5) m(2), of ?f "[]"] m(3) by auto
  have "(t, d) \<in> set xs \<longleftrightarrow> (t, d) = (tid, [1, 2])" for t d using spec[OF spec[OF s(3), of t], of d] by (cases "t = tid") auto
  then have "set xs = {(tid, [1, 2])}" by auto
  then have "xs = [(tid, [1, 2])]" using s(2) by (rule strict_singleton) simp
  then show ?thesis using s(1) i(1) by auto
qed

end
