(* ===== verification/BTree_Node.thy ===== *)
theory BTree_Node
  imports Heap_File
begin

text \<open>
  The node layout of the B+ tree index, \<^verbatim>\<open>internal/access/nbtree/node.go\<close>: one node per page, an
  8-byte header, an array of 64-bit keys and, from an offset that depends on the key capacity, an
  array of child page ids (internal nodes) or of tuple ids (leaves). A node is the page's bytes and
  a mutating method returns them updated. An indexed access past the end of the page panics; the
  header fields are at constant offsets of an 8192-byte page and cannot.

  The two capacities are Go variables that tests shrink; here they are an argument, and
  \<open>default_caps\<close> are the values the program runs with. Keys are signed 64-bit integers.

  A node's abstraction is an image: its header fields and its two arrays as lists, with the keys as
  integers. \<open>leaf_page\<close> and \<open>inner_page\<close> say which entries a page holds.
\<close>

subsection \<open>Constants\<close>

type_synonym int64 = "64 word"

definition nodeInternal :: u8 where "nodeInternal = 0"
definition nodeLeaf :: u8 where "nodeLeaf = 1"

definition offNodeType :: nat where [layout_simps]: "offNodeType = 0"
definition offKeyCount :: nat where [layout_simps]: "offKeyCount = 2"
definition offNextLeaf :: nat where [layout_simps]: "offNextLeaf = 4"
definition nodeHeader :: nat where [layout_simps]: "nodeHeader = 8"
definition keySize :: nat where [layout_simps]: "keySize = 8"
definition childSize :: nat where [layout_simps]: "childSize = 4"
definition tidSize :: nat where [layout_simps]: "tidSize = 6"

record node_caps =
  internalCap :: nat
  leafCap :: nat

definition default_caps :: node_caps where
  "default_caps = \<lparr>internalCap = 681, leafCap = 584\<rparr>"

definition childAreaOff :: "node_caps \<Rightarrow> nat" where
  "childAreaOff c = nodeHeader + internalCap c * keySize"
definition tidAreaOff :: "node_caps \<Rightarrow> nat" where
  "tidAreaOff c = nodeHeader + leafCap c * keySize"

definition invalidPID :: PageID where "invalidPID = 0"

subsection \<open>Header\<close>

definition nodeType :: "page \<Rightarrow> u8" where "nodeType n = n ! offNodeType"
definition isLeaf :: "page \<Rightarrow> bool" where "isLeaf n \<longleftrightarrow> nodeType n = nodeLeaf"

definition keyCount :: "page \<Rightarrow> u16" where
  "keyCount n = be_uint (subslice offKeyCount (offKeyCount + 2) n)"
definition setKeyCount :: "page \<Rightarrow> u16 \<Rightarrow> page" where
  "setKeyCount n k = overwrite offKeyCount (be_bytes 2 k) n"

definition nextLeaf :: "page \<Rightarrow> PageID" where
  "nextLeaf n = be_uint (subslice offNextLeaf (offNextLeaf + 4) n)"
definition setNextLeaf :: "page \<Rightarrow> PageID \<Rightarrow> page" where
  "setNextLeaf n pid = overwrite offNextLeaf (be_bytes 4 pid) n"

definition initType :: "u8 \<Rightarrow> page \<Rightarrow> page" where
  "initType kind n = (go_clear n)[offNodeType := kind]"
definition initLeaf :: "page \<Rightarrow> page" where "initLeaf n = initType nodeLeaf n"
definition initInternal :: "page \<Rightarrow> page" where "initInternal n = initType nodeInternal n"

subsection \<open>Keys, children and tuple ids\<close>

text \<open>\<^verbatim>\<open>binary.BigEndian.UintN(n.data[off:])\<close> panics when fewer than \<open>k\<close> bytes remain.\<close>

definition be_at :: "page \<Rightarrow> nat \<Rightarrow> nat \<Rightarrow> 'a::len word option" where
  "be_at n off k = map_option be_uint (go_slice n off (off + k))"

definition keyAt :: "page \<Rightarrow> u16 \<Rightarrow> int64 option" where
  "keyAt n i = (let off = nodeHeader + unat i * keySize in be_at n off 8)"
definition setKeyAt :: "page \<Rightarrow> u16 \<Rightarrow> int64 \<Rightarrow> page option" where
  "setKeyAt n i key = (let off = nodeHeader + unat i * keySize in go_overwrite off (be_bytes 8 key) n)"

definition childAt :: "node_caps \<Rightarrow> page \<Rightarrow> u16 \<Rightarrow> PageID option" where
  "childAt c n i = (let off = childAreaOff c + unat i * childSize in be_at n off 4)"
definition setChildAt :: "node_caps \<Rightarrow> page \<Rightarrow> u16 \<Rightarrow> PageID \<Rightarrow> page option" where
  "setChildAt c n i pid = (let off = childAreaOff c + unat i * childSize in go_overwrite off (be_bytes 4 pid) n)"

definition tidAt :: "node_caps \<Rightarrow> page \<Rightarrow> u16 \<Rightarrow> TID option" where
  "tidAt c n i = do {
     let off = tidAreaOff c + unat i * tidSize;
     p \<leftarrow> be_at n off 4;
     s \<leftarrow> be_at n (off + childSize) 2;
     Some (TID p s)
   }"
definition setTIDAt :: "node_caps \<Rightarrow> page \<Rightarrow> u16 \<Rightarrow> TID \<Rightarrow> page option" where
  "setTIDAt c n i tid = do {
     let off = tidAreaOff c + unat i * tidSize;
     n \<leftarrow> go_overwrite off (be_bytes 4 (Page tid)) n;
     go_overwrite (off + childSize) (be_bytes 2 (Slot tid)) n
   }"

subsection \<open>Search\<close>

partial_function (option) search_loop :: "page \<Rightarrow> int64 \<Rightarrow> u16 \<Rightarrow> u16 \<Rightarrow> u16 option" where
  "search_loop n key lo hi =
     (if lo < hi then do {
        let mid = (lo + hi) div 2;
        k \<leftarrow> keyAt n mid;
        if sint k < sint key then search_loop n key (mid + 1) hi
        else search_loop n key lo mid
      }
      else Some lo)"

definition node_search :: "page \<Rightarrow> int64 \<Rightarrow> (u16 \<times> bool) option" where
  "node_search n key = do {
     lo \<leftarrow> search_loop n key 0 (keyCount n);
     if lo < keyCount n then do {
       k \<leftarrow> keyAt n lo;
       Some (lo, k = key)
     }
     else Some (lo, False)
   }"

definition childIndex :: "page \<Rightarrow> int64 \<Rightarrow> u16 option" where
  "childIndex n key = do {
     (i, found) \<leftarrow> node_search n key;
     if found then Some (i + 1) else Some i
   }"

definition full :: "node_caps \<Rightarrow> page \<Rightarrow> bool" where
  "full c n \<longleftrightarrow> (if isLeaf n then unat (keyCount n) \<ge> leafCap c else unat (keyCount n) \<ge> internalCap c)"

subsection \<open>Mutation\<close>

partial_function (option) shift_leaf :: "node_caps \<Rightarrow> u16 \<Rightarrow> u16 \<Rightarrow> page \<Rightarrow> page option" where
  \<comment> \<open>the loop of \<^verbatim>\<open>insertLeafAt\<close>\<close>
  "shift_leaf c i j n =
     (if j > i then do {
        k \<leftarrow> keyAt n (j - 1);
        n \<leftarrow> setKeyAt n j k;
        t \<leftarrow> tidAt c n (j - 1);
        n \<leftarrow> setTIDAt c n j t;
        shift_leaf c i (j - 1) n
      }
      else Some n)"

definition insertLeafAt :: "node_caps \<Rightarrow> page \<Rightarrow> u16 \<Rightarrow> int64 \<Rightarrow> TID \<Rightarrow> page option" where
  "insertLeafAt c n i key tid = do {
     let cnt = keyCount n;
     n \<leftarrow> shift_leaf c i cnt n;
     n \<leftarrow> setKeyAt n i key;
     n \<leftarrow> setTIDAt c n i tid;
     Some (setKeyCount n (cnt + 1))
   }"

partial_function (option) shift_keys :: "u16 \<Rightarrow> u16 \<Rightarrow> page \<Rightarrow> page option" where
  \<comment> \<open>the first loop of \<^verbatim>\<open>insertInternalAt\<close>\<close>
  "shift_keys i j n =
     (if j > i then do {
        k \<leftarrow> keyAt n (j - 1);
        n \<leftarrow> setKeyAt n j k;
        shift_keys i (j - 1) n
      }
      else Some n)"

partial_function (option) shift_children :: "node_caps \<Rightarrow> u16 \<Rightarrow> u16 \<Rightarrow> page \<Rightarrow> page option" where
  \<comment> \<open>the second loop of \<^verbatim>\<open>insertInternalAt\<close>, down to \<^verbatim>\<open>i+1\<close>\<close>
  "shift_children c i j n =
     (if j > i then do {
        p \<leftarrow> childAt c n (j - 1);
        n \<leftarrow> setChildAt c n j p;
        shift_children c i (j - 1) n
      }
      else Some n)"

definition insertInternalAt :: "node_caps \<Rightarrow> page \<Rightarrow> u16 \<Rightarrow> int64 \<Rightarrow> PageID \<Rightarrow> page option" where
  "insertInternalAt c n i key rightChild = do {
     let cnt = keyCount n;
     n \<leftarrow> shift_keys i cnt n;
     n \<leftarrow> setKeyAt n i key;
     n \<leftarrow> shift_children c (i + 1) (cnt + 1) n;
     n \<leftarrow> setChildAt c n (i + 1) rightChild;
     Some (setKeyCount n (cnt + 1))
   }"

partial_function (option) move_leaf :: "node_caps \<Rightarrow> page \<Rightarrow> u16 \<Rightarrow> u16 \<Rightarrow> u16 \<Rightarrow> page \<Rightarrow> page option" where
  \<comment> \<open>the loop of \<^verbatim>\<open>splitLeaf\<close>\<close>
  "move_leaf c n mid cnt j right =
     (if j < cnt then do {
        k \<leftarrow> keyAt n j;
        right \<leftarrow> setKeyAt right (j - mid) k;
        t \<leftarrow> tidAt c n j;
        right \<leftarrow> setTIDAt c right (j - mid) t;
        move_leaf c n mid cnt (j + 1) right
      }
      else Some right)"

definition splitLeaf :: "node_caps \<Rightarrow> page \<Rightarrow> page \<Rightarrow> (page \<times> page) option" where
  "splitLeaf c n right = do {
     let cnt = keyCount n;
     let mid = cnt div 2;
     right \<leftarrow> move_leaf c n mid cnt mid right;
     let right = setKeyCount right (cnt - mid);
     Some (setKeyCount n mid, right)
   }"

partial_function (option) move_keys :: "page \<Rightarrow> u16 \<Rightarrow> u16 \<Rightarrow> u16 \<Rightarrow> page \<Rightarrow> page option" where
  \<comment> \<open>the first loop of \<^verbatim>\<open>splitInternal\<close>\<close>
  "move_keys n mid cnt j right =
     (if j < cnt then do {
        k \<leftarrow> keyAt n j;
        right \<leftarrow> setKeyAt right (j - mid - 1) k;
        move_keys n mid cnt (j + 1) right
      }
      else Some right)"

partial_function (option) move_children :: "node_caps \<Rightarrow> page \<Rightarrow> u16 \<Rightarrow> u16 \<Rightarrow> u16 \<Rightarrow> page \<Rightarrow> page option" where
  \<comment> \<open>the second loop of \<^verbatim>\<open>splitInternal\<close>\<close>
  "move_children c n mid cnt j right =
     (if j \<le> cnt then do {
        p \<leftarrow> childAt c n j;
        right \<leftarrow> setChildAt c right (j - mid - 1) p;
        move_children c n mid cnt (j + 1) right
      }
      else Some right)"

definition splitInternal :: "node_caps \<Rightarrow> page \<Rightarrow> page \<Rightarrow> (int64 \<times> page \<times> page) option" where
  "splitInternal c n right = do {
     let cnt = keyCount n;
     let mid = cnt div 2;
     upKey \<leftarrow> keyAt n mid;
     right \<leftarrow> move_keys n mid cnt (mid + 1) right;
     right \<leftarrow> move_children c n mid cnt (mid + 1) right;
     let right = setKeyCount right (cnt - mid - 1);
     Some (upKey, setKeyCount n mid, right)
   }"

subsection \<open>Node images\<close>

record 'v img =
  img_kind :: u8
  img_cnt :: u16
  img_nxt :: PageID
  karr :: "int list"
  varr :: "'v list"

definition img_of :: "nat \<Rightarrow> nat \<Rightarrow> nat \<Rightarrow> (byte list \<Rightarrow> 'v) \<Rightarrow> page \<Rightarrow> 'v img" where
  "img_of cap vcap w vget n =
     \<lparr>img_kind = nodeType n, img_cnt = keyCount n, img_nxt = nextLeaf n,
      karr = map (\<lambda>i. sint (be_uint (subslice (8 + i * 8) (8 + i * 8 + 8) n) :: int64)) [0..<cap],
      varr = map (\<lambda>i. vget (subslice (8 + cap * 8 + i * w) (8 + cap * 8 + i * w + w) n)) [0..<vcap]\<rparr>"

text \<open>The contract of a node area: an array of keys and, behind it, an array of \<open>w\<close>-byte values that
  fit on the page. Every in-range write is the update of one field of the image.\<close>

locale node_area =
  fixes cap vcap w :: nat and vget :: "byte list \<Rightarrow> 'v" and vput :: "'v \<Rightarrow> byte list"
  assumes fits: "8 + cap * 8 + vcap * w \<le> 8192"
    and vput_length: "length (vput v) = w"
    and vget_vput: "vget (vput v) = v"
begin

abbreviation img :: "page \<Rightarrow> 'v img" where "img \<equiv> img_of cap vcap w vget"

lemma key_end: "i < cap \<Longrightarrow> 8 + i * 8 + 8 \<le> 8 + cap * 8"
  by simp

lemma val_end:
  assumes "i < vcap" shows "8 + cap * 8 + i * w + w \<le> 8192"
proof -
  have "Suc i * w \<le> vcap * w" using assms by (intro mult_le_mono1) simp
  then show ?thesis using fits by simp
qed

lemma entries_disjoint:
  fixes i j w' :: nat assumes "i \<noteq> j" shows "i * w' + w' \<le> j * w' \<or> j * w' + w' \<le> i * w'"
proof -
  have "Suc i * w' \<le> j * w' \<or> Suc j * w' \<le> i * w'" using assms by (metis Suc_leI linorder_neqE_nat mult_le_mono1)
  then show ?thesis by (simp add: add.commute)
qed

lemma img_lengths [simp]: "length (karr (img n)) = cap" "length (varr (img n)) = vcap"
  by (simp_all add: img_of_def)

lemma img_header:
  "img_kind (img n) = nodeType n" "img_cnt (img n) = keyCount n" "img_nxt (img n) = nextLeaf n"
  by (simp_all add: img_of_def)

lemma img_put_key:
  assumes n: "length n = 8192" and i: "i < cap"
  shows "img (overwrite (8 + i * 8) (be_bytes 8 k) n) = img n\<lparr>karr := (karr (img n))[i := sint (k :: int64)]\<rparr>"
proof -
  let ?n = "overwrite (8 + i * 8) (be_bytes 8 k) n"
  have le: "8 + i * 8 + 8 \<le> length n" using key_end[OF i] fits n by linarith
  have "be_uint (subslice (8 + j * 8) (8 + j * 8 + 8) ?n) = (if j = i then k else be_uint (subslice (8 + j * 8) (8 + j * 8 + 8) n))" for j
    using le entries_disjoint[of j i 8] by (auto simp: slice_simps)
  moreover have "subslice (8 + cap * 8 + j * w) (8 + cap * 8 + j * w + w) ?n = subslice (8 + cap * 8 + j * w) (8 + cap * 8 + j * w + w) n" for j
    using le key_end[OF i] by (intro subslice_overwrite_disjoint) auto
  moreover have "nodeType ?n = nodeType n" "keyCount ?n = keyCount n" "nextLeaf ?n = nextLeaf n"
    using le n by (simp_all add: nodeType_def keyCount_def nextLeaf_def layout_simps slice_simps nth_overwrite)
  ultimately show ?thesis
    using i by (auto simp: img_of_def intro!: nth_equalityI)
qed

lemma img_put_val:
  assumes n: "length n = 8192" and i: "i < vcap"
  shows "img (overwrite (8 + cap * 8 + i * w) (vput v) n) = img n\<lparr>varr := (varr (img n))[i := v]\<rparr>"
proof -
  let ?n = "overwrite (8 + cap * 8 + i * w) (vput v) n"
  have le: "8 + cap * 8 + i * w + w \<le> length n" using val_end[OF i] n by simp
  have "vget (subslice (8 + cap * 8 + j * w) (8 + cap * 8 + j * w + w) ?n) =
      (if j = i then v else vget (subslice (8 + cap * 8 + j * w) (8 + cap * 8 + j * w + w) n))" for j
    using le entries_disjoint[of j i w] by (auto simp: slice_simps vput_length vget_vput)
  moreover have "subslice (8 + j * 8) (8 + j * 8 + 8) ?n = subslice (8 + j * 8) (8 + j * 8 + 8) n" if "j < cap" for j
    using le key_end[OF that] by (intro subslice_overwrite_disjoint) (auto simp: vput_length)
  moreover have "nodeType ?n = nodeType n" "keyCount ?n = keyCount n" "nextLeaf ?n = nextLeaf n"
    using le n by (simp_all add: nodeType_def keyCount_def nextLeaf_def layout_simps slice_simps nth_overwrite vput_length)
  ultimately show ?thesis
    using i by (auto simp: img_of_def intro!: nth_equalityI)
qed

lemma img_header_writes:
  assumes n: "length n = 8192"
  shows "img (setKeyCount n k) = img n\<lparr>img_cnt := k\<rparr>" "img (setNextLeaf n p) = img n\<lparr>img_nxt := p\<rparr>"
proof -
  have "subslice (8 + a) b (overwrite off bs n) = subslice (8 + a) b n" if "off + length bs \<le> 8" for a b off bs
    using that n by (intro subslice_overwrite_disjoint) auto
  then show "img (setKeyCount n k) = img n\<lparr>img_cnt := k\<rparr>" "img (setNextLeaf n p) = img n\<lparr>img_nxt := p\<rparr>"
    using n by (simp_all add: img_of_def setKeyCount_def setNextLeaf_def nodeType_def keyCount_def nextLeaf_def
        layout_simps add.assoc slice_simps nth_overwrite)
qed

lemma keyAt_img:
  assumes n: "length n = 8192" and i: "unat i < cap"
  obtains k where "keyAt n i = Some k" "sint k = karr (img n) ! unat i"
proof -
  have "8 + unat i * 8 + 8 \<le> length n" using key_end[OF i] fits n by linarith
  then show thesis using i by (intro that) (simp_all add: keyAt_def be_at_def go_slice_def img_of_def layout_simps)
qed

lemma setKeyAt_img:
  assumes n: "length n = 8192" and i: "unat i < cap"
  obtains n' where "setKeyAt n i k = Some n'" "length n' = 8192"
    "img n' = img n\<lparr>karr := (karr (img n))[unat i := sint k]\<rparr>"
proof -
  have "8 + unat i * 8 + 8 \<le> length n" using key_end[OF i] fits n by linarith
  then show thesis using n img_put_key[OF n i, of k]
    by (intro that) (simp_all add: setKeyAt_def go_overwrite_def layout_simps)
qed

end

text \<open>Capacities for which both node kinds fit on a page, with room to split.\<close>

definition caps_ok :: "node_caps \<Rightarrow> bool" where
  "caps_ok c \<longleftrightarrow> 8 + internalCap c * 8 + (internalCap c + 1) * 4 \<le> 8192 \<and>
     8 + leafCap c * 8 + leafCap c * 6 \<le> 8192 \<and> 2 \<le> internalCap c \<and> 2 \<le> leafCap c"

definition tid_bytes :: "TID \<Rightarrow> byte list" where
  "tid_bytes t = be_bytes 4 (Page t) @ be_bytes 2 (Slot t)"
definition tid_of :: "byte list \<Rightarrow> TID" where
  "tid_of bs = TID (be_uint (take 4 bs)) (be_uint (drop 4 bs))"

locale btree_caps =
  fixes c :: node_caps
  assumes caps_ok: "caps_ok c"

sublocale btree_caps \<subseteq> leaf: node_area "leafCap c" "leafCap c" 6 tid_of tid_bytes
  using caps_ok by unfold_locales (auto simp: caps_ok_def tid_bytes_def tid_of_def)

sublocale btree_caps \<subseteq> inner: node_area "internalCap c" "Suc (internalCap c)" 4 be_uint "be_bytes 4 :: PageID \<Rightarrow> _"
  using caps_ok by unfold_locales (auto simp: caps_ok_def)

interpretation production: btree_caps default_caps
  by unfold_locales (simp add: caps_ok_def default_caps_def)

context btree_caps
begin

lemma tidAt_img:
  assumes n: "length n = 8192" and i: "unat i < leafCap c"
  shows "tidAt c n i = Some (varr (leaf.img n) ! unat i)"
proof -
  define off where "off = 8 + leafCap c * 8 + unat i * 6"
  have "off + 6 \<le> length n" using leaf.val_end[OF i] n by (simp add: off_def)
  moreover have "tidAreaOff c + unat i * tidSize = off" by (simp add: off_def tidAreaOff_def layout_simps)
  ultimately have "tidAt c n i = Some (tid_of (subslice off (off + 6) n))"
    unfolding tidAt_def Let_def
    by (simp add: be_at_def go_slice_def layout_simps tid_of_def subslice_def drop_take add.commute)
  then show ?thesis using i by (simp add: img_of_def off_def)
qed

lemma setTIDAt_img:
  assumes n: "length n = 8192" and i: "unat i < leafCap c"
  obtains n' where "setTIDAt c n i t = Some n'" "length n' = 8192"
    "leaf.img n' = leaf.img n\<lparr>varr := (varr (leaf.img n))[unat i := t]\<rparr>"
proof -
  define off where "off = 8 + leafCap c * 8 + unat i * 6"
  have le: "off + 6 \<le> length n" using leaf.val_end[OF i] n by (simp add: off_def)
  moreover have "tidAreaOff c + unat i * tidSize = off" by (simp add: off_def tidAreaOff_def layout_simps)
  ultimately have "setTIDAt c n i t = Some (overwrite off (tid_bytes t) n)"
    using overwrite_append[of off "be_bytes 4 (Page t)" "be_bytes 2 (Slot t)" n] unfolding setTIDAt_def Let_def
    by (simp add: go_overwrite_def childSize_def tid_bytes_def)
  then show thesis
    using that leaf.img_put_val[OF n i, of t] le n by (simp add: off_def tid_bytes_def)
qed

lemma childAt_img:
  assumes n: "length n = 8192" and i: "unat i \<le> internalCap c"
  shows "childAt c n i = Some (varr (inner.img n) ! unat i)"
proof -
  have "8 + internalCap c * 8 + unat i * 4 + 4 \<le> length n" using inner.val_end[of "unat i"] i n by simp
  then show ?thesis
    using i by (simp add: childAt_def be_at_def go_slice_def childAreaOff_def layout_simps img_of_def del: upt_Suc)
qed

lemma setChildAt_img:
  assumes n: "length n = 8192" and i: "unat i \<le> internalCap c"
  obtains n' where "setChildAt c n i p = Some n'" "length n' = 8192"
    "inner.img n' = inner.img n\<lparr>varr := (varr (inner.img n))[unat i := p]\<rparr>"
proof -
  have "8 + internalCap c * 8 + unat i * 4 + 4 \<le> length n" using inner.val_end[of "unat i"] i n by simp
  then show thesis
    using that inner.img_put_val[OF n, of "unat i" p] i n
    by (simp add: setChildAt_def go_overwrite_def childAreaOff_def layout_simps)
qed

end

subsection \<open>Search\<close>

lemma split_at_filter:
  assumes "r \<le> length ks" "\<And>j. j < r \<Longrightarrow> P (ks ! j)" "\<And>j. r \<le> j \<Longrightarrow> j < length ks \<Longrightarrow> \<not> P (ks ! j)"
  shows "filter P ks = take r ks" "filter (\<lambda>x. \<not> P x) ks = drop r ks"
proof -
  have a: "\<forall>x \<in> set (take r ks). P x" using assms by (auto simp: in_set_conv_nth)
  have b: "\<forall>x \<in> set (drop r ks). \<not> P x" using assms by (auto simp: in_set_conv_nth)
  have split: "filter Q ks = filter Q (take r ks) @ filter Q (drop r ks)" for Q
    by (metis append_take_drop_id filter_append)
  show "filter P ks = take r ks" unfolding split using a b by (simp add: filter_id_conv filter_empty_conv)
  show "filter (\<lambda>x. \<not> P x) ks = drop r ks" unfolding split using a b by (simp add: filter_id_conv filter_empty_conv)
qed

definition below :: "int \<Rightarrow> int list \<Rightarrow> nat" where
  "below k ks = length (filter (\<lambda>x. x < k) ks)"
definition upto_key :: "int \<Rightarrow> int list \<Rightarrow> nat" where
  "upto_key k ks = length (filter (\<lambda>x. x \<le> k) ks)"

lemma below_le: "below k ks \<le> length ks"
  and upto_key_le: "upto_key k ks \<le> length ks"
  by (simp_all add: below_def upto_key_def)

lemma upto_key_below: "upto_key k ks = below (k + 1) ks"
  by (simp add: upto_key_def below_def zless_add1_eq order_le_less disj_commute)

lemma below_nth:
  "sorted_wrt (<) ks \<Longrightarrow> j < length ks \<Longrightarrow> ks ! j < k \<longleftrightarrow> j < below k ks"
proof (induction ks arbitrary: j)
  case (Cons x xs)
  show ?case
  proof (cases "x < k")
    case True
    then show ?thesis using Cons by (cases j) (auto simp: below_def)
  next
    case False
    then have "filter (\<lambda>y. y < k) xs = []" using Cons.prems(1) by (auto simp: filter_empty_conv)
    moreover have "x \<le> (x # xs) ! j" using Cons.prems by (cases j) (auto simp: less_imp_le)
    ultimately show ?thesis using False by (auto simp: below_def)
  qed
qed simp

lemma below_found:
  assumes s: "sorted_wrt (<) ks"
  shows "k \<in> set ks \<longleftrightarrow> below k ks < length ks \<and> ks ! below k ks = k"
proof
  assume "k \<in> set ks"
  then obtain j where j: "j < length ks" "ks ! j = k" by (auto simp: in_set_conv_nth)
  then have "below k ks \<le> j" using below_nth[OF s j(1), of k] by simp
  moreover have "\<not> below k ks < j"
    using below_nth[OF s, of "below k ks" k] sorted_wrt_nth_less[OF s, of "below k ks" j] j by auto
  ultimately show "below k ks < length ks \<and> ks ! below k ks = k" using j by simp
qed (metis nth_mem)

lemma upto_key_found:
  "sorted_wrt (<) ks \<Longrightarrow> upto_key k ks = below k ks + (if k \<in> set ks then 1 else 0)"
  by (induction ks) (auto simp: upto_key_def below_def)

context node_area
begin

lemma search_loop_spec:
  assumes n: "length n = 8192" and m: "m \<le> cap"
    and "unat hi \<le> m" "unat lo \<le> unat hi" and s: "sorted_wrt (<) (take m (karr (img n)))"
    and "\<And>j. j < unat lo \<Longrightarrow> karr (img n) ! j < sint key"
    and "\<And>j. unat hi \<le> j \<Longrightarrow> j < m \<Longrightarrow> sint key \<le> karr (img n) ! j"
  shows "search_loop n key lo hi = Some (of_nat (below (sint key) (take m (karr (img n)))))"
  using assms(3,4,6,7)
proof (induction "unat hi - unat lo" arbitrary: lo hi rule: less_induct)
  case less
  let ?ks = "karr (img n)"
  have cap: "cap < 2 ^ 10" using fits by simp
  show ?case
  proof (cases "lo < hi")
    case False
    then have eq: "unat lo = unat hi" using less.prems(2) by (simp add: word_less_nat_alt)
    have "below (sint key) (take m ?ks) = unat lo"
      using split_at_filter(1)[of "unat lo" "take m ?ks" "\<lambda>x. x < sint key"] less.prems eq m
      by (auto simp: below_def not_less)
    then show ?thesis using False by (simp add: search_loop.simps)
  next
    case True
    define mid where "mid = (lo + hi) div 2"
    have "unat lo + unat hi < 2 ^ 16" using less.prems(1,2) m cap by simp
    then have mid: "unat mid = (unat lo + unat hi) div 2"
      by (simp add: mid_def unat_div unat_add_small)
    have lt: "unat lo < unat hi" using True by (simp add: word_less_nat_alt)
    then have b: "unat lo \<le> unat mid" "unat mid < unat hi" by (simp_all add: mid)
    have mc: "unat mid < cap" using b less.prems(1) m by linarith
    obtain k where k: "keyAt n mid = Some k" "sint k = ?ks ! unat mid" by (rule keyAt_img[OF n mc])
    have mono: "?ks ! i < ?ks ! j" if "i < j" "j < m" for i j
      using sorted_wrt_nth_less[OF s, of i j] that m by simp
    have step: "search_loop n key lo hi =
        (if ?ks ! unat mid < sint key then search_loop n key (mid + 1) hi else search_loop n key lo mid)"
      using True k by (subst search_loop.simps) (simp flip: mid_def)
    show ?thesis
    proof (cases "?ks ! unat mid < sint key")
      case less_key: True
      have u: "unat (mid + 1) = Suc (unat mid)" using unat_plus_1[of mid hi] b by (simp add: word_less_nat_alt)
      have "?ks ! j < sint key" if "j < unat (mid + 1)" for j
        using that u less_key mono[of j "unat mid"] b less.prems(1) by (cases "j = unat mid") auto
      then have "search_loop n key (mid + 1) hi = Some (of_nat (below (sint key) (take m ?ks)))"
        using less.prems b u by (intro less.hyps) auto
      then show ?thesis using step less_key by simp
    next
      case ge_key: False
      have "sint key \<le> ?ks ! j" if "unat mid \<le> j" "j < m" for j
        using that ge_key mono[of "unat mid" j] by (cases "j = unat mid") auto
      then have "search_loop n key lo mid = Some (of_nat (below (sint key) (take m ?ks)))"
        using less.prems b by (intro less.hyps) auto
      then show ?thesis using step ge_key by simp
    qed
  qed
qed

lemma node_search_spec:
  assumes n: "length n = 8192" and m: "unat (keyCount n) \<le> cap"
    and ks: "ks = take (unat (keyCount n)) (karr (img n))" and s: "sorted_wrt (<) ks"
  shows "node_search n key = Some (of_nat (below (sint key) ks), sint key \<in> set ks)"
    and "childIndex n key = Some (of_nat (upto_key (sint key) ks))"
proof -
  let ?r = "below (sint key) ks"
  have len: "length ks = unat (keyCount n)" using ks m by simp
  have loop: "search_loop n key 0 (keyCount n) = Some (of_nat ?r)"
    using search_loop_spec[OF n m, of "keyCount n" 0 key] s ks by simp
  have r: "?r \<le> length ks" by (rule below_le)
  then have ur: "unat (of_nat ?r :: u16) = ?r"
    using len unsigned_less[of "keyCount n", where 'a = nat] by (intro unat_of_nat_small) simp
  have k_at: "\<exists>k. keyAt n (of_nat ?r) = Some k \<and> sint k = ks ! ?r" if "?r < length ks"
    using keyAt_img[OF n, of "of_nat ?r"] that ur len m by (auto simp: ks)
  show search: "node_search n key = Some (of_nat ?r, sint key \<in> set ks)"
    using loop k_at ur len below_found[OF s, of "sint key"]
    by (auto simp: node_search_def word_less_nat_alt signed_word_eqI)
  show "childIndex n key = Some (of_nat (upto_key (sint key) ks))"
    using search upto_key_found[OF s, of "sint key"] by (simp add: childIndex_def add.commute)
qed

end

subsection \<open>Shifting and moving entries\<close>

definition shift_list :: "nat \<Rightarrow> nat \<Rightarrow> 'a list \<Rightarrow> 'a list" where
  "shift_list i j xs = map (\<lambda>k. if i < k \<and> k \<le> j then xs ! (k - 1) else xs ! k) [0..<length xs]"

lemma shift_list_same: "j \<le> i \<Longrightarrow> shift_list i j xs = xs"
  by (intro nth_equalityI) (auto simp: shift_list_def)

lemma shift_list_step:
  "i < j \<Longrightarrow> j < length xs \<Longrightarrow> shift_list i (j - Suc 0) (xs[j := xs ! (j - Suc 0)]) = shift_list i j xs"
  by (intro nth_equalityI) (auto simp: shift_list_def nth_list_update)

lemma insert_shifted:
  assumes "i \<le> m" "m < length xs"
  shows "take (Suc m) ((shift_list i m xs)[i := x]) = take i xs @ x # drop i (take m xs)"
  using assms by (intro nth_equalityI) (auto simp: shift_list_def nth_append nth_Cons' nth_list_update)

definition move_list :: "nat \<Rightarrow> nat \<Rightarrow> nat \<Rightarrow> 'a list \<Rightarrow> 'a list \<Rightarrow> 'a list" where
  \<comment> \<open>\<open>ys\<close> after its positions \<open>j - mid\<close>, for \<open>j\<close> in \<open>[lo, hi)\<close>, took \<open>xs ! j\<close>\<close>
  "move_list mid lo hi xs ys = map (\<lambda>k. if lo \<le> k + mid \<and> k + mid < hi then xs ! (k + mid) else ys ! k) [0..<length ys]"

lemma move_list_none: "hi \<le> lo \<Longrightarrow> move_list mid lo hi xs ys = ys"
  by (intro nth_equalityI) (auto simp: move_list_def)

lemma move_list_step:
  "mid \<le> lo \<Longrightarrow> lo < hi \<Longrightarrow> move_list mid (Suc lo) hi xs (ys[lo - mid := xs ! lo]) = move_list mid lo hi xs ys"
  by (intro nth_equalityI) (auto simp: move_list_def nth_list_update not_less_eq_eq)

lemma take_moved:
  "mid \<le> hi \<Longrightarrow> hi \<le> length xs \<Longrightarrow> hi - mid \<le> length ys \<Longrightarrow> take (hi - mid) (move_list mid mid hi xs ys) = drop mid (take hi xs)"
  by (intro nth_equalityI) (auto simp: move_list_def add.commute)

lemma word_pred:
  assumes "i < (j :: u16)" shows "unat (j - 1) = unat j - 1" "i \<le> j - 1"
proof -
  have "unat i < unat j" using assms by (simp add: word_less_nat_alt)
  then show "unat (j - 1) = unat j - 1" by (simp add: unat_sub_small)
  then show "i \<le> j - 1" using \<open>unat i < unat j\<close> by (simp add: word_le_nat_alt)
qed

text \<open>A loop that counts down to \<open>i\<close> or up to \<open>e\<close>, rewriting the page at each step: its effect on an
  abstraction \<open>f\<close> of the page is \<open>G\<close> when each step makes the rest of the work \<open>G\<close> speaks of smaller.\<close>

lemma down_loop:
  fixes L step :: "u16 \<Rightarrow> page \<Rightarrow> page option" and f :: "page \<Rightarrow> 'a"
  assumes unfold: "\<And>j n. L j n = (if i < j then step j n \<bind> L (j - 1) else Some n)"
    and step: "\<And>j n. i < j \<Longrightarrow> j \<le> m \<Longrightarrow> length n = 8192 \<Longrightarrow>
      \<exists>n'. step j n = Some n' \<and> length n' = 8192 \<and> G (unat j - 1) (f n') = G (unat j) (f n)"
    and base: "\<And>x. G (unat i) x = x"
    and "length n = 8192" "i \<le> j" "j \<le> m"
  shows "\<exists>n'. L j n = Some n' \<and> length n' = 8192 \<and> f n' = G (unat j) (f n)"
  using assms(4-6)
proof (induction "unat j" arbitrary: j n rule: less_induct)
  case less
  show ?case
  proof (cases "i < j")
    case False
    then show ?thesis using less.prems base unfold[of j n] by auto
  next
    case True
    note p = word_pred[OF True]
    obtain n1 where n1: "step j n = Some n1" "length n1 = 8192" "G (unat j - 1) (f n1) = G (unat j) (f n)"
      using step[OF True less.prems(3,1)] by blast
    have "unat (j - 1) < unat j" "j - 1 \<le> m"
      using p(1) True less.prems(3) by (auto simp: word_less_nat_alt word_le_nat_alt)
    then obtain n2 where "L (j - 1) n1 = Some n2" "length n2 = 8192" "f n2 = G (unat (j - 1)) (f n1)"
      using less.hyps[of "j - 1" n1] n1(2) p(2) by blast
    then show ?thesis using unfold[of j n] True n1 p(1) by simp
  qed
qed

lemma up_loop:
  fixes L step :: "u16 \<Rightarrow> page \<Rightarrow> page option" and f :: "page \<Rightarrow> 'a"
  assumes unfold: "\<And>j n. L j n = (if unat j < e then step j n \<bind> L (j + 1) else Some n)"
    and step: "\<And>j n. lo \<le> unat j \<Longrightarrow> unat j < e \<Longrightarrow> length n = 8192 \<Longrightarrow>
      \<exists>n'. step j n = Some n' \<and> length n' = 8192 \<and> G (Suc (unat j)) (f n') = G (unat j) (f n)"
    and base: "\<And>x. G e x = x" and e: "e < 65536"
    and "length n = 8192" "lo \<le> unat j" "unat j \<le> e"
  shows "\<exists>n'. L j n = Some n' \<and> length n' = 8192 \<and> f n' = G (unat j) (f n)"
  using assms(5-7)
proof (induction "e - unat j" arbitrary: j n rule: less_induct)
  case less
  show ?case
  proof (cases "unat j < e")
    case False
    then show ?thesis using less.prems base unfold[of j n] by auto
  next
    case True
    have p: "unat (j + 1) = Suc (unat j)" using True e by (simp add: unat_add_small)
    obtain n1 where n1: "step j n = Some n1" "length n1 = 8192" "G (Suc (unat j)) (f n1) = G (unat j) (f n)"
      using step[OF less.prems(2) True less.prems(1)] by blast
    have "e - unat (j + 1) < e - unat j" using p True by simp
    then obtain n2 where "L (j + 1) n1 = Some n2" "length n2 = 8192" "f n2 = G (unat (j + 1)) (f n1)"
      using less.hyps[of "j + 1" n1] n1(2) p less.prems(2) True by auto
    then show ?thesis using unfold[of j n] True n1 p by simp
  qed
qed

lemma below_cap: "j \<le> m \<Longrightarrow> unat (m :: u16) < k \<Longrightarrow> unat j < k"
  by (simp add: word_le_nat_alt)

context btree_caps
begin

lemma shift_leaf_img:
  assumes n: "length n = 8192" and j: "i \<le> j" "unat j < leafCap c"
  shows "\<exists>n'. shift_leaf c i j n = Some n' \<and> length n' = 8192 \<and>
    leaf.img n' = leaf.img n\<lparr>karr := shift_list (unat i) (unat j) (karr (leaf.img n)),
       varr := shift_list (unat i) (unat j) (varr (leaf.img n))\<rparr>"
proof (rule down_loop[where L = "shift_leaf c i" and f = leaf.img and i = i and m = j
      and step = "\<lambda>k n. do { x \<leftarrow> keyAt n (k - 1); n \<leftarrow> setKeyAt n k x; t \<leftarrow> tidAt c n (k - 1); setTIDAt c n k t }"
      and G = "\<lambda>j x. x\<lparr>karr := shift_list (unat i) j (karr x), varr := shift_list (unat i) j (varr x)\<rparr>"])
  fix k and n :: page assume k: "i < k" "k \<le> j" and n: "length n = 8192"
  note p = word_pred[OF k(1)]
  have lt: "unat i < unat k" "unat k < leafCap c" "unat (k - 1) < leafCap c"
    using k j p(1) by (auto simp: word_less_nat_alt word_le_nat_alt)
  obtain x where x: "keyAt n (k - 1) = Some x" "sint x = karr (leaf.img n) ! unat (k - 1)"
    using leaf.keyAt_img[OF n lt(3)] by blast
  obtain n1 where n1: "setKeyAt n k x = Some n1" "length n1 = 8192"
    "leaf.img n1 = leaf.img n\<lparr>karr := (karr (leaf.img n))[unat k := sint x]\<rparr>"
    using leaf.setKeyAt_img[OF n lt(2)] by blast
  obtain n2 where n2: "setTIDAt c n1 k (varr (leaf.img n1) ! unat (k - 1)) = Some n2" "length n2 = 8192"
    "leaf.img n2 = leaf.img n1\<lparr>varr := (varr (leaf.img n1))[unat k := varr (leaf.img n1) ! unat (k - 1)]\<rparr>"
    using setTIDAt_img[OF n1(2) lt(2)] by blast
  show "\<exists>n'. (do { x \<leftarrow> keyAt n (k - 1); n \<leftarrow> setKeyAt n k x; t \<leftarrow> tidAt c n (k - 1); setTIDAt c n k t }) = Some n' \<and>
      length n' = 8192 \<and> leaf.img n'\<lparr>karr := shift_list (unat i) (unat k - 1) (karr (leaf.img n')),
       varr := shift_list (unat i) (unat k - 1) (varr (leaf.img n'))\<rparr> =
      leaf.img n\<lparr>karr := shift_list (unat i) (unat k) (karr (leaf.img n)),
       varr := shift_list (unat i) (unat k) (varr (leaf.img n))\<rparr>"
    using x n1 n2 lt p(1) tidAt_img[OF n1(2) lt(3)] by (simp add: shift_list_step)
qed (use n j in \<open>simp_all add: shift_leaf.simps shift_list_same\<close>)

lemma shift_keys_img:
  assumes n: "length n = 8192" and j: "i \<le> j" "unat j < internalCap c"
  shows "\<exists>n'. shift_keys i j n = Some n' \<and> length n' = 8192 \<and>
    inner.img n' = inner.img n\<lparr>karr := shift_list (unat i) (unat j) (karr (inner.img n))\<rparr>"
proof (rule down_loop[where L = "shift_keys i" and f = inner.img and i = i and m = j
      and step = "\<lambda>k n. keyAt n (k - 1) \<bind> setKeyAt n k"
      and G = "\<lambda>j x. x\<lparr>karr := shift_list (unat i) j (karr x)\<rparr>"])
  fix k and n :: page assume k: "i < k" "k \<le> j" and n: "length n = 8192"
  note p = word_pred[OF k(1)]
  have lt: "unat i < unat k" "unat k < internalCap c" "unat (k - 1) < internalCap c"
    using k j p(1) by (auto simp: word_less_nat_alt word_le_nat_alt)
  obtain x where x: "keyAt n (k - 1) = Some x" "sint x = karr (inner.img n) ! unat (k - 1)"
    using inner.keyAt_img[OF n lt(3)] by blast
  obtain n1 where n1: "setKeyAt n k x = Some n1" "length n1 = 8192"
    "inner.img n1 = inner.img n\<lparr>karr := (karr (inner.img n))[unat k := sint x]\<rparr>"
    using inner.setKeyAt_img[OF n lt(2)] by blast
  show "\<exists>n'. (keyAt n (k - 1) \<bind> setKeyAt n k) = Some n' \<and> length n' = 8192 \<and>
      inner.img n'\<lparr>karr := shift_list (unat i) (unat k - 1) (karr (inner.img n'))\<rparr> =
      inner.img n\<lparr>karr := shift_list (unat i) (unat k) (karr (inner.img n))\<rparr>"
    using x n1 lt p(1) by (simp add: shift_list_step)
qed (use n j in \<open>simp_all add: shift_keys.simps shift_list_same\<close>)

lemma shift_children_img:
  assumes n: "length n = 8192" and j: "i \<le> j" "unat j \<le> internalCap c"
  shows "\<exists>n'. shift_children c i j n = Some n' \<and> length n' = 8192 \<and>
    inner.img n' = inner.img n\<lparr>varr := shift_list (unat i) (unat j) (varr (inner.img n))\<rparr>"
proof (rule down_loop[where L = "shift_children c i" and f = inner.img and i = i and m = j
      and step = "\<lambda>k n. childAt c n (k - 1) \<bind> setChildAt c n k"
      and G = "\<lambda>j x. x\<lparr>varr := shift_list (unat i) j (varr x)\<rparr>"])
  fix k and n :: page assume k: "i < k" "k \<le> j" and n: "length n = 8192"
  note p = word_pred[OF k(1)]
  have lt: "unat i < unat k" "unat k \<le> internalCap c" "unat (k - 1) \<le> internalCap c"
    using k j p(1) by (auto simp: word_less_nat_alt word_le_nat_alt)
  obtain n1 where n1: "setChildAt c n k (varr (inner.img n) ! unat (k - 1)) = Some n1" "length n1 = 8192"
    "inner.img n1 = inner.img n\<lparr>varr := (varr (inner.img n))[unat k := varr (inner.img n) ! unat (k - 1)]\<rparr>"
    using setChildAt_img[OF n lt(2)] by blast
  show "\<exists>n'. (childAt c n (k - 1) \<bind> setChildAt c n k) = Some n' \<and> length n' = 8192 \<and>
      inner.img n'\<lparr>varr := shift_list (unat i) (unat k - 1) (varr (inner.img n'))\<rparr> =
      inner.img n\<lparr>varr := shift_list (unat i) (unat k) (varr (inner.img n))\<rparr>"
    using n1 lt p(1) childAt_img[OF n lt(3)] by (simp add: shift_list_step)
qed (use n j in \<open>simp_all add: shift_children.simps shift_list_same\<close>)

end

context btree_caps
begin

lemma move_leaf_img:
  assumes n: "length n = 8192" "length r = 8192" and m: "mid \<le> cnt" "unat cnt \<le> leafCap c"
  shows "\<exists>r'. move_leaf c n mid cnt mid r = Some r' \<and> length r' = 8192 \<and>
    leaf.img r' = leaf.img r\<lparr>karr := move_list (unat mid) (unat mid) (unat cnt) (karr (leaf.img n)) (karr (leaf.img r)),
       varr := move_list (unat mid) (unat mid) (unat cnt) (varr (leaf.img n)) (varr (leaf.img r))\<rparr>"
proof (rule up_loop[where L = "move_leaf c n mid cnt" and f = leaf.img and e = "unat cnt" and lo = "unat mid"
      and step = "\<lambda>j r. do { x \<leftarrow> keyAt n j; r \<leftarrow> setKeyAt r (j - mid) x; t \<leftarrow> tidAt c n j; setTIDAt c r (j - mid) t }"
      and G = "\<lambda>j x. x\<lparr>karr := move_list (unat mid) j (unat cnt) (karr (leaf.img n)) (karr x),
        varr := move_list (unat mid) j (unat cnt) (varr (leaf.img n)) (varr x)\<rparr>"])
  fix j :: u16 and r :: page assume j: "unat mid \<le> unat j" "unat j < unat cnt" and r: "length r = 8192"
  have u: "unat (j - mid) = unat j - unat mid" using j by (simp add: unat_sub_small)
  have lt: "unat j < leafCap c" "unat (j - mid) < leafCap c" using j m u by linarith+
  obtain x where x: "keyAt n j = Some x" "sint x = karr (leaf.img n) ! unat j"
    using leaf.keyAt_img[OF n(1) lt(1)] by blast
  obtain r1 where r1: "setKeyAt r (j - mid) x = Some r1" "length r1 = 8192"
    "leaf.img r1 = leaf.img r\<lparr>karr := (karr (leaf.img r))[unat (j - mid) := sint x]\<rparr>"
    using leaf.setKeyAt_img[OF r lt(2)] by blast
  obtain r2 where r2: "setTIDAt c r1 (j - mid) (varr (leaf.img n) ! unat j) = Some r2" "length r2 = 8192"
    "leaf.img r2 = leaf.img r1\<lparr>varr := (varr (leaf.img r1))[unat (j - mid) := varr (leaf.img n) ! unat j]\<rparr>"
    using setTIDAt_img[OF r1(2) lt(2)] by blast
  show "\<exists>r'. (do { x \<leftarrow> keyAt n j; r \<leftarrow> setKeyAt r (j - mid) x; t \<leftarrow> tidAt c n j; setTIDAt c r (j - mid) t }) = Some r' \<and>
      length r' = 8192 \<and>
      leaf.img r'\<lparr>karr := move_list (unat mid) (Suc (unat j)) (unat cnt) (karr (leaf.img n)) (karr (leaf.img r')),
        varr := move_list (unat mid) (Suc (unat j)) (unat cnt) (varr (leaf.img n)) (varr (leaf.img r'))\<rparr> =
      leaf.img r\<lparr>karr := move_list (unat mid) (unat j) (unat cnt) (karr (leaf.img n)) (karr (leaf.img r)),
        varr := move_list (unat mid) (unat j) (unat cnt) (varr (leaf.img n)) (varr (leaf.img r))\<rparr>"
    using x r1 r2 j u tidAt_img[OF n(1) lt(1)] by (simp add: move_list_step)
qed (use n m unsigned_less[of cnt, where 'a = nat] in
    \<open>simp_all add: move_leaf.simps move_list_none word_less_nat_alt word_le_nat_alt\<close>)

lemma move_keys_img:
  assumes n: "length n = 8192" "length r = 8192" and m: "mid < cnt" "unat cnt \<le> internalCap c"
  shows "\<exists>r'. move_keys n mid cnt (mid + 1) r = Some r' \<and> length r' = 8192 \<and>
    inner.img r' = inner.img r\<lparr>karr := move_list (Suc (unat mid)) (Suc (unat mid)) (unat cnt) (karr (inner.img n)) (karr (inner.img r))\<rparr>"
proof -
  have s: "unat (mid + 1) = Suc (unat mid)" by (rule unat_plus_1[OF m(1)])
  have "\<exists>r'. move_keys n mid cnt (mid + 1) r = Some r' \<and> length r' = 8192 \<and>
    inner.img r' = inner.img r\<lparr>karr := move_list (Suc (unat mid)) (unat (mid + 1)) (unat cnt) (karr (inner.img n)) (karr (inner.img r))\<rparr>"
  proof (rule up_loop[where L = "move_keys n mid cnt" and f = inner.img and e = "unat cnt" and lo = "Suc (unat mid)"
        and step = "\<lambda>j r. keyAt n j \<bind> setKeyAt r (j - mid - 1)"
        and G = "\<lambda>j x. x\<lparr>karr := move_list (Suc (unat mid)) j (unat cnt) (karr (inner.img n)) (karr x)\<rparr>"])
    fix j :: u16 and r :: page assume j: "Suc (unat mid) \<le> unat j" "unat j < unat cnt" and r: "length r = 8192"
    have u: "unat (j - mid - 1) = unat j - Suc (unat mid)" using j by (simp add: unat_sub_small)
    have lt: "unat j < internalCap c" "unat (j - mid - 1) < internalCap c" using j m u by linarith+
    obtain x where x: "keyAt n j = Some x" "sint x = karr (inner.img n) ! unat j"
      using inner.keyAt_img[OF n(1) lt(1)] by blast
    obtain r1 where r1: "setKeyAt r (j - mid - 1) x = Some r1" "length r1 = 8192"
      "inner.img r1 = inner.img r\<lparr>karr := (karr (inner.img r))[unat (j - mid - 1) := sint x]\<rparr>"
      using inner.setKeyAt_img[OF r lt(2)] by blast
    show "\<exists>r'. (keyAt n j \<bind> setKeyAt r (j - mid - 1)) = Some r' \<and> length r' = 8192 \<and>
      inner.img r'\<lparr>karr := move_list (Suc (unat mid)) (Suc (unat j)) (unat cnt) (karr (inner.img n)) (karr (inner.img r'))\<rparr> =
      inner.img r\<lparr>karr := move_list (Suc (unat mid)) (unat j) (unat cnt) (karr (inner.img n)) (karr (inner.img r))\<rparr>"
      using x r1 j u by (simp add: move_list_step)
  qed (use n m s unsigned_less[of cnt, where 'a = nat] in
      \<open>simp_all add: move_keys.simps move_list_none word_less_nat_alt\<close>)
  then show ?thesis by (simp only: s)
qed

lemma move_children_img:
  assumes n: "length n = 8192" "length r = 8192" and m: "mid < cnt" "unat cnt \<le> internalCap c"
  shows "\<exists>r'. move_children c n mid cnt (mid + 1) r = Some r' \<and> length r' = 8192 \<and>
    inner.img r' = inner.img r\<lparr>varr := move_list (Suc (unat mid)) (Suc (unat mid)) (Suc (unat cnt)) (varr (inner.img n)) (varr (inner.img r))\<rparr>"
proof -
  have s: "unat (mid + 1) = Suc (unat mid)" by (rule unat_plus_1[OF m(1)])
  have "\<exists>r'. move_children c n mid cnt (mid + 1) r = Some r' \<and> length r' = 8192 \<and>
    inner.img r' = inner.img r\<lparr>varr := move_list (Suc (unat mid)) (unat (mid + 1)) (Suc (unat cnt)) (varr (inner.img n)) (varr (inner.img r))\<rparr>"
  proof (rule up_loop[where L = "move_children c n mid cnt" and f = inner.img and e = "Suc (unat cnt)" and lo = "Suc (unat mid)"
        and step = "\<lambda>j r. childAt c n j \<bind> setChildAt c r (j - mid - 1)"
        and G = "\<lambda>j x. x\<lparr>varr := move_list (Suc (unat mid)) j (Suc (unat cnt)) (varr (inner.img n)) (varr x)\<rparr>"])
    fix j :: u16 and r :: page assume j: "Suc (unat mid) \<le> unat j" "unat j < Suc (unat cnt)" and r: "length r = 8192"
    have u: "unat (j - mid - 1) = unat j - Suc (unat mid)" using j by (simp add: unat_sub_small)
    have lt: "unat j \<le> internalCap c" "unat (j - mid - 1) \<le> internalCap c" using j m u by linarith+
    obtain r1 where r1: "setChildAt c r (j - mid - 1) (varr (inner.img n) ! unat j) = Some r1" "length r1 = 8192"
      "inner.img r1 = inner.img r\<lparr>varr := (varr (inner.img r))[unat (j - mid - 1) := varr (inner.img n) ! unat j]\<rparr>"
      using setChildAt_img[OF r lt(2)] by blast
    show "\<exists>r'. (childAt c n j \<bind> setChildAt c r (j - mid - 1)) = Some r' \<and> length r' = 8192 \<and>
      inner.img r'\<lparr>varr := move_list (Suc (unat mid)) (Suc (unat j)) (Suc (unat cnt)) (varr (inner.img n)) (varr (inner.img r'))\<rparr> =
      inner.img r\<lparr>varr := move_list (Suc (unat mid)) (unat j) (Suc (unat cnt)) (varr (inner.img n)) (varr (inner.img r))\<rparr>"
      using r1 j u childAt_img[OF n(1) lt(1)] by (simp add: move_list_step)
    next
    show "move_children c n mid cnt j r =
        (if unat j < Suc (unat cnt) then (childAt c n j \<bind> setChildAt c r (j - mid - 1)) \<bind> move_children c n mid cnt (j + 1) else Some r)" for j r
      by (subst move_children.simps) (simp add: word_le_nat_alt less_Suc_eq_le)
  next
    show "Suc (unat cnt) < 65536" using m(2) inner.fits by simp
  qed (use n m s in \<open>simp_all add: move_list_none word_less_nat_alt\<close>)
  then show ?thesis by (simp only: s)
qed

end

subsection \<open>What a page holds\<close>

definition leaf_page :: "node_caps \<Rightarrow> page \<Rightarrow> (int \<times> TID) list \<Rightarrow> PageID \<Rightarrow> bool" where
  "leaf_page c n es nx \<longleftrightarrow> (let x = img_of (leafCap c) (leafCap c) 6 tid_of n in
     length n = 8192 \<and> img_kind x = nodeLeaf \<and> img_nxt x = nx \<and> unat (img_cnt x) = length es \<and>
     length es \<le> leafCap c \<and> map fst es = take (length es) (karr x) \<and> map snd es = take (length es) (varr x))"

definition inner_page :: "node_caps \<Rightarrow> page \<Rightarrow> int list \<Rightarrow> PageID list \<Rightarrow> bool" where
  "inner_page c n ks ps \<longleftrightarrow> (let x = img_of (internalCap c) (Suc (internalCap c)) 4 be_uint n in
     length n = 8192 \<and> img_kind x = nodeInternal \<and> unat (img_cnt x) = length ks \<and>
     length ks \<le> internalCap c \<and> ks = take (length ks) (karr x) \<and> ps = take (Suc (length ks)) (varr x))"

lemma unat_of_nat_le: "i \<le> unat (w :: 'a::len word) \<Longrightarrow> unat (of_nat i :: 'a word) = i"
  using le_less_trans[OF _ unsigned_less[of w, where 'a = nat], of i] by (intro unat_of_nat_small) simp

lemma of_nat_Suc_word: "of_nat i + 1 = (of_nat (Suc i) :: 'a::len word)"
  by simp

lemma be_uint_zeros [simp]: "be_uint (replicate k 0) = 0"
  by (induction k) (simp_all add: be_uint_snoc flip: replicate_append_same)

lemma map_insert_at:
  assumes "map f es = take (length es) xs" "i \<le> length es"
  shows "map f (take i es @ e # drop i es) = take i xs @ f e # drop i (take (length es) xs)"
proof -
  have "map f (take i es) = take i xs" using arg_cong[OF assms(1), of "take i"] assms(2) by (simp add: take_map min_def)
  moreover have "map f (drop i es) = drop i (take (length es) xs)" using arg_cong[OF assms(1), of "drop i"] by (simp add: drop_map)
  ultimately show ?thesis by simp
qed

lemma init_header:
  assumes "length n = 8192"
  shows "length (initType k n) = 8192" "nodeType (initType k n) = k" "keyCount (initType k n) = 0"
    "nextLeaf (initType k n) = 0"
proof -
  have "replicate 8192 (0 :: byte) = 0 # replicate 8191 0" using replicate_Suc[of 8191 "0 :: byte"] by simp
  then have "initType k n = k # replicate 8191 0" using assms by (simp add: initType_def go_clear_def layout_simps)
  then show "length (initType k n) = 8192" "nodeType (initType k n) = k" "keyCount (initType k n) = 0"
    "nextLeaf (initType k n) = 0"
    by (simp_all add: nodeType_def keyCount_def nextLeaf_def layout_simps subslice_def)
qed

context btree_caps
begin

lemma initLeaf_page: "length n = 8192 \<Longrightarrow> leaf_page c (initLeaf n) [] 0"
  using init_header[of n nodeLeaf] by (simp add: leaf_page_def leaf.img_header initLeaf_def)

lemma leaf_pageD:
  assumes "leaf_page c n es nx"
  shows "length n = 8192" "isLeaf n" "unat (keyCount n) = length es" "length es \<le> leafCap c" "nextLeaf n = nx"
    "map fst es = take (length es) (karr (leaf.img n))" "map snd es = take (length es) (varr (leaf.img n))"
  using assms by (auto simp: leaf_page_def isLeaf_def leaf.img_header Let_def)

lemma inner_pageD:
  assumes "inner_page c n ks ps"
  shows "length n = 8192" "\<not> isLeaf n" "unat (keyCount n) = length ks" "length ks \<le> internalCap c"
    "ks = take (length ks) (karr (inner.img n))" "ps = take (Suc (length ks)) (varr (inner.img n))"
    "length ps = Suc (length ks)"
  using assms by (auto simp: inner_page_def isLeaf_def nodeLeaf_def nodeInternal_def inner.img_header Let_def)

lemma leaf_search:
  assumes "leaf_page c n es nx" "sorted_wrt (<) (map fst es)"
  shows "node_search n key = Some (of_nat (below (sint key) (map fst es)), sint key \<in> fst ` set es)"
proof -
  note d = leaf_pageD[OF assms(1)]
  have "unat (keyCount n) \<le> leafCap c" "map fst es = take (unat (keyCount n)) (karr (leaf.img n))"
    using d(3,4,6) by simp_all
  from leaf.node_search_spec(1)[OF d(1) this assms(2)] show ?thesis by simp
qed

lemma leaf_key:
  assumes "leaf_page c n es nx" "i < length es"
  obtains k where "keyAt n (of_nat i) = Some k" "sint k = fst (es ! i)"
proof -
  note l = leaf_pageD[OF assms(1)]
  have u: "unat (of_nat i :: u16) = i" using unat_of_nat_le[of i "keyCount n"] l assms(2) by simp
  have "fst (es ! i) = karr (leaf.img n) ! i" using l(6) assms(2) by (metis length_map nth_map nth_take)
  then show thesis using leaf.keyAt_img[of n "of_nat i" thesis] that l assms(2) u by simp
qed

lemma leaf_tid:
  assumes "leaf_page c n es nx" "i < length es"
  shows "tidAt c n (of_nat i) = Some (snd (es ! i))"
proof -
  note l = leaf_pageD[OF assms(1)]
  have u: "unat (of_nat i :: u16) = i" using unat_of_nat_le[of i "keyCount n"] l assms(2) by simp
  have "snd (es ! i) = varr (leaf.img n) ! i" using l(7) assms(2) by (metis length_map nth_map nth_take)
  then show ?thesis using tidAt_img[of n "of_nat i"] l assms(2) u by simp
qed

lemma inner_index:
  assumes "inner_page c n ks ps" "sorted_wrt (<) ks"
  shows "childIndex n key = Some (of_nat (upto_key (sint key) ks))"
    "childAt c n (of_nat (upto_key (sint key) ks)) = Some (ps ! upto_key (sint key) ks)"
proof -
  note i = inner_pageD[OF assms(1)]
  show "childIndex n key = Some (of_nat (upto_key (sint key) ks))"
    by (rule inner.node_search_spec(2)[OF i(1) _ _ assms(2)]) (use i(3,4,5) in simp_all)
  have le: "upto_key (sint key) ks \<le> length ks" by (rule upto_key_le)
  then have "unat (of_nat (upto_key (sint key) ks) :: u16) = upto_key (sint key) ks"
    using unat_of_nat_le[of _ "keyCount n"] i(3) by simp
  moreover have "ps ! upto_key (sint key) ks = varr (inner.img n) ! upto_key (sint key) ks"
    using i(6) le by (metis le_imp_less_Suc nth_take)
  ultimately show "childAt c n (of_nat (upto_key (sint key) ks)) = Some (ps ! upto_key (sint key) ks)"
    using childAt_img[OF i(1)] le i(4) by simp
qed

lemma insertLeafAt_spec:
  assumes l: "leaf_page c n es nx" and i: "i \<le> length es" and room: "length es < leafCap c"
  shows "\<exists>n'. insertLeafAt c n (of_nat i) key tid = Some n' \<and>
    leaf_page c n' (take i es @ (sint key, tid) # drop i es) nx"
proof -
  note d = leaf_pageD[OF l]
  have u: "unat (of_nat i :: u16) = i" using unat_of_nat_le[of i "keyCount n"] d(3) i by simp
  have iw: "of_nat i \<le> keyCount n" using u i d(3) by (simp add: word_le_nat_alt)
  have ic: "unat (of_nat i :: u16) < leafCap c" using u i room by simp
  obtain n1 where n1: "shift_leaf c (of_nat i) (keyCount n) n = Some n1" "length n1 = 8192"
    "leaf.img n1 = leaf.img n\<lparr>karr := shift_list i (length es) (karr (leaf.img n)),
       varr := shift_list i (length es) (varr (leaf.img n))\<rparr>"
    using shift_leaf_img[OF d(1) iw] d(3) room u by auto
  obtain n2 where n2: "setKeyAt n1 (of_nat i) key = Some n2" "length n2 = 8192"
    "leaf.img n2 = leaf.img n1\<lparr>karr := (karr (leaf.img n1))[i := sint key]\<rparr>"
    using leaf.setKeyAt_img[OF n1(2) ic] u by metis
  obtain n3 where n3: "setTIDAt c n2 (of_nat i) tid = Some n3" "length n3 = 8192"
    "leaf.img n3 = leaf.img n2\<lparr>varr := (varr (leaf.img n2))[i := tid]\<rparr>"
    using setTIDAt_img[OF n2(2) ic] u by metis
  let ?n = "setKeyCount n3 (keyCount n + 1)"
  have img: "leaf.img ?n = leaf.img n\<lparr>karr := (shift_list i (length es) (karr (leaf.img n)))[i := sint key],
      varr := (shift_list i (length es) (varr (leaf.img n)))[i := tid], img_cnt := keyCount n + 1\<rparr>"
    using leaf.img_header_writes(1)[OF n3(2)] n1(3) n2(3) n3(3) by simp
  have "unat (keyCount n + 1) = Suc (length es)"
    using room leaf.fits d(3) by (subst unat_add_small) simp_all
  moreover have "length ?n = 8192" using n3(2) by (simp add: setKeyCount_def layout_simps)
  moreover have "map fst (take i es @ (sint key, tid) # drop i es) = take i (karr (leaf.img n)) @ sint key # drop i (take (length es) (karr (leaf.img n)))"
    "map snd (take i es @ (sint key, tid) # drop i es) = take i (varr (leaf.img n)) @ tid # drop i (take (length es) (varr (leaf.img n)))"
    using map_insert_at[OF d(6) i, of "(sint key, tid)"] map_insert_at[OF d(7) i, of "(sint key, tid)"] by simp_all
  ultimately have "leaf_page c ?n (take i es @ (sint key, tid) # drop i es) nx"
    using l i room by (simp add: leaf_page_def img Let_def insert_shifted del: map_append)
  then show ?thesis using n1(1) n2(1) n3(1) by (simp add: insertLeafAt_def)
qed

end

lemma take_Suc_shifted:
  "i \<le> m \<Longrightarrow> m < length xs \<Longrightarrow> xs' = take m xs \<Longrightarrow> take (Suc m) ((shift_list i m xs)[i := x]) = take i xs' @ x # drop i xs'"
  by (simp add: insert_shifted)

lemma take_prefix: "xs = take n ys \<Longrightarrow> m \<le> n \<Longrightarrow> take m xs = take m ys"
  by (simp add: min_def)

lemma half_word: "unat (w div 2 :: u16) = unat w div 2"
  by (simp add: unat_div)

context btree_caps
begin

lemma setKeyCount_length [simp]: "length n = 8192 \<Longrightarrow> length (setKeyCount n k) = 8192"
  and setNextLeaf_length [simp]: "length n = 8192 \<Longrightarrow> length (setNextLeaf n p) = 8192"
  by (simp_all add: setKeyCount_def setNextLeaf_def layout_simps)

lemma setNextLeaf_page: "leaf_page c n es nx \<Longrightarrow> leaf_page c (setNextLeaf n p) es p"
  using leaf.img_header_writes(2)[of n p] by (simp add: leaf_page_def Let_def)

lemma insertInternalAt_spec:
  assumes n: "inner_page c n ks ps" and i: "i \<le> length ks" and room: "length ks < internalCap c"
  shows "\<exists>n'. insertInternalAt c n (of_nat i) key p = Some n' \<and>
    inner_page c n' (take i ks @ sint key # drop i ks) (take (Suc i) ps @ p # drop (Suc i) ps)"
proof -
  note d = inner_pageD[OF n]
  have u: "unat (of_nat i :: u16) = i" using unat_of_nat_le[of i "keyCount n"] d(3) i by simp
  have m: "unat (keyCount n + 1) = Suc (length ks)"
    using room inner.fits d(3) by (subst unat_add_small) simp_all
  have u1: "unat (of_nat i + 1 :: u16) = Suc i"
    using u room i inner.fits by (subst unat_add_small) simp_all
  have iw: "of_nat i \<le> keyCount n" "of_nat i + 1 \<le> keyCount n + 1"
    using u u1 i m d(3) by (simp_all add: word_le_nat_alt)
  have ic: "unat (of_nat i :: u16) < internalCap c" using u i room by simp
  obtain n1 where n1: "shift_keys (of_nat i) (keyCount n) n = Some n1" "length n1 = 8192"
    "inner.img n1 = inner.img n\<lparr>karr := shift_list i (length ks) (karr (inner.img n))\<rparr>"
    using shift_keys_img[OF d(1) iw(1)] d(3) room u by auto
  obtain n2 where n2: "setKeyAt n1 (of_nat i) key = Some n2" "length n2 = 8192"
    "inner.img n2 = inner.img n1\<lparr>karr := (karr (inner.img n1))[i := sint key]\<rparr>"
    using inner.setKeyAt_img[OF n1(2) ic] u by metis
  obtain n3 where n3: "shift_children c (of_nat i + 1) (keyCount n + 1) n2 = Some n3" "length n3 = 8192"
    "inner.img n3 = inner.img n2\<lparr>varr := shift_list (Suc i) (Suc (length ks)) (varr (inner.img n2))\<rparr>"
    using shift_children_img[OF n2(2) iw(2)] m room u1 by auto
  have "unat (of_nat i + 1 :: u16) \<le> internalCap c" using u1 i room by simp
  then obtain n4 where n4: "setChildAt c n3 (of_nat i + 1) p = Some n4" "length n4 = 8192"
    "inner.img n4 = inner.img n3\<lparr>varr := (varr (inner.img n3))[Suc i := p]\<rparr>"
    using setChildAt_img[OF n3(2)] u1 by metis
  let ?n = "setKeyCount n4 (keyCount n + 1)"
  have img: "inner.img ?n = inner.img n\<lparr>karr := (shift_list i (length ks) (karr (inner.img n)))[i := sint key],
      varr := (shift_list (Suc i) (Suc (length ks)) (varr (inner.img n)))[Suc i := p], img_cnt := keyCount n + 1\<rparr>"
    using inner.img_header_writes(1)[OF n4(2)] n1(3) n2(3) n3(3) n4(3) by simp
  have "take (Suc (length ks)) ((shift_list i (length ks) (karr (inner.img n)))[i := sint key]) = take i ks @ sint key # drop i ks"
    by (rule take_Suc_shifted[OF i _ d(5)]) (use room in simp)
  moreover have "take (Suc (Suc (length ks))) ((shift_list (Suc i) (Suc (length ks)) (varr (inner.img n)))[Suc i := p]) =
      take (Suc i) ps @ p # drop (Suc i) ps"
    by (rule take_Suc_shifted[OF _ _ d(6)]) (use room i in simp_all)
  ultimately have "inner_page c ?n (take i ks @ sint key # drop i ks) (take (Suc i) ps @ p # drop (Suc i) ps)"
    using n i room m n4(2) by (simp add: inner_page_def img Let_def)
  then show ?thesis using n1(1) n2(1) n3(1) n4(1) by (simp add: insertInternalAt_def)
qed

lemma splitLeaf_spec:
  assumes n: "leaf_page c n es nx" and r: "leaf_page c r [] z" and mid: "mid = length es div 2"
  shows "\<exists>n' r'. splitLeaf c n r = Some (n', r') \<and> leaf_page c n' (take mid es) nx \<and> leaf_page c r' (drop mid es) z"
proof -
  note d = leaf_pageD[OF n] and e = leaf_pageD[OF r]
  define m where "m = keyCount n div 2"
  have m: "unat m = mid" using half_word[of "keyCount n"] d(3) mid by (simp add: m_def)
  have mw: "m \<le> keyCount n" using m mid d(3) by (simp add: word_le_nat_alt)
  obtain r1 where r1: "move_leaf c n m (keyCount n) m r = Some r1" "length r1 = 8192"
    "leaf.img r1 = leaf.img r\<lparr>karr := move_list mid mid (length es) (karr (leaf.img n)) (karr (leaf.img r)),
       varr := move_list mid mid (length es) (varr (leaf.img n)) (varr (leaf.img r))\<rparr>"
    using move_leaf_img[OF d(1) e(1) mw] d(3,4) m by auto
  let ?r = "setKeyCount r1 (keyCount n - m)" and ?n = "setKeyCount n m"
  have cnt: "unat (keyCount n - m) = length es - mid"
    using m d(3) mid by (simp add: unat_sub_small)
  have le: "mid \<le> length es" using mid by simp
  have "leaf_page c ?n (take mid es) nx"
    using n m le leaf.img_header_writes(1)[OF d(1), of m]
    by (simp add: leaf_page_def Let_def take_map min_def flip: take_map)
  moreover have "leaf_page c ?r (drop mid es) z"
    using r r1(2,3) cnt le d(4,6,7) leaf.img_header_writes(1)[OF r1(2), of "keyCount n - m"]
    by (simp add: leaf_page_def Let_def take_moved flip: drop_map)
  moreover have "splitLeaf c n r = Some (?n, ?r)" using r1(1) by (simp add: splitLeaf_def Let_def flip: m_def)
  ultimately show ?thesis by blast
qed

lemma splitInternal_spec:
  assumes n: "inner_page c n ks ps" and r: "length r = 8192" "nodeType r = nodeInternal"
    and mid: "mid = length ks div 2" and ne: "ks \<noteq> []"
  shows "\<exists>k n' r'. splitInternal c n r = Some (k, n', r') \<and> sint k = ks ! mid \<and>
    inner_page c n' (take mid ks) (take (Suc mid) ps) \<and> inner_page c r' (drop (Suc mid) ks) (drop (Suc mid) ps)"
proof -
  note d = inner_pageD[OF n]
  define m where "m = keyCount n div 2"
  have m: "unat m = mid" using half_word[of "keyCount n"] d(3) mid by (simp add: m_def)
  have lt: "mid < length ks" using mid ne by (cases ks) auto
  have mw: "m < keyCount n" using m lt d(3) by (simp add: word_less_nat_alt)
  have "unat m < internalCap c" using m lt d(4) by simp
  then obtain k where k: "keyAt n m = Some k" "sint k = karr (inner.img n) ! mid"
    using inner.keyAt_img[OF d(1)] m by metis
  then have k2: "sint k = ks ! mid" using d(5) lt by (metis nth_take)
  obtain r1 where r1: "move_keys n m (keyCount n) (m + 1) r = Some r1" "length r1 = 8192"
    "inner.img r1 = inner.img r\<lparr>karr := move_list (Suc mid) (Suc mid) (length ks) (karr (inner.img n)) (karr (inner.img r))\<rparr>"
    using move_keys_img[OF d(1) r(1) mw] d(3,4) m by auto
  obtain r2 where r2: "move_children c n m (keyCount n) (m + 1) r1 = Some r2" "length r2 = 8192"
    "inner.img r2 = inner.img r1\<lparr>varr := move_list (Suc mid) (Suc mid) (Suc (length ks)) (varr (inner.img n)) (varr (inner.img r1))\<rparr>"
    using move_children_img[OF d(1) r1(2) mw] d(3,4) m by auto
  let ?r = "setKeyCount r2 (keyCount n - m - 1)" and ?n = "setKeyCount n m"
  have cnt: "unat (keyCount n - m - 1) = length ks - Suc mid"
    using m d(3) lt by (simp add: unat_sub_small)
  have tk: "take (length ks - Suc mid) (move_list (Suc mid) (Suc mid) (length ks) (karr (inner.img n)) (karr (inner.img r))) = drop (Suc mid) ks"
    by (subst take_moved) (use lt d(4) in \<open>simp_all flip: d(5)\<close>)
  have "take (Suc (length ks) - Suc mid) (move_list (Suc mid) (Suc mid) (Suc (length ks)) (varr (inner.img n)) (varr (inner.img r))) = drop (Suc mid) ps"
    by (subst take_moved) (use lt d(4) in \<open>simp_all flip: d(6)\<close>)
  moreover have "Suc (length ks) - Suc mid = Suc (length ks - Suc mid)" using lt by simp
  ultimately have tv: "take (Suc (length ks - Suc mid)) (move_list (Suc mid) (Suc mid) (Suc (length ks)) (varr (inner.img n)) (varr (inner.img r))) = drop (Suc mid) ps"
    by simp
  have "inner_page c ?r (drop (Suc mid) ks) (drop (Suc mid) ps)"
    using r r1(3) r2(2,3) cnt d(4) tk tv inner.img_header_writes(1)[OF r2(2), of "keyCount n - m - 1"]
    by (simp add: inner_page_def Let_def inner.img_header)
  moreover have "inner_page c ?n (take mid ks) (take (Suc mid) ps)"
    using n m lt inner.img_header_writes(1)[OF d(1), of m] take_prefix[OF d(5), of mid] take_prefix[OF d(6), of "Suc mid"]
    by (simp add: inner_page_def Let_def)
  moreover have "splitInternal c n r = Some (k, ?n, ?r)"
    using k(1) r1(1) r2(1) by (simp add: splitInternal_def Let_def flip: m_def)
  ultimately show ?thesis using k2 by blast
qed

text \<open>The node that \<^verbatim>\<open>Insert\<close> builds over the two halves of a split root.\<close>

lemma new_root_page:
  assumes f: "length f = 8192"
  obtains n1 n2 n3 where "setKeyAt (initInternal f) 0 k = Some n1" "setChildAt c n1 0 l = Some n2"
    "setChildAt c n2 1 r = Some n3" "length (setKeyCount n3 1) = 8192" "inner_page c (setKeyCount n3 1) [sint k] [l, r]"
proof -
  have cap: "2 \<le> internalCap c" using caps_ok by (simp add: caps_ok_def)
  have f': "length (initInternal f) = 8192" "nodeType (initInternal f) = nodeInternal"
    using init_header[OF f] by (simp_all add: initInternal_def)
  obtain n1 where n1: "setKeyAt (initInternal f) 0 k = Some n1" "length n1 = 8192"
    "inner.img n1 = inner.img (initInternal f)\<lparr>karr := (karr (inner.img (initInternal f)))[0 := sint k]\<rparr>"
    using inner.setKeyAt_img[OF f'(1), of 0 k] cap by auto
  obtain n2 where n2: "setChildAt c n1 0 l = Some n2" "length n2 = 8192"
    "inner.img n2 = inner.img n1\<lparr>varr := (varr (inner.img n1))[0 := l]\<rparr>"
    using setChildAt_img[OF n1(2), of 0 l] by auto
  obtain n3 where n3: "setChildAt c n2 1 r = Some n3" "length n3 = 8192"
    "inner.img n3 = inner.img n2\<lparr>varr := (varr (inner.img n2))[1 := r]\<rparr>"
    using setChildAt_img[OF n2(2), of 1 r] cap by auto
  have t1: "take 1 (xs[0 := a]) = [a]" if "0 < length xs" for xs :: "int list" and a
    using that by (cases xs) auto
  have t2: "take 2 (xs[0 := a, 1 := b]) = [a, b]" if "1 < length xs" for xs :: "PageID list" and a b
    using that by (cases xs; cases "tl xs") (auto simp: numeral_2_eq_2)
  let ?x = "inner.img (initInternal f)"
  have "0 < length (karr ?x)" "1 < length (varr ?x)" using cap by simp_all
  from t1[OF this(1), of "sint k"] t2[OF this(2), of l r] have "inner_page c (setKeyCount n3 1) [sint k] [l, r]"
    using inner.img_header_writes(1)[OF n3(2), of 1] n1(3) n2(3) n3(2,3) f'(2) cap
    by (simp add: inner_page_def Let_def inner.img_header numeral_2_eq_2)
  then show thesis using that n1(1) n2(1) n3(1,2) by simp
qed

end

subsection \<open>Properties\<close>

text \<open>The binary search ends on any page, whatever its bytes are, as long as the key count names keys that are
  inside the page.\<close>

lemma search_loop_returns:
  assumes "length n = 8192" "unat hi \<le> 1023"
  shows "\<exists>i. search_loop n key lo hi = Some i \<and> (i \<le> hi \<or> i = lo)"
  using assms(2)
proof (induction "unat hi - unat lo" arbitrary: lo hi rule: less_induct)
  case less
  show ?case
  proof (cases "lo < hi")
    case True
    define mid where "mid = (lo + hi) div 2"
    have lt: "unat lo < unat hi" using True by (simp add: word_less_nat_alt)
    then have "unat lo + unat hi < 2 ^ 16" using less.prems by simp
    then have mid: "unat mid = (unat lo + unat hi) div 2" by (simp add: mid_def unat_div unat_add_small)
    then have b: "unat lo \<le> unat mid" "unat mid < unat hi" using lt by simp_all
    have u: "unat (mid + 1) = Suc (unat mid)" using unat_plus_1[of mid hi] b by (simp add: word_less_nat_alt)
    have "8 + unat mid * 8 + 8 \<le> length n" using b less.prems assms(1) by simp
    then obtain k where k: "keyAt n mid = Some k" by (auto simp: keyAt_def be_at_def go_slice_def layout_simps)
    have step: "search_loop n key lo hi = (if sint k < sint key then search_loop n key (mid + 1) hi else search_loop n key lo mid)"
      using True k by (subst search_loop.simps) (simp flip: mid_def)
    have "\<exists>i. search_loop n key (mid + 1) hi = Some i \<and> (i \<le> hi \<or> i = mid + 1)"
      "\<exists>i. search_loop n key lo mid = Some i \<and> (i \<le> mid \<or> i = lo)"
      using less b u by (auto intro!: less.hyps)
    then show ?thesis using step b u by (auto simp: word_le_nat_alt)
  qed (simp add: search_loop.simps)
qed

text \<open>C25. The search of a node never panics and always ends on a page whose key count is at most 1023, the number of
  keys a page can hold at all, even if the keys are not in order; the position it returns is at most the key count.\<close>

theorem node_search_returns:
  assumes "length n = 8192" "unat (keyCount n) \<le> 1023"
  shows "\<exists>i found. node_search n key = Some (i, found) \<and> i \<le> keyCount n"
proof -
  obtain i where i: "search_loop n key 0 (keyCount n) = Some i" "i \<le> keyCount n"
    using search_loop_returns[OF assms, of key 0] by auto
  have "\<exists>k. keyAt n i = Some k" if "i < keyCount n"
    using that assms by (auto simp: keyAt_def be_at_def go_slice_def layout_simps word_less_nat_alt)
  then show ?thesis using i by (auto simp: node_search_def)
qed

theorem node_search_returns_witness:
  "\<exists>i found. node_search (initLeaf (replicate 8192 0)) 7 = Some (i, found) \<and> i \<le> 0"
  using node_search_returns[of "initLeaf (replicate 8192 0)" 7] init_header[of "replicate 8192 0" nodeLeaf]
  by (simp add: initLeaf_def)

text \<open>C24. On a leaf with its keys in order the binary search equals a linear one: the position is the number of
  smaller keys, and the key is found exactly when it is there.\<close>

theorem node_search_linear:
  assumes "leaf_page default_caps n es nx" "sorted_wrt (<) (map fst es)"
  shows "node_search n key = Some (of_nat (length (filter (\<lambda>k. k < sint key) (map fst es))), sint key \<in> fst ` set es)"
  using production.leaf_search[OF assms, of key] by (simp add: below_def)

theorem node_search_linear_witness:
  "\<exists>n. insertLeafAt default_caps (initLeaf (replicate 8192 0)) 0 5 (TID 1 2) = Some n \<and>
    node_search n 7 = Some (1, False) \<and> node_search n 5 = Some (0, True)"
proof -
  have "leaf_page default_caps (initLeaf (replicate 8192 0)) [] 0" by (rule production.initLeaf_page) simp
  from production.insertLeafAt_spec[OF this, of 0 5 "TID 1 2"]
  obtain n where n: "insertLeafAt default_caps (initLeaf (replicate 8192 0)) 0 5 (TID 1 2) = Some n"
    "leaf_page default_caps n [(5, TID 1 2)] 0" by (auto simp: default_caps_def)
  then show ?thesis using node_search_linear[OF n(2), of 7] node_search_linear[OF n(2), of 5] by simp
qed

text \<open>Inserting into a leaf that is not full refines the insertion into its list of entries: the entries before the
  position stay, the others move up by one, and the link to the next leaf is kept.\<close>

theorem insertLeafAt_refines:
  assumes "leaf_page default_caps n es nx" "i \<le> length es" "length es < leafCap default_caps"
  shows "\<exists>n'. insertLeafAt default_caps n (of_nat i) key tid = Some n' \<and>
    leaf_page default_caps n' (take i es @ (sint key, tid) # drop i es) nx"
  by (rule production.insertLeafAt_spec[OF assms])

theorem insertLeafAt_refines_witness:
  "\<exists>n. insertLeafAt default_caps (initLeaf (replicate 8192 0)) 0 5 (TID 1 2) = Some n \<and>
    leaf_page default_caps n [(5, TID 1 2)] 0"
  using insertLeafAt_refines[of "initLeaf (replicate 8192 0)" "[]" 0 0 5 "TID 1 2"]
    production.initLeaf_page[of "replicate 8192 0"] by (simp add: default_caps_def)

text \<open>Splitting a leaf into an empty one keeps the lower half of the entries and moves the upper half, in order.\<close>

theorem splitLeaf_halves:
  assumes "leaf_page default_caps n es nx" "leaf_page default_caps r [] z"
  shows "\<exists>n' r'. splitLeaf default_caps n r = Some (n', r') \<and>
    leaf_page default_caps n' (take (length es div 2) es) nx \<and> leaf_page default_caps r' (drop (length es div 2) es) z"
  by (rule production.splitLeaf_spec[OF assms refl])

theorem splitLeaf_halves_witness:
  "\<exists>n r. splitLeaf default_caps (initLeaf (replicate 8192 0)) (initLeaf (replicate 8192 0)) = Some (n, r) \<and>
    leaf_page default_caps n [] 0 \<and> leaf_page default_caps r [] 0"
  using splitLeaf_halves[of "initLeaf (replicate 8192 0)" "[]" 0 "initLeaf (replicate 8192 0)" 0]
    production.initLeaf_page[of "replicate 8192 0"] by simp

text \<open>Splitting an internal node with at least one key returns the middle key, which stays in neither half: the
  node keeps the keys before it with the children around them, the new node gets the keys behind it and their
  children.\<close>

theorem splitInternal_promotes:
  assumes "inner_page default_caps n ks ps" "ks \<noteq> []" "length r = 8192" "nodeType r = nodeInternal"
  shows "\<exists>k n' r'. splitInternal default_caps n r = Some (k, n', r') \<and> sint k = ks ! (length ks div 2) \<and>
    inner_page default_caps n' (take (length ks div 2) ks) (take (Suc (length ks div 2)) ps) \<and>
    inner_page default_caps r' (drop (Suc (length ks div 2)) ks) (drop (Suc (length ks div 2)) ps)"
  by (rule production.splitInternal_spec[OF assms(1,3,4) refl assms(2)])

theorem splitInternal_promotes_witness:
  "\<exists>n k n' r'. inner_page default_caps n [5] [1, 2] \<and>
    splitInternal default_caps n (initInternal (replicate 8192 0)) = Some (k, n', r') \<and> sint k = 5 \<and>
    inner_page default_caps n' [] [1] \<and> inner_page default_caps r' [] [2]"
proof -
  obtain n where n: "inner_page default_caps n [sint (5 :: int64)] [1, 2]"
    by (rule production.new_root_page[of "replicate 8192 0" 5 1 2]) auto
  from splitInternal_promotes[OF n, of "initInternal (replicate 8192 0)"] show ?thesis
    using n init_header[of "replicate 8192 0" nodeInternal] by (auto simp: initInternal_def)
qed

subsection \<open>A full leaf\<close>

text \<open>A leaf that is already full has no room for a key: the key of slot \<open>leafCap\<close> lies on the TIDs of the first two slots.\<close>

theorem full_leaf_overflows:
  assumes "length n = 8192"
  shows "\<exists>n'. setKeyAt n (of_nat (leafCap default_caps)) 0x0102030405060708 = Some n' \<and> tidAt default_caps n' 0 = Some (TID 0x01020304 0x0506)"
proof -
  let ?k = "be_bytes 8 (0x0102030405060708 :: int64)" and ?n = "overwrite 4680 (be_bytes 8 (0x0102030405060708 :: int64)) n"
  have k: "?k = [1, 2, 3, 4, 5, 6, 7, 8]" by code_simp
  have s: "subslice 4680 4684 ?n = [1, 2, 3, 4]" "subslice 4684 4686 ?n = [5, 6]"
    using assms by (simp_all add: subslice_def overwrite_def k)
  have u: "be_uint [1, 2, 3, 4 :: byte] = (0x01020304 :: u32)" "be_uint [5, 6 :: byte] = (0x0506 :: u16)" by code_simp+
  show ?thesis
    using assms s u by (simp add: setKeyAt_def tidAt_def go_overwrite_def be_at_def go_slice_def default_caps_def layout_simps tidAreaOff_def k)
qed

end
