(* ===== verification/BTree_Index.thy ===== *)
theory BTree_Index
  imports BTree_Node
begin

text \<open>
  The B+ tree index of \<^verbatim>\<open>internal/access/nbtree/nbtree.go\<close> over the pager interface: page 0 is a meta
  page that names the root, every other page is a node. The operations take the pager, the node
  capacities and the pager's state. A node view aliases the pinned frame: it is read with \<open>load\<close> and
  written with \<open>store\<close> through the frame pointer, and re-read after a recursive call.

  The descents and the leaf chain walk follow page ids stored in pages, and end only when the file
  really holds a tree; they are partial functions, and \<open>None\<close> means a panic or a loop that does not
  end. The callback of a scan is a function on a state of its own, as in the heap.
\<close>

subsection \<open>The meta page\<close>

definition ErrDuplicateKey :: err where
  "ErrDuplicateKey = Sentinel ''nbtree: duplicate key''"

definition metaPID :: PageID where "metaPID = 0"
definition metaMagic :: u32 where "metaMagic = 0x6E627472"
definition offMagic :: nat where [layout_simps]: "offMagic = 0"
definition offRoot :: nat where [layout_simps]: "offRoot = 4"

definition meta_magic :: "page \<Rightarrow> u32" where
  "meta_magic m = be_uint (subslice offMagic (offMagic + 4) m)"
definition meta_setMagic :: "page \<Rightarrow> u32 \<Rightarrow> page" where
  "meta_setMagic m v = overwrite offMagic (be_bytes 4 v) m"
definition meta_root :: "page \<Rightarrow> PageID" where
  "meta_root m = be_uint (subslice offRoot (offRoot + 4) m)"
definition meta_setRoot :: "page \<Rightarrow> PageID \<Rightarrow> page" where
  "meta_setRoot m pid = overwrite offRoot (be_bytes 4 pid) m"

subsection \<open>Opening an index\<close>

definition bootstrap :: "'s pager \<Rightarrow> 's \<Rightarrow> ((err + unit) \<times> 's) option" where
  "bootstrap P s = do {
     (r, s) \<leftarrow> NewPage P s;
     case r of
       Inl e \<Rightarrow> Some (Inl (Wrap ''nbtree: bootstrap meta'' e), s)
     | Inr (mp, mpid) \<Rightarrow> do {
         (r, s) \<leftarrow> NewPage P s;
         case r of
           Inl e \<Rightarrow> do {
             (_, s) \<leftarrow> UnpinPage P s mpid False;
             Some (Inl (Wrap ''nbtree: bootstrap root'' e), s)
           }
         | Inr (rp, rpid) \<Rightarrow> do {
             n \<leftarrow> load P s rp;
             let s = store P s rp (initLeaf n);
             m \<leftarrow> load P s mp;
             let s = store P s mp (meta_setRoot (meta_setMagic m metaMagic) rpid);
             (_, s) \<leftarrow> UnpinPage P s rpid True;
             (_, s) \<leftarrow> UnpinPage P s mpid True;
             Some (Inr (), s)
           }
       }
   }"

definition NewBTree :: "'s pager \<Rightarrow> 's \<Rightarrow> ((err + unit) \<times> 's) option" where
  "NewBTree P s = do {
     n \<leftarrow> NumPages P s;
     if n = 0 then bootstrap P s
     else do {
       (r, s) \<leftarrow> FetchPage P s metaPID;
       case r of
         Inl e \<Rightarrow> Some (Inl (Wrap ''nbtree: open'' e), s)
       | Inr mp \<Rightarrow> do {
           m \<leftarrow> load P s mp;
           (_, s) \<leftarrow> UnpinPage P s metaPID False;
           if meta_magic m \<noteq> metaMagic then Some (Inl (Errorf ''nbtree: not an index file (bad magic)''), s)
           else Some (Inr (), s)
         }
     }
   }"

definition root :: "'s pager \<Rightarrow> 's \<Rightarrow> ((err + PageID) \<times> 's) option" where
  "root P s = do {
     (r, s) \<leftarrow> FetchPage P s metaPID;
     case r of
       Inl e \<Rightarrow> Some (Inl (Wrap ''nbtree: read meta'' e), s)
     | Inr mp \<Rightarrow> do {
         m \<leftarrow> load P s mp;
         (_, s) \<leftarrow> UnpinPage P s metaPID False;
         Some (Inr (meta_root m), s)
       }
   }"

definition setRoot :: "'s pager \<Rightarrow> 's \<Rightarrow> PageID \<Rightarrow> ((err + unit) \<times> 's) option" where
  "setRoot P s pid = do {
     (r, s) \<leftarrow> FetchPage P s metaPID;
     case r of
       Inl e \<Rightarrow> Some (Inl (Wrap ''nbtree: update meta'' e), s)
     | Inr mp \<Rightarrow> do {
         m \<leftarrow> load P s mp;
         let s = store P s mp (meta_setRoot m pid);
         (_, s) \<leftarrow> UnpinPage P s metaPID True;
         Some (Inr (), s)
       }
   }"

subsection \<open>Search\<close>

partial_function (option) search_from :: "'s pager \<Rightarrow> node_caps \<Rightarrow> int64 \<Rightarrow> PageID \<Rightarrow> 's \<Rightarrow>
    ((err + TID \<times> bool) \<times> 's) option" where
  "search_from P c key pid s = do {
     (r, s) \<leftarrow> FetchPage P s pid;
     case r of
       Inl e \<Rightarrow> Some (Inl (Wrap ''nbtree: search page'' e), s)
     | Inr p \<Rightarrow> do {
         n \<leftarrow> load P s p;
         if isLeaf n then do {
           (i, found) \<leftarrow> node_search n key;
           tid \<leftarrow> (if found then tidAt c n i else Some (TID 0 0));
           (_, s) \<leftarrow> UnpinPage P s pid False;
           Some (Inr (tid, found), s)
         }
         else do {
           i \<leftarrow> childIndex n key;
           child \<leftarrow> childAt c n i;
           (_, s) \<leftarrow> UnpinPage P s pid False;
           search_from P c key child s
         }
       }
   }"

definition Search :: "'s pager \<Rightarrow> node_caps \<Rightarrow> 's \<Rightarrow> int64 \<Rightarrow> ((err + TID \<times> bool) \<times> 's) option" where
  "Search P c s key = do {
     (r, s) \<leftarrow> root P s;
     case r of
       Inl e \<Rightarrow> Some (Inl e, s)
     | Inr pid \<Rightarrow> search_from P c key pid s
   }"

subsection \<open>Scan\<close>

partial_function (option) find_from :: "'s pager \<Rightarrow> node_caps \<Rightarrow> int64 \<Rightarrow> PageID \<Rightarrow> 's \<Rightarrow>
    ((err + PageID) \<times> 's) option" where
  \<comment> \<open>the loop of \<^verbatim>\<open>findLeaf\<close>\<close>
  "find_from P c key pid s = do {
     (r, s) \<leftarrow> FetchPage P s pid;
     case r of
       Inl e \<Rightarrow> Some (Inl (Wrap ''nbtree: descend page'' e), s)
     | Inr p \<Rightarrow> do {
         n \<leftarrow> load P s p;
         if isLeaf n then do {
           (_, s) \<leftarrow> UnpinPage P s pid False;
           Some (Inr pid, s)
         }
         else do {
           i \<leftarrow> childIndex n key;
           child \<leftarrow> childAt c n i;
           (_, s) \<leftarrow> UnpinPage P s pid False;
           find_from P c key child s
         }
       }
   }"

definition findLeaf :: "'s pager \<Rightarrow> node_caps \<Rightarrow> 's \<Rightarrow> int64 \<Rightarrow> ((err + PageID) \<times> 's) option" where
  "findLeaf P c s key = do {
     (r, s) \<leftarrow> root P s;
     case r of
       Inl e \<Rightarrow> Some (Inl e, s)
     | Inr pid \<Rightarrow> find_from P c key pid s
   }"

partial_function (option) scanLeaf :: "node_caps \<Rightarrow> page \<Rightarrow> int64 \<Rightarrow> (int64 \<Rightarrow> TID \<Rightarrow> 'c \<Rightarrow> (err + unit) \<times> 'c) \<Rightarrow>
    u16 \<Rightarrow> 'c \<Rightarrow> ((err + bool) \<times> 'c) option" where
  "scanLeaf c n hi fn i acc =
     (if i < keyCount n then do {
        k \<leftarrow> keyAt n i;
        if sint k > sint hi then Some (Inr True, acc)
        else do {
          t \<leftarrow> tidAt c n i;
          let (r, acc) = fn k t acc;
          case r of
            Inl e \<Rightarrow> Some (Inl e, acc)
          | Inr _ \<Rightarrow> scanLeaf c n hi fn (i + 1) acc
        }
      }
      else Some (Inr False, acc))"

partial_function (option) scan_from :: "'s pager \<Rightarrow> node_caps \<Rightarrow> int64 \<Rightarrow> int64 \<Rightarrow>
    (int64 \<Rightarrow> TID \<Rightarrow> 'c \<Rightarrow> (err + unit) \<times> 'c) \<Rightarrow> bool \<Rightarrow> PageID \<Rightarrow> 's \<Rightarrow> 'c \<Rightarrow> ((err + unit) \<times> 's \<times> 'c) option" where
  \<comment> \<open>the loop of \<^verbatim>\<open>Scan\<close>, with its variables \<^verbatim>\<open>first\<close> and \<^verbatim>\<open>pid\<close>\<close>
  "scan_from P c lo hi fn first pid s acc =
     (if pid \<noteq> invalidPID then do {
        (r, s) \<leftarrow> FetchPage P s pid;
        case r of
          Inl e \<Rightarrow> Some (Inl (Wrap ''nbtree: scan page'' e), s, acc)
        | Inr p \<Rightarrow> do {
            n \<leftarrow> load P s p;
            i \<leftarrow> (if first then map_option fst (node_search n lo) else Some 0);
            let next = nextLeaf n;
            (r, acc) \<leftarrow> scanLeaf c n hi fn i acc;
            (_, s) \<leftarrow> UnpinPage P s pid False;
            case r of
              Inl e \<Rightarrow> Some (Inl e, s, acc)
            | Inr done \<Rightarrow>
                if done then Some (Inr (), s, acc)
                else scan_from P c lo hi fn False next s acc
          }
      }
      else Some (Inr (), s, acc))"

definition Scan :: "'s pager \<Rightarrow> node_caps \<Rightarrow> 's \<Rightarrow> int64 \<Rightarrow> int64 \<Rightarrow>
    (int64 \<Rightarrow> TID \<Rightarrow> 'c \<Rightarrow> (err + unit) \<times> 'c) \<Rightarrow> 'c \<Rightarrow> ((err + unit) \<times> 's \<times> 'c) option" where
  "Scan P c s lo hi fn acc = do {
     (r, s) \<leftarrow> findLeaf P c s lo;
     case r of
       Inl e \<Rightarrow> Some (Inl e, s, acc)
     | Inr pid \<Rightarrow> scan_from P c lo hi fn True pid s acc
   }"

subsection \<open>Insert\<close>

datatype split = Split (sepKey: int64) (right: PageID)

definition splitLeafNode :: "'s pager \<Rightarrow> node_caps \<Rightarrow> 's \<Rightarrow> frameID \<Rightarrow> ((err + split) \<times> 's) option" where
  \<comment> \<open>\<open>np\<close> is the frame the node view \<^verbatim>\<open>n\<close> aliases\<close>
  "splitLeafNode P c s np = do {
     (r, s) \<leftarrow> NewPage P s;
     case r of
       Inl e \<Rightarrow> Some (Inl (Wrap ''nbtree: split leaf'' e), s)
     | Inr (rp, rpid) \<Rightarrow> do {
         rn \<leftarrow> load P s rp;
         n \<leftarrow> load P s np;
         (n, rn) \<leftarrow> splitLeaf c n (initLeaf rn);
         let rn = setNextLeaf rn (nextLeaf n);
         let n = setNextLeaf n rpid;
         sep \<leftarrow> keyAt rn 0;
         let s = store P s rp rn;
         let s = store P s np n;
         (_, s) \<leftarrow> UnpinPage P s rpid True;
         Some (Inr (Split sep rpid), s)
       }
   }"

definition splitInternalNode :: "'s pager \<Rightarrow> node_caps \<Rightarrow> 's \<Rightarrow> frameID \<Rightarrow> ((err + split) \<times> 's) option" where
  "splitInternalNode P c s np = do {
     (r, s) \<leftarrow> NewPage P s;
     case r of
       Inl e \<Rightarrow> Some (Inl (Wrap ''nbtree: split internal'' e), s)
     | Inr (rp, rpid) \<Rightarrow> do {
         rn \<leftarrow> load P s rp;
         n \<leftarrow> load P s np;
         (upKey, n, rn) \<leftarrow> splitInternal c n (initInternal rn);
         let s = store P s rp rn;
         let s = store P s np n;
         (_, s) \<leftarrow> UnpinPage P s rpid True;
         Some (Inr (Split upKey rpid), s)
       }
   }"

partial_function (option) insertInto :: "'s pager \<Rightarrow> node_caps \<Rightarrow> int64 \<Rightarrow> TID \<Rightarrow> PageID \<Rightarrow> 's \<Rightarrow>
    ((err + split option) \<times> 's) option" where
  "insertInto P c key tid pid s = do {
     (r, s) \<leftarrow> FetchPage P s pid;
     case r of
       Inl e \<Rightarrow> Some (Inl (Wrap ''nbtree: fetch page'' e), s)
     | Inr p \<Rightarrow> do {
         n \<leftarrow> load P s p;
         if isLeaf n then do {
           (i, found) \<leftarrow> node_search n key;
           if found then do {
             (_, s) \<leftarrow> UnpinPage P s pid False;
             Some (Inl ErrDuplicateKey, s)
           }
           else do {
             n \<leftarrow> insertLeafAt c n i key tid;
             let s = store P s p n;
             if \<not> full c n then do {
               (_, s) \<leftarrow> UnpinPage P s pid True;
               Some (Inr None, s)
             }
             else do {
               (sp, s) \<leftarrow> splitLeafNode P c s p;
               (_, s) \<leftarrow> UnpinPage P s pid True;
               Some (map_sum id Some sp, s)
             }
           }
         }
         else do {
           ci \<leftarrow> childIndex n key;
           child \<leftarrow> childAt c n ci;
           (r, s) \<leftarrow> insertInto P c key tid child s;
           case r of
             Inl e \<Rightarrow> do {
               (_, s) \<leftarrow> UnpinPage P s pid False;
               Some (Inl e, s)
             }
           | Inr None \<Rightarrow> do {
               (_, s) \<leftarrow> UnpinPage P s pid False;
               Some (Inr None, s)
             }
           | Inr (Some childSplit) \<Rightarrow> do {
               n \<leftarrow> load P s p;
               n \<leftarrow> insertInternalAt c n ci (sepKey childSplit) (right childSplit);
               let s = store P s p n;
               if \<not> full c n then do {
                 (_, s) \<leftarrow> UnpinPage P s pid True;
                 Some (Inr None, s)
               }
               else do {
                 (sp, s) \<leftarrow> splitInternalNode P c s p;
                 (_, s) \<leftarrow> UnpinPage P s pid True;
                 Some (map_sum id Some sp, s)
               }
             }
         }
       }
   }"

definition Insert :: "'s pager \<Rightarrow> node_caps \<Rightarrow> 's \<Rightarrow> int64 \<Rightarrow> TID \<Rightarrow> ((err + unit) \<times> 's) option" where
  "Insert P c s key tid = do {
     (r, s) \<leftarrow> root P s;
     case r of
       Inl e \<Rightarrow> Some (Inl e, s)
     | Inr rootPID \<Rightarrow> do {
         (r, s) \<leftarrow> insertInto P c key tid rootPID s;
         case r of
           Inl e \<Rightarrow> Some (Inl e, s)
         | Inr None \<Rightarrow> Some (Inr (), s)
         | Inr (Some sp) \<Rightarrow> do {
             (r, s) \<leftarrow> NewPage P s;
             case r of
               Inl e \<Rightarrow> Some (Inl (Wrap ''nbtree: new root'' e), s)
             | Inr (p, pid) \<Rightarrow> do {
                 nr \<leftarrow> load P s p;
                 nr \<leftarrow> setKeyAt (initInternal nr) 0 (sepKey sp);
                 nr \<leftarrow> setChildAt c nr 0 rootPID;
                 nr \<leftarrow> setChildAt c nr 1 (right sp);
                 let s = store P s p (setKeyCount nr 1);
                 (_, s) \<leftarrow> UnpinPage P s pid True;
                 setRoot P s pid
               }
           }
       }
   }"

end
