(* ===== verification/BTree_Spec.thy ===== *)
theory BTree_Spec
  imports BTree_Node
begin

text \<open>
  The abstract B+ tree behind an index file. A tree names the page of every node, the entries of its
  leaves with their sibling links, and the separators of its internal nodes. \<open>aligned\<close> is the search
  tree invariant with the key band of a subtree and its height, so all leaves are at the same depth;
  \<open>linked\<close> is the sibling chain; \<open>stored\<close> says that the pages of a file hold the tree.

  The content of a tree is the list of its entries in leaf order. The lemmas here are the facts the
  operations need: a descent ends in the only leaf that may hold the key, and replacing one child by
  one or two trees keeps the invariant and changes the content only at that child.
\<close>

datatype bt = Leaf PageID "(int \<times> TID) list" PageID | Node PageID "int list" "bt list"

primrec pid_of :: "bt \<Rightarrow> PageID" where
  "pid_of (Leaf p es nx) = p"
| "pid_of (Node p ks ts) = p"

primrec leaves :: "bt \<Rightarrow> (PageID \<times> (int \<times> TID) list \<times> PageID) list" where
  "leaves (Leaf p es nx) = [(p, es, nx)]"
| "leaves (Node p ks ts) = concat (map leaves ts)"

primrec entries :: "bt \<Rightarrow> (int \<times> TID) list" where
  "entries (Leaf p es nx) = es"
| "entries (Node p ks ts) = concat (map entries ts)"

primrec pids :: "bt \<Rightarrow> PageID list" where
  "pids (Leaf p es nx) = [p]"
| "pids (Node p ks ts) = p # concat (map pids ts)"

text \<open>A list of things joined end to end: each leads from the end of the one before it to its own.\<close>

fun path :: "('b \<Rightarrow> 'a \<Rightarrow> 'b \<Rightarrow> bool) \<Rightarrow> 'b \<Rightarrow> 'a list \<Rightarrow> 'b list \<Rightarrow> bool" where
  "path Q lo [] [] \<longleftrightarrow> True"
| "path Q lo (t # ts) (u # us) \<longleftrightarrow> Q lo t u \<and> path Q u ts us"
| "path Q lo _ _ \<longleftrightarrow> False"

fun aligned :: "node_caps \<Rightarrow> nat \<Rightarrow> int \<Rightarrow> bt \<Rightarrow> int \<Rightarrow> bool" where
  "aligned c 0 lo t hi = (case t of
      Leaf p es nx \<Rightarrow> lo < hi \<and> length es < leafCap c \<and> sorted_wrt (<) (map fst es) \<and>
        (\<forall>k \<in> fst ` set es. lo \<le> k \<and> k < hi)
    | Node _ _ _ \<Rightarrow> False)"
| "aligned c (Suc h) lo t hi = (case t of
      Leaf _ _ _ \<Rightarrow> False
    | Node p ks ts \<Rightarrow> length ks < internalCap c \<and> path (aligned c h) lo ts (ks @ [hi]))"

fun linked :: "PageID \<Rightarrow> (PageID \<times> (int \<times> TID) list \<times> PageID) list \<Rightarrow> PageID \<Rightarrow> bool" where
  "linked p [] e \<longleftrightarrow> p = e"
| "linked p ((q, es, nx) # ls) e \<longleftrightarrow> p = q \<and> linked nx ls e"

fun stored :: "node_caps \<Rightarrow> page list \<Rightarrow> bt \<Rightarrow> bool" where
  "stored c ps (Leaf p es nx) \<longleftrightarrow> unat p < length ps \<and> leaf_page c (ps ! unat p) es nx"
| "stored c ps (Node p ks ts) \<longleftrightarrow> unat p < length ps \<and> inner_page c (ps ! unat p) ks (map pid_of ts) \<and>
     (\<forall>t \<in> set ts. stored c ps t)"

text \<open>Inserting an entry into a list ordered by key.\<close>

definition ins_entry :: "int \<Rightarrow> TID \<Rightarrow> (int \<times> TID) list \<Rightarrow> (int \<times> TID) list" where
  "ins_entry k v es = filter (\<lambda>e. fst e < k) es @ (k, v) # filter (\<lambda>e. k < fst e) es"

subsection \<open>Paths\<close>

lemma path_length: "path Q lo ts us \<Longrightarrow> length ts = length us"
  by (induction Q lo ts us rule: path.induct) auto

lemma path_append:
  "length ts = length us \<Longrightarrow> path Q lo (ts @ ts') (us @ us') \<longleftrightarrow> path Q lo ts us \<and> path Q (last (lo # us)) ts' us'"
  by (induction Q lo ts us rule: path.induct) auto

lemma linked_append: "linked p (xs @ ys) e \<longleftrightarrow> (\<exists>m. linked p xs m \<and> linked m ys e)"
  by (induction p xs e rule: linked.induct) auto

subsection \<open>Bands\<close>

lemma path_less:
  assumes "path Q lo ts us" "\<And>a t b. Q a t b \<Longrightarrow> a < (b :: int)"
  shows "sorted_wrt (<) (lo # us)"
  using assms(1)
proof (induction Q\<equiv>Q lo ts us rule: path.induct)
  case (2 lo t ts u us)
  then have "lo < u" "sorted_wrt (<) (u # us)" using assms(2) by auto
  then show ?case by (auto dest: less_trans)
qed auto

lemma aligned_less: "aligned c h lo t hi \<Longrightarrow> lo < hi"
proof (induction h arbitrary: lo t hi)
  case (Suc h)
  then obtain p ks ts where "path (aligned c h) lo ts (ks @ [hi])" by (auto split: bt.splits)
  from path_less[of "aligned c h", OF this Suc.IH] show ?case by simp
qed (auto split: bt.splits)

lemma path_seps: "path (aligned c h) lo ts us \<Longrightarrow> sorted_wrt (<) (lo # us)"
  by (rule path_less[where Q = "aligned c h"]) (auto intro: aligned_less)

lemma path_band:
  assumes "path Q lo ts us" "\<And>a t b. Q a t b \<Longrightarrow> k \<in> fst ` set (entries t) \<Longrightarrow> a \<le> k \<and> k < (b :: int)"
    "\<And>a t b. Q a t b \<Longrightarrow> a < b" "t \<in> set ts" "k \<in> fst ` set (entries t)"
  shows "lo \<le> k \<and> k < last (lo # us)"
  using assms(1,4)
proof (induction Q\<equiv>Q lo ts us rule: path.induct)
  case (2 lo t' ts u us)
  have lu: "lo < u" "u \<le> last (u # us)"
    using 2 assms(3) path_less[of Q u ts us, OF _ assms(3)] by (auto simp: last_in_set less_imp_le)
  show ?case
  proof (cases "t = t'")
    case True
    then have "lo \<le> k \<and> k < u" using 2 assms(2)[of lo t' u] assms(5) by simp
    then show ?thesis using lu by simp
  next
    case False
    then have "u \<le> k \<and> k < last (u # us)" using 2 by simp
    then show ?thesis using lu by simp
  qed
qed auto

lemma aligned_band: "aligned c h lo t hi \<Longrightarrow> k \<in> fst ` set (entries t) \<Longrightarrow> lo \<le> k \<and> k < hi"
proof (induction h arbitrary: lo t hi)
  case (Suc h)
  then obtain p ks ts where t: "t = Node p ks ts" "path (aligned c h) lo ts (ks @ [hi])" by (auto split: bt.splits)
  then obtain t' where "t' \<in> set ts" "k \<in> fst ` set (entries t')" using Suc.prems(2) by auto
  then show ?case using path_band[of "aligned c h", OF t(2) Suc.IH aligned_less] by simp
qed (auto split: bt.splits)

lemma path_entries_band:
  assumes "path (aligned c h) lo ts us" "k \<in> fst ` set (concat (map entries ts))"
  shows "lo \<le> k \<and> k < last (lo # us)"
proof -
  obtain t where "t \<in> set ts" "k \<in> fst ` set (entries t)" using assms(2) by auto
  then show ?thesis using path_band[of "aligned c h", OF assms(1) aligned_band aligned_less] by simp
qed

lemma path_sorted:
  assumes "path (aligned c h) lo ts us" "\<And>a t b. aligned c h a t b \<Longrightarrow> sorted_wrt (<) (map fst (entries t))"
  shows "sorted_wrt (<) (map fst (concat (map entries ts)))"
  using assms(1)
proof (induction "aligned c h" lo ts us rule: path.induct)
  case (2 lo t ts u us)
  have "a < b" if "a \<in> fst ` set (entries t)" "b \<in> fst ` set (concat (map entries ts))" for a b
    using aligned_band[of c h lo t u a] path_entries_band[of c h u ts us b] 2(2) that by fastforce
  then show ?case using 2 assms(2)[of lo t u] by (auto simp: sorted_wrt_append)
qed auto

lemma aligned_sorted: "aligned c h lo t hi \<Longrightarrow> sorted_wrt (<) (map fst (entries t))"
proof (induction h arbitrary: lo t hi)
  case (Suc h)
  then obtain p ks ts where "t = Node p ks ts" "path (aligned c h) lo ts (ks @ [hi])" by (auto split: bt.splits)
  then show ?case using path_sorted[OF _ Suc.IH] by simp
qed (auto split: bt.splits)

lemma path_widen:
  assumes "path Q lo ts (us @ [hi])" "\<And>a t. Q a t hi \<Longrightarrow> Q a t hi'"
  shows "path Q lo ts (us @ [hi'])"
  using assms(1)
proof (induction us arbitrary: lo ts)
  case Nil
  then show ?case using assms(2) by (cases ts) (auto elim: path.elims)
next
  case (Cons u us)
  then show ?case by (cases ts) auto
qed

lemma aligned_widen: "aligned c h lo t hi \<Longrightarrow> hi \<le> hi' \<Longrightarrow> aligned c h lo t hi'"
proof (induction h arbitrary: lo t hi)
  case (Suc h)
  then show ?case by (cases t) (auto intro: path_widen)
qed (fastforce split: bt.splits)

subsection \<open>Descending\<close>

lemma upto_key_split:
  assumes "sorted_wrt (<) (ks :: int list)"
  shows "\<forall>x \<in> set (take (upto_key k ks) ks). x \<le> k" "\<forall>x \<in> set (drop (upto_key k ks) ks). k < x"
proof -
  have n: "ks ! j \<le> k \<longleftrightarrow> j < upto_key k ks" if "j < length ks" for j
    using below_nth[OF assms that, of "k + 1"] by (simp add: upto_key_below zless_add1_eq order_le_less)
  show "\<forall>x \<in> set (take (upto_key k ks) ks). x \<le> k" using n by (auto simp: in_set_conv_nth)
  show "\<forall>x \<in> set (drop (upto_key k ks) ks). k < x"
    using n[of "upto_key k ks + _"] by (auto simp: in_set_conv_nth not_le[symmetric])
qed

text \<open>The child a descent chooses: it splits the children and separators around it.\<close>

lemma descend:
  assumes t: "aligned c (Suc h) lo (Node p ks ts) hi" and k: "lo \<le> k" "k < hi"
  obtains A t B ka u kb l where "ts = A @ t # B" "length A = upto_key k ks" "ks = ka @ butlast (u # kb)"
    "ks @ [hi] = ka @ u # kb" "length ka = length A" "l = last (lo # ka)" "l \<le> k" "k < u"
    "path (aligned c h) lo A ka" "aligned c h l t u" "path (aligned c h) u B kb" "last (u # kb) = hi"
proof -
  let ?i = "upto_key k ks"
  have path: "path (aligned c h) lo ts (ks @ [hi])" using t by simp
  have s: "sorted_wrt (<) (lo # ks @ [hi])" by (rule path_seps[OF path])
  then have ss: "sorted_wrt (<) ks" by (simp add: sorted_wrt_append)
  note sp = upto_key_split[OF ss, of k]
  have len: "length ts = Suc (length ks)" using path_length[OF path] by simp
  have i: "?i < length ts" using upto_key_le[of k ks] len by simp
  define ka where "ka = take ?i ks"
  obtain u kb where ukb: "drop ?i ks @ [hi] = u # kb" by (cases "drop ?i ks @ [hi]") auto
  define A t B where "A = take ?i ts" and "t = ts ! ?i" and "B = drop (Suc ?i) ts"
  have ts: "ts = A @ t # B" using id_take_nth_drop[OF i] by (simp add: A_def t_def B_def)
  have us: "ks @ [hi] = ka @ u # kb" using ukb by (metis append.assoc append_take_drop_id ka_def)
  have la: "length ka = length A" "length A = ?i" using upto_key_le[of k ks] len by (simp_all add: ka_def A_def)
  have parts: "path (aligned c h) lo A ka" "aligned c h (last (lo # ka)) t u" "path (aligned c h) u B kb"
    using path path_append[of A ka "aligned c h" lo "t # B" "u # kb"] la(1) by (simp_all add: ts us)
  have "last (lo # ka) \<le> k"
    using sp(1) k(1) by (cases "ka = []") (auto simp: ka_def last_in_set)
  moreover have "k < u" using sp(2) k(2) ukb by (cases "drop ?i ks") auto
  moreover have "last (u # kb) = hi" using ukb by (metis last_snoc)
  moreover have "ks = ka @ butlast (u # kb)" using ukb by (metis append_take_drop_id butlast_snoc ka_def)
  ultimately show thesis using that[OF ts la(2) _ us la(1) refl] parts by blast
qed

lemma map_of_outside: "k \<notin> fst ` set es \<Longrightarrow> map_of es k = None"
  by (simp add: map_of_eq_None_iff)

lemma map_of_middle:
  "k \<notin> fst ` set A \<Longrightarrow> k \<notin> fst ` set B \<Longrightarrow> map_of (A @ es @ B) k = map_of es k"
  by (cases "map_of es k") (auto simp: map_add_def map_of_outside)

lemma descend_keys:
  assumes "path (aligned c h) lo A ka" "path (aligned c h) u B kb" "last (lo # ka) \<le> k" "k < u"
  shows "\<And>x. x \<in> fst ` set (concat (map entries A)) \<Longrightarrow> x < k"
    "\<And>x. x \<in> fst ` set (concat (map entries B)) \<Longrightarrow> k < x"
  using path_entries_band[OF assms(1)] path_entries_band[OF assms(2)] assms(3,4) by fastforce+

lemma ins_entry_middle:
  assumes "\<And>x. x \<in> fst ` set A \<Longrightarrow> x < k" "\<And>x. x \<in> fst ` set B \<Longrightarrow> k < x"
  shows "ins_entry k v (A @ es @ B) = A @ ins_entry k v es @ B"
proof -
  have "filter (\<lambda>e. fst e < k) A = A" "filter (\<lambda>e. k < fst e) A = []"
    "filter (\<lambda>e. fst e < k) B = []" "filter (\<lambda>e. k < fst e) B = B"
    using assms by (fastforce simp: filter_id_conv filter_empty_conv)+
  then show ?thesis by (simp add: ins_entry_def)
qed

text \<open>In a leaf, the insertion point of the code is the place of the entry.\<close>

lemma ins_entry_leaf:
  assumes s: "sorted_wrt (<) (map fst es)" and k: "k \<notin> fst ` set es" and i: "i = below k (map fst es)"
  shows "take i es @ (k, v) # drop i es = ins_entry k v es"
proof -
  have n: "fst (es ! j) < k \<longleftrightarrow> j < i" if "j < length es" for j
    using below_nth[OF s, of j k] that i by simp
  have le: "i \<le> length es" using below_le[of k "map fst es"] i by simp
  have "filter (\<lambda>e. fst e < k) es = take i es" "filter (\<lambda>e. \<not> fst e < k) es = drop i es"
    by (rule split_at_filter; use n le in auto)+
  moreover have "filter (\<lambda>e. \<not> fst e < k) es = filter (\<lambda>e. k < fst e) es"
    using k by (intro filter_cong) (auto simp: not_less le_less)
  ultimately show ?thesis by (simp add: ins_entry_def)
qed

lemma ins_entry_map_of: "k \<notin> fst ` set es \<Longrightarrow> map_of (ins_entry k v es) = (map_of es)(k \<mapsto> v)"
proof
  fix x assume k: "k \<notin> fst ` set es"
  have f: "map_of (filter (\<lambda>e. P (fst e)) es) x = (if P x then map_of es x else None)" for P
    by (induction es) auto
  show "map_of (ins_entry k v es) x = ((map_of es)(k \<mapsto> v)) x"
    using f[of "\<lambda>x. x < k"] f[of "\<lambda>x. k < x"]
    by (cases x k rule: linorder_cases) (auto simp: ins_entry_def map_add_def split: option.splits)
qed

lemma set_ins_entry: "k \<notin> fst ` set es \<Longrightarrow> set (ins_entry k v es) = insert (k, v) (set es)"
  by (force simp: ins_entry_def not_less le_less)

subsection \<open>Pages a change may touch\<close>

definition touched :: "page list \<Rightarrow> page list \<Rightarrow> PageID list \<Rightarrow> bool" where
  "touched ps ps' old \<longleftrightarrow> length ps \<le> length ps' \<and> (\<forall>i < length ps. i \<notin> unat ` set old \<longrightarrow> ps' ! i = ps ! i)"

lemma touched_refl [simp]: "touched ps ps old"
  by (simp add: touched_def)

lemma touched_trans: "touched ps ps' old \<Longrightarrow> touched ps' ps'' old' \<Longrightarrow> touched ps ps'' (old @ old')"
  by (auto simp: touched_def image_Un)

lemma touched_mono: "touched ps ps' old \<Longrightarrow> set old \<subseteq> set old' \<Longrightarrow> touched ps ps' old'"
  by (auto simp: touched_def)

lemma touched_update: "touched ps (ps[unat p := b]) [p]"
  by (auto simp: touched_def)

lemma touched_append: "touched ps (ps @ bs) []"
  by (auto simp: touched_def nth_append)

lemma stored_cong:
  "stored c ps t \<Longrightarrow> (\<And>q. q \<in> set (pids t) \<Longrightarrow> unat q < length ps' \<and> ps' ! unat q = ps ! unat q) \<Longrightarrow> stored c ps' t"
  by (induction c ps t rule: stored.induct) auto

lemma stored_bound: "stored c ps t \<Longrightarrow> q \<in> set (pids t) \<Longrightarrow> unat q < length ps"
  by (induction c ps t rule: stored.induct) auto

lemma stored_touched:
  assumes "stored c ps t" "touched ps ps' old" "set (pids t) \<inter> set old = {}"
  shows "stored c ps' t"
proof (rule stored_cong[OF assms(1)])
  fix q assume q: "q \<in> set (pids t)"
  then have "unat q \<notin> unat ` set old" using assms(3) by (auto dest!: unsigned_word_eqI)
  then show "unat q < length ps' \<and> ps' ! unat q = ps ! unat q"
    using assms(2) stored_bound[OF assms(1) q] by (simp add: touched_def)
qed

lemma pid_of_pids: "pid_of t \<in> set (pids t)"
  by (cases t) auto

subsection \<open>Regrown subtrees\<close>

text \<open>The outcome of an insertion below: the trees \<open>ts\<close> with the upper bounds \<open>us\<close> of their bands take the
  place of a tree or forest that had the pages \<open>old\<close> and the leaves \<open>ls\<close>. They hold the entries \<open>es\<close>,
  use old pages and pages the file has gained, and continue the sibling chain.\<close>

definition regrown :: "node_caps \<Rightarrow> page list \<Rightarrow> page list \<Rightarrow> nat \<Rightarrow> int \<Rightarrow> int \<Rightarrow> PageID list \<Rightarrow>
    (PageID \<times> (int \<times> TID) list \<times> PageID) list \<Rightarrow> (int \<times> TID) list \<Rightarrow> bt list \<Rightarrow> int list \<Rightarrow> bool" where
  "regrown c ps ps' h lo hi old ls es ts us \<longleftrightarrow>
     path (aligned c h) lo ts us \<and> last (lo # us) = hi \<and> (\<forall>t \<in> set ts. stored c ps' t) \<and>
     concat (map entries ts) = es \<and> distinct (concat (map pids ts)) \<and>
     (\<forall>q \<in> set (concat (map pids ts)). q \<in> set old \<or> length ps \<le> unat q) \<and>
     (\<forall>p e. linked p ls e \<longrightarrow> linked p (concat (map leaves ts)) e)"

lemma regrown_child:
  assumes r: "regrown c ps ps' h l u (pids t) (leaves t) (ins_entry k v (entries t)) ts' us'"
    and tc: "touched ps ps' (pids t)"
    and A: "path (aligned c h) lo A ka" "l = last (lo # ka)" "l \<le> k" "k < u"
    and B: "path (aligned c h) u B kb" "last (u # kb) = hi"
    and st: "\<forall>t \<in> set (A @ B). stored c ps t" and d: "distinct (concat (map pids (A @ t # B)))"
  shows "regrown c ps ps' h lo hi (concat (map pids (A @ t # B))) (concat (map leaves (A @ t # B)))
    (ins_entry k v (concat (map entries (A @ t # B)))) (A @ ts' @ B) (ka @ us' @ kb)"
proof -
  have p: "path (aligned c h) l ts' us'" and lu: "last (l # us') = u" and d': "distinct (concat (map pids ts'))"
    and sub: "\<And>q. q \<in> set (concat (map pids ts')) \<Longrightarrow> q \<in> set (pids t) \<or> length ps \<le> unat q"
    and en: "concat (map entries ts') = ins_entry k v (entries t)"
    and lk: "\<And>p e. linked p (leaves t) e \<Longrightarrow> linked p (concat (map leaves ts')) e"
    using r by (auto simp: regrown_def)
  have bound: "unat q < length ps" if "q \<in> set (concat (map pids (A @ B)))" for q
    using that st stored_bound by fastforce
  have disj: "set (concat (map pids (A @ B))) \<inter> set (pids t) = {}" using d by auto
  have "path (aligned c h) lo (A @ ts' @ B) (ka @ us' @ kb)"
  proof -
    have "path (aligned c h) (last (lo # ka)) (ts' @ B) (us' @ kb)"
      using p B(1) lu path_length[OF p] path_append[of ts' us' "aligned c h" l B kb] A(2) by simp
    then show ?thesis using A(1) path_append[OF path_length[OF A(1)], of "aligned c h" lo "ts' @ B" "us' @ kb"] by simp
  qed
  moreover have "last (lo # ka @ us' @ kb) = hi"
    using B(2) lu A(2) by (auto split: if_splits)
  moreover have "stored c ps' t'" if "t' \<in> set (A @ ts' @ B)" for t'
  proof (cases "t' \<in> set ts'")
    case False
    then have "t' \<in> set (A @ B)" using that by auto
    then show ?thesis using st disj by (intro stored_touched[OF _ tc]) fastforce+
  qed (use r in \<open>simp add: regrown_def\<close>)
  moreover have "concat (map entries (A @ ts' @ B)) = ins_entry k v (concat (map entries (A @ t # B)))"
    using ins_entry_middle[of "concat (map entries A)" k "concat (map entries B)" v "entries t"]
      descend_keys[OF A(1) B(1)] A(2-4) en by simp
  moreover have "set (concat (map pids ts')) \<inter> set (concat (map pids (A @ B))) = {}"
    using sub bound disj by fastforce
  then have "distinct (concat (map pids (A @ ts' @ B)))" using d d' by auto
  moreover have "linked p (concat (map leaves (A @ ts' @ B))) e" if "linked p (concat (map leaves (A @ t # B))) e" for p e
    using that lk by (auto simp: linked_append)
  moreover have "q \<in> set (concat (map pids (A @ t # B))) \<or> length ps \<le> unat q" if "q \<in> set (concat (map pids (A @ ts' @ B)))" for q
    using that sub[of q] by auto
  ultimately show ?thesis unfolding regrown_def by blast
qed

lemma regrown_touch:
  assumes "regrown c ps ps' h lo hi old ls es ts us" "touched ps' ps'' new"
    "set (concat (map pids ts)) \<inter> set new = {}"
  shows "regrown c ps ps'' h lo hi old ls es ts us"
proof -
  have "stored c ps'' t" if "t \<in> set ts" for t
    using that assms by (intro stored_touched[OF _ assms(2)]) (auto simp: regrown_def)
  then show ?thesis using assms(1) by (auto simp: regrown_def)
qed

lemma regrown_node:
  assumes "regrown c ps ps' h lo hi old ls es ts (ks @ [hi])" "p \<notin> set (concat (map pids ts))"
    "unat p < length ps'" "inner_page c (ps' ! unat p) ks (map pid_of ts)" "length ks < internalCap c"
  shows "regrown c ps ps' (Suc h) lo hi (p # old) ls es [Node p ks ts] [hi]"
  using assms by (auto simp: regrown_def)

lemma regrown_split:
  assumes r: "regrown c ps ps' h lo hi old ls es ts (ks @ [hi])" and m: "m < length ks" "length ks \<le> internalCap c"
    and p: "p \<notin> set (concat (map pids ts))" "unat p < length ps'"
    and q: "q \<notin> set (concat (map pids ts))" "unat q < length ps'" "length ps \<le> unat q" "q \<noteq> p"
    and pages: "inner_page c (ps' ! unat p) (take m ks) (take (Suc m) (map pid_of ts))"
      "inner_page c (ps' ! unat q) (drop (Suc m) ks) (drop (Suc m) (map pid_of ts))"
  shows "regrown c ps ps' (Suc h) lo hi (p # old) ls es
    [Node p (take m ks) (take (Suc m) ts), Node q (drop (Suc m) ks) (drop (Suc m) ts)] [ks ! m, hi]"
proof -
  have path: "path (aligned c h) lo ts (ks @ [hi])" using r by (simp add: regrown_def)
  have len: "length ts = Suc (length ks)" using path_length[OF path] by simp
  have ks: "ks @ [hi] = (take m ks @ [ks ! m]) @ (drop (Suc m) ks @ [hi])"
    using id_take_nth_drop[OF m(1)] by simp
  have halves: "path (aligned c h) lo (take (Suc m) ts) (take m ks @ [ks ! m])"
    "path (aligned c h) (ks ! m) (drop (Suc m) ts) (drop (Suc m) ks @ [hi])"
    using path path_append[of "take (Suc m) ts" "take m ks @ [ks ! m]" "aligned c h" lo "drop (Suc m) ts" "drop (Suc m) ks @ [hi]"]
      m len by (simp_all add: ks[symmetric] min_def del: append_assoc)
  have cc: "concat (map f (take (Suc m) ts)) @ concat (map f (drop (Suc m) ts)) = concat (map f ts)" for f :: "bt \<Rightarrow> 'z list"
    by (metis append_take_drop_id concat_append map_append)
  have sub: "set (take (Suc m) ts) \<subseteq> set ts" "set (drop (Suc m) ts) \<subseteq> set ts"
    by (auto dest: in_set_takeD in_set_dropD)
  have "distinct (concat (map pids (take (Suc m) ts)) @ concat (map pids (drop (Suc m) ts)))"
    using r unfolding cc by (simp add: regrown_def)
  moreover have "set (concat (map pids (take (Suc m) ts))) \<union> set (concat (map pids (drop (Suc m) ts))) = set (concat (map pids ts))"
    unfolding cc[of pids, symmetric] by simp
  ultimately show ?thesis
    using r m halves p q pages sub cc[of entries] cc[of leaves]
    by (auto simp: regrown_def take_map drop_map)
qed

lemma regrown_leaf:
  assumes "leaf_page c (ps' ! unat p) es nx" "unat p < length ps'" "aligned c 0 lo (Leaf p es nx) hi"
  shows "regrown c ps ps' 0 lo hi [p] [(p, es', nx)] es [Leaf p es nx] [hi]"
  using assms by (auto simp: regrown_def)

lemma regrown_leaf_split:
  assumes es: "sorted_wrt (<) (map fst es)" "\<And>k. k \<in> fst ` set es \<Longrightarrow> lo \<le> k \<and> k < hi"
      "2 \<le> length es" "length es \<le> leafCap c" and m: "m = length es div 2"
    and p: "unat p < length ps'" "leaf_page c (ps' ! unat p) (take m es) q"
    and q: "unat q < length ps'" "length ps \<le> unat q" "q \<noteq> p" "leaf_page c (ps' ! unat q) (drop m es) nx"
  shows "regrown c ps ps' 0 lo hi [p] [(p, es', nx)] es [Leaf p (take m es) q, Leaf q (drop m es) nx] [fst (es ! m), hi]"
proof -
  have lt: "0 < m" "m < length es" using es(3) m by auto
  have mono: "fst (es ! i) < fst (es ! j)" if "i < j" "j < length es" for i j
    using sorted_wrt_nth_less[OF es(1), of i j] that by simp
  have band: "lo \<le> fst (es ! i) \<and> fst (es ! i) < hi" if "i < length es" for i
    using es(2) that by simp
  have "lo \<le> k \<and> k < fst (es ! m)" if k: "k \<in> fst ` set (take m es)" for k
  proof -
    obtain i where "i < m" "k = fst (es ! i)" using k lt by (auto simp: in_set_conv_nth)
    then show ?thesis using mono[of i m] band[of i] lt by auto
  qed
  moreover have "fst (es ! m) \<le> k \<and> k < hi" if k: "k \<in> fst ` set (drop m es)" for k
  proof -
    obtain i where "i < length (drop m es)" "k = fst (drop m es ! i)" using k by (metis imageE in_set_conv_nth)
    then have i: "m + i < length es" "k = fst (es ! (m + i))" by auto
    have "fst (es ! m) \<le> k" using mono[of m "m + i"] i by (cases i) auto
    then show ?thesis using band[of "m + i"] i by simp
  qed
  moreover have "lo < fst (es ! m)" "fst (es ! m) < hi" using mono[of 0 m] band[of 0] band[of m] lt by fastforce+
  moreover have "sorted_wrt (<) (map fst (take m es))" "sorted_wrt (<) (map fst (drop m es))"
    using es(1) by (simp_all add: sorted_wrt_take sorted_wrt_drop flip: take_map drop_map)
  ultimately show ?thesis using assms lt by (auto simp: regrown_def)
qed

subsection \<open>Leaves\<close>

lemma entries_leaves: "entries t = concat (map (\<lambda>(p, es, nx). es) (leaves t))"
proof (induction t)
  case (Node p ks ts)
  then have "concat (map entries ts) = concat (map (\<lambda>t. concat (map (\<lambda>(p, es, nx). es) (leaves t))) ts)"
    by (metis (mono_tags, lifting) map_cong)
  also have "\<dots> = concat (map (\<lambda>(p, es, nx). es) (concat (map leaves ts)))"
    by (induction ts) auto
  finally show ?case by simp
qed simp

lemma stored_leaves: "stored c ps t \<Longrightarrow> (p, es, nx) \<in> set (leaves t) \<Longrightarrow>
    unat p < length ps \<and> leaf_page c (ps ! unat p) es nx \<and> p \<in> set (pids t)"
  by (induction c ps t rule: stored.induct) fastforce+

end
