(* ===== verification/BTree_Search.thy ===== *)
theory BTree_Search
  imports BTree_Index BTree_Spec
begin

text \<open>
  The reading side of the B+ tree index: \<open>Search\<close> and \<open>Scan\<close> of \<open>BTree_Index\<close> over any pager that keeps
  the contract \<open>page_cache\<close>, against the abstract trees of \<open>BTree_Spec\<close>. The lemmas are proved once in
  the locale \<open>btree_index\<close>, which joins the pager's contract with that of the node capacities.
\<close>

locale btree_index = page_cache P view ptr ok calm room_of + btree_caps c
  for P :: "'s pager" and view :: "'s \<Rightarrow> 'r file_view" and ptr ok calm room_of and c :: node_caps

subsection \<open>The meta page\<close>

definition index_tree :: "node_caps \<Rightarrow> page list \<Rightarrow> nat \<Rightarrow> bt \<Rightarrow> bool" where
  "index_tree c ps h t \<longleftrightarrow> ps \<noteq> [] \<and> length (ps ! 0) = 8192 \<and> meta_magic (ps ! 0) = metaMagic \<and>
     meta_root (ps ! 0) = pid_of t \<and> aligned c h (- (2 ^ 63)) t (2 ^ 63) \<and> stored c ps t \<and>
     distinct (pids t) \<and> 0 \<notin> set (pids t) \<and> (\<exists>p. linked p (leaves t) invalidPID)"

text \<open>The map an index file of height \<open>h\<close> represents.\<close>

definition index_map :: "node_caps \<Rightarrow> page list \<Rightarrow> nat \<Rightarrow> (int64 \<rightharpoonup> TID) \<Rightarrow> bool" where
  "index_map c ps h m \<longleftrightarrow> (\<exists>t. index_tree c ps h t \<and> m = (\<lambda>k. map_of (entries t) (sint k)))"

lemma meta_fields:
  assumes "length m = 8192"
  shows "meta_root (meta_setRoot m p) = p" "meta_magic (meta_setRoot m p) = meta_magic m"
    "meta_magic (meta_setMagic m v) = v" "length (meta_setRoot m p) = 8192" "length (meta_setMagic m v) = 8192"
  using assms by (simp_all add: meta_root_def meta_setRoot_def meta_magic_def meta_setMagic_def layout_simps slice_simps)

lemma int64_band: "- (2 ^ 63) \<le> sint (k :: int64)" "sint (k :: int64) < 2 ^ 63"
  using sint_greater_eq[of k] sint_lt[of k] by simp_all

context page_cache
begin

lemma root_cases [consumes 2, case_names failed read]:
  assumes s: "ok s" and ne: "fpages (view s) \<noteq> []"
  obtains (failed) e s' where "root P s = Some (Inl e, s')" "ok s'" "view s' = view s" "\<not> (calm s \<and> 0 < room_of s)"
      "e \<noteq> ErrDuplicateKey"
  | (read) s' where "root P s = Some (Inr (meta_root (fpages (view s) ! 0)), s')" "ok s'" "view s' = view s"
      "room_of s' = room_of s" "calm s \<Longrightarrow> 0 < room_of s \<Longrightarrow> calm s'"
proof -
  have "unat metaPID < length (fpages (view s))" using ne by (simp add: metaPID_def)
  with s show thesis
  proof (cases rule: read_cases)
    case (failed e s')
    then show thesis using that(1) by (simp add: root_def ErrDuplicateKey_def)
  next
    case (served p s1 s2)
    then show thesis using that(2)[of s2] by (simp add: root_def metaPID_def)
  qed
qed

end

subsection \<open>Search\<close>

definition answer :: "(int \<times> TID) list \<Rightarrow> int \<Rightarrow> TID \<times> bool" where
  "answer es k = (case map_of es k of None \<Rightarrow> (TID 0 0, False) | Some tid \<Rightarrow> (tid, True))"

context btree_index
begin

lemma node_seps: "aligned c (Suc h) lo (Node p ks ts) hi \<Longrightarrow> sorted_wrt (<) ks"
  using path_seps[of c h lo ts "ks @ [hi]"] by (simp add: sorted_wrt_append)

lemma leaf_node:
  assumes "aligned c 0 lo t hi" "stored c ps t"
  obtains p es nx where "t = Leaf p es nx" "leaf_page c (ps ! unat p) es nx" "unat p < length ps"
    "sorted_wrt (<) (map fst es)" "length es < leafCap c" "\<And>k. k \<in> fst ` set es \<Longrightarrow> lo \<le> k \<and> k < hi" "lo < hi"
  using assms by (auto split: bt.splits)

lemma inner_node:
  assumes "aligned c (Suc h) lo t hi" "stored c ps t"
  obtains p ks ts where "t = Node p ks ts" "inner_page c (ps ! unat p) ks (map pid_of ts)" "unat p < length ps"
    "sorted_wrt (<) ks" "length ks < internalCap c" "path (aligned c h) lo ts (ks @ [hi])" "\<forall>t \<in> set ts. stored c ps t"
  using assms node_seps[of h lo _ _ _ hi] by (auto split: bt.splits)

text \<open>One step of a descent: the child index the node computes leads to the child of the key's band.\<close>

lemma descend_step:
  assumes t: "aligned c (Suc h) lo t hi" "stored c ps t" and k: "lo \<le> sint key" "sint key < hi"
  obtains p ks A t' B ka u kb l where "t = Node p ks (A @ t' # B)" "unat p < length ps"
    "inner_page c (ps ! unat p) ks (map pid_of (A @ t' # B))" "\<not> isLeaf (ps ! unat p)"
    "childIndex (ps ! unat p) key = Some (of_nat (length A))" "childAt c (ps ! unat p) (of_nat (length A)) = Some (pid_of t')"
    "ks = ka @ butlast (u # kb)" "ks @ [hi] = ka @ u # kb" "length ka = length A" "l = last (lo # ka)" "l \<le> sint key" "sint key < u"
    "path (aligned c h) lo A ka" "aligned c h l t' u" "path (aligned c h) u B kb" "last (u # kb) = hi"
    "stored c ps t'" "\<forall>t \<in> set (A @ B). stored c ps t" "length ks < internalCap c" "length A \<le> length ks"
proof -
  obtain p ks ts where n: "t = Node p ks ts" "inner_page c (ps ! unat p) ks (map pid_of ts)" "unat p < length ps"
    "sorted_wrt (<) ks" "length ks < internalCap c" "\<forall>t \<in> set ts. stored c ps t"
    by (rule inner_node[OF t]) blast
  obtain A t' B ka u kb l where d: "ts = A @ t' # B" "length A = upto_key (sint key) ks" "ks = ka @ butlast (u # kb)"
    "ks @ [hi] = ka @ u # kb" "length ka = length A" "l = last (lo # ka)" "l \<le> sint key" "sint key < u"
    "path (aligned c h) lo A ka" "aligned c h l t' u" "path (aligned c h) u B kb" "last (u # kb) = hi"
    by (rule descend[OF t(1)[unfolded n(1)] k]) blast
  have "map pid_of ts ! length A = pid_of t'" by (simp add: d(1) nth_append)
  then show thesis
    using that[of p ks A t' B ka u kb l] n d inner_index[OF n(2,4), of key] inner_pageD(2)[OF n(2)] upto_key_le[of "sint key" ks]
    by (simp add: d(2))
qed

lemma descend_entries:
  assumes "path (aligned c h) lo A ka" "l = last (lo # ka)" "l \<le> k" "k < u" "path (aligned c h) u B kb"
  shows "map_of (entries (Node p ks (A @ t # B))) k = map_of (entries t) k"
    "k \<in> fst ` set (entries (Node p ks (A @ t # B))) \<longleftrightarrow> k \<in> fst ` set (entries t)"
proof -
  have le: "last (lo # ka) \<le> k" using assms(2,3) by simp
  note dk = descend_keys[OF assms(1,5) le assms(4)]
  have "k \<notin> fst ` set (concat (map entries A))" "k \<notin> fst ` set (concat (map entries B))"
    using dk by blast+
  then show "map_of (entries (Node p ks (A @ t # B))) k = map_of (entries t) k"
    "k \<in> fst ` set (entries (Node p ks (A @ t # B))) \<longleftrightarrow> k \<in> fst ` set (entries t)"
    using map_of_middle[of k "concat (map entries A)" "concat (map entries B)" "entries t"] by auto
qed

lemma map_of_sorted_nth:
  "sorted_wrt (<) (map fst (es :: (int \<times> 'b) list)) \<Longrightarrow> i < length es \<Longrightarrow> map_of es (fst (es ! i)) = Some (snd (es ! i))"
  using strict_sorted_iff[of "map fst es"] by (intro map_of_is_SomeI) simp_all

lemma search_leaf:
  assumes l: "leaf_page c n es nx" "sorted_wrt (<) (map fst es)"
  obtains i found tid where "node_search n key = Some (i, found)"
    "(if found then tidAt c n i else Some (TID 0 0)) = Some tid" "(tid, found) = answer es (sint key)"
proof (cases "sint key \<in> fst ` set es")
  case True
  let ?i = "below (sint key) (map fst es)"
  have i: "?i < length es" "fst (es ! ?i) = sint key" using below_found[OF l(2), of "sint key"] True by auto
  then have "answer es (sint key) = (snd (es ! ?i), True)"
    using map_of_sorted_nth[OF l(2) i(1)] by (simp add: answer_def)
  then show thesis using that leaf_search[OF l, of key] leaf_tid[OF l(1) i(1)] True by simp
next
  case False
  then show thesis using that leaf_search[OF l, of key] map_of_outside[OF False] by (simp add: answer_def)
qed

lemma search_from_spec:
  assumes "ok s" "aligned c h lo t hi" "stored c (fpages (view s)) t" "lo \<le> sint key" "sint key < hi"
  shows "\<exists>r s'. search_from P c key (pid_of t) s = Some (r, s') \<and> ok s' \<and> view s' = view s \<and>
    (\<forall>x. r = Inr x \<longrightarrow> x = answer (entries t) (sint key)) \<and>
    (calm s \<and> 0 < room_of s \<longrightarrow> calm s' \<and> (\<exists>x. r = Inr x))"
  using assms
proof (induction h arbitrary: s t lo hi)
  case 0
  obtain p es nx where t: "t = Leaf p es nx" "leaf_page c (fpages (view s) ! unat p) es nx"
    "unat p < length (fpages (view s))" "sorted_wrt (<) (map fst es)" by (rule leaf_node[OF "0.prems"(2,3)]) blast
  from "0.prems"(1) t(3) show ?case
  proof (cases rule: read_cases)
    case (failed e s')
    then show ?thesis by (subst search_from.simps) (auto simp: t(1))
  next
    case (served q s1 s2)
    obtain i found tid where "node_search (fpages (view s) ! unat p) key = Some (i, found)"
      "(if found then tidAt c (fpages (view s) ! unat p) i else Some (TID 0 0)) = Some tid" "(tid, found) = answer es (sint key)"
      by (rule search_leaf[OF t(2,4)])
    then show ?thesis using served leaf_pageD(2)[OF t(2)] by (subst search_from.simps) (simp add: t(1))
  qed
next
  case (Suc h)
  obtain p ks A t' B ka u kb l where d: "t = Node p ks (A @ t' # B)" "unat p < length (fpages (view s))"
    "\<not> isLeaf (fpages (view s) ! unat p)" "childIndex (fpages (view s) ! unat p) key = Some (of_nat (length A))"
    "childAt c (fpages (view s) ! unat p) (of_nat (length A)) = Some (pid_of t')"
    "l = last (lo # ka)" "l \<le> sint key" "sint key < u"
    "path (aligned c h) lo A ka" "aligned c h l t' u" "path (aligned c h) u B kb" "stored c (fpages (view s)) t'"
    by (rule descend_step[OF Suc.prems(2-5)]) blast
  have same: "answer (entries t) (sint key) = answer (entries t') (sint key)"
    using descend_entries(1)[OF d(9,6,7,8,11)] by (simp add: answer_def d(1))
  from Suc.prems(1) d(2) show ?case
  proof (cases rule: read_cases)
    case (failed e s')
    then show ?thesis by (subst search_from.simps) (auto simp: d(1))
  next
    case (served q s1 s2)
    have "search_from P c key (pid_of t) s = search_from P c key (pid_of t') s2"
      using served d(3-5) by (subst search_from.simps) (simp add: d(1))
    then show ?thesis using Suc.IH[OF served(4) d(10) _ d(7,8)] d(12) served(5-7) same by auto
  qed
qed

lemma Search_spec:
  assumes s: "ok s" and i: "index_tree c (fpages (view s)) h t"
  shows "\<exists>r s'. Search P c s key = Some (r, s') \<and> ok s' \<and> view s' = view s \<and>
    (\<forall>x. r = Inr x \<longrightarrow> x = answer (entries t) (sint key)) \<and>
    (calm s \<and> 0 < room_of s \<longrightarrow> calm s' \<and> (\<exists>x. r = Inr x))"
proof -
  have "fpages (view s) \<noteq> []" using i by (simp add: index_tree_def)
  with s show ?thesis
  proof (cases rule: root_cases)
    case (failed e s')
    then show ?thesis by (auto simp: Search_def)
  next
    case (read s')
    then show ?thesis
      using i search_from_spec[OF read(2), of h "- (2 ^ 63)" t "2 ^ 63" key] int64_band[of key]
      by (auto simp: Search_def index_tree_def)
  qed
qed

end

subsection \<open>Scan\<close>

text \<open>The entries of a list as the callback sees them, up to the key \<open>hi\<close>.\<close>

definition upto_hi :: "int \<Rightarrow> (int \<times> TID) list \<Rightarrow> (int64 \<times> TID) list" where
  "upto_hi hi es = map (\<lambda>(k, tid). (word_of_int k, tid)) (filter (\<lambda>e. fst e \<le> hi) es)"

lemma upto_hi_simps [simp]:
  "upto_hi hi [] = []" "upto_hi hi (xs @ ys) = upto_hi hi xs @ upto_hi hi ys"
  "upto_hi hi (e # es) = (if fst e \<le> hi then (word_of_int (fst e), snd e) # upto_hi hi es else upto_hi hi es)"
  by (auto simp: upto_hi_def case_prod_beta)

lemma upto_hi_none: "(\<And>k. k \<in> fst ` set es \<Longrightarrow> hi < k) \<Longrightarrow> upto_hi hi es = []"
  by (force simp: upto_hi_def filter_empty_conv)

lemma visit_cases:
  obtains (stop) e acc' where "visit fn xs acc = (Inl e, acc')" | (finish) acc' where "visit fn xs acc = (Inr (), acc')"
  by (cases "visit fn xs acc"; cases "fst (visit fn xs acc)") auto

context btree_index
begin

lemma scanLeaf_spec:
  assumes l: "leaf_page c n es nx" "sorted_wrt (<) (map fst es)" and "i \<le> length es"
  shows "scanLeaf c n hi fn (of_nat i) acc = Some (case visit fn (upto_hi (sint hi) (drop i es)) acc of
      (Inl e, acc) \<Rightarrow> (Inl e, acc)
    | (Inr _, acc) \<Rightarrow> (Inr (\<exists>k \<in> fst ` set (drop i es). sint hi < k), acc))"
  using assms(3)
proof (induction "length es - i" arbitrary: i acc)
  case 0
  then have "\<not> (of_nat i :: u16) < keyCount n"
    using unat_of_nat_le[of i "keyCount n"] leaf_pageD(3)[OF l(1)] by (simp add: word_less_nat_alt)
  then show ?case using 0 by (subst scanLeaf.simps) simp
next
  case (Suc d)
  then have lt: "i < length es" by simp
  have u: "unat (of_nat i :: u16) = i" using unat_of_nat_le[of i "keyCount n"] leaf_pageD(3)[OF l(1)] lt by simp
  have iw: "(of_nat i :: u16) < keyCount n" using u lt leaf_pageD(3)[OF l(1)] by (simp add: word_less_nat_alt)
  obtain k where k: "keyAt n (of_nat i) = Some k" "sint k = fst (es ! i)" by (rule leaf_key[OF l(1) lt])
  then have kw: "word_of_int (fst (es ! i)) = k" by (simp flip: k(2))
  have dr: "drop i es = es ! i # drop (Suc i) es" using lt by (simp add: Cons_nth_drop_Suc)
  have IH: "scanLeaf c n hi fn (of_nat (Suc i)) acc = Some (case visit fn (upto_hi (sint hi) (drop (Suc i) es)) acc of
      (Inl e, acc) \<Rightarrow> (Inl e, acc)
    | (Inr _, acc) \<Rightarrow> (Inr (\<exists>k \<in> fst ` set (drop (Suc i) es). sint hi < k), acc))" for acc
    using Suc.hyps lt by (intro Suc.hyps(1)) auto
  show ?case
  proof (cases "fst (es ! i) \<le> sint hi")
    case True
    obtain r acc' where f: "fn k (snd (es ! i)) acc = (r, acc')" by fastforce
    show ?thesis
      using True f k iw kw leaf_tid[OF l(1) lt] IH[of acc']
      by (subst scanLeaf.simps) (cases r; auto simp: dr of_nat_Suc_word split: prod.splits sum.splits)
  next
    case False
    have "upto_hi (sint hi) (drop i es) = []"
    proof (rule upto_hi_none)
      fix k' assume "k' \<in> fst ` set (drop i es)"
      then obtain j where "i \<le> j" "j < length es" "k' = fst (es ! j)"
        by (auto simp: in_set_conv_nth) (metis le_add1 less_diff_conv add.commute fst_conv)
      then show "sint hi < k'" using sorted_wrt_nth_less[OF l(2), of i j] False lt by (cases "i = j") auto
    qed
    then show ?thesis using False k iw by (subst scanLeaf.simps) (auto simp: dr)
  qed
qed

end

lemma filter_from_key:
  assumes "sorted_wrt (<) (map fst es)"
  shows "filter (\<lambda>e. k \<le> fst e) es = drop (below k (map fst es)) es"
proof -
  have "fst (es ! j) < k \<longleftrightarrow> j < below k (map fst es)" if "j < length es" for j
    using below_nth[OF assms, of j k] that by simp
  then have "filter (\<lambda>e. \<not> fst e < k) es = drop (below k (map fst es)) es"
    by (intro split_at_filter(2)) (use below_le[of k "map fst es"] in auto)
  then show ?thesis by (simp add: not_less)
qed

text \<open>The leaf of a tree whose band contains the key: the leaves before it hold smaller keys only, those
  after it greater ones.\<close>

definition key_leaf :: "bt \<Rightarrow> int \<Rightarrow> PageID \<Rightarrow> bool" where
  "key_leaf t k p \<longleftrightarrow> (\<exists>L1 es nx L2. leaves t = L1 @ (p, es, nx) # L2 \<and>
     (\<forall>x \<in> fst ` set (concat (map (\<lambda>(p, es, nx). es) L1)). x < k) \<and>
     (\<forall>x \<in> fst ` set (concat (map (\<lambda>(p, es, nx). es) L2)). k < x))"

lemma concat_leaf_entries: "concat (map (\<lambda>(p, es, nx). es) (concat (map leaves ts))) = concat (map entries ts)"
  by (induction ts) (auto simp: entries_leaves)

lemma key_leaf_child:
  assumes "key_leaf t k p" and "\<And>x. x \<in> fst ` set (concat (map entries A)) \<Longrightarrow> x < k"
    and "\<And>x. x \<in> fst ` set (concat (map entries B)) \<Longrightarrow> k < x"
  shows "key_leaf (Node q ks (A @ t # B)) k p"
proof -
  obtain L1 es nx L2 where l: "leaves t = L1 @ (p, es, nx) # L2"
    "\<forall>x \<in> fst ` set (concat (map (\<lambda>(p, es, nx). es) L1)). x < k"
    "\<forall>x \<in> fst ` set (concat (map (\<lambda>(p, es, nx). es) L2)). k < x" using assms(1) unfolding key_leaf_def by blast
  have split: "set (concat (map f (xs @ ys))) = set (concat (map f xs)) \<union> set (concat (map f ys))"
    for f :: "'a \<Rightarrow> 'b list" and xs ys by simp
  show ?thesis unfolding key_leaf_def
  proof (intro exI conjI)
    show "leaves (Node q ks (A @ t # B)) = (concat (map leaves A) @ L1) @ (p, es, nx) # (L2 @ concat (map leaves B))"
      by (simp add: l(1))
    show "\<forall>x \<in> fst ` set (concat (map (\<lambda>(p, es, nx). es) (concat (map leaves A) @ L1))). x < k"
      unfolding split concat_leaf_entries image_Un using assms(2) l(2) by blast
    show "\<forall>x \<in> fst ` set (concat (map (\<lambda>(p, es, nx). es) (L2 @ concat (map leaves B)))). k < x"
      unfolding split concat_leaf_entries image_Un using assms(3) l(3) by blast
  qed
qed

text \<open>How a scan over the entries \<open>es\<close> may end: as the callback ends it, or with an I/O error.\<close>

definition scan_ends :: "bool \<Rightarrow> (int64 \<Rightarrow> TID \<Rightarrow> 'c \<Rightarrow> (err + unit) \<times> 'c) \<Rightarrow> int \<Rightarrow> (int \<times> TID) list \<Rightarrow> 'c \<Rightarrow>
    err + unit \<Rightarrow> 'c \<Rightarrow> bool" where
  "scan_ends io_ok fn hi es acc r acc' \<longleftrightarrow> (r, acc') = visit fn (upto_hi hi es) acc \<or> (\<not> io_ok \<and> (\<exists>e. r = Inl e))"

context btree_index
begin

lemma scan_leaf_step:
  assumes s: "ok s" and p: "p \<noteq> invalidPID" "unat p < length (fpages (view s))" "leaf_page c (fpages (view s) ! unat p) es nx"
    and so: "sorted_wrt (<) (map fst (es @ rest))" and i: "i = (if first then below (sint lo) (map fst es) else 0)"
    and IH: "\<And>s' acc. ok s' \<Longrightarrow> view s' = view s \<Longrightarrow> \<exists>r s2 acc'.
      scan_from P c lo hi fn False nx s' acc = Some (r, s2, acc') \<and> ok s2 \<and> view s2 = view s \<and>
      scan_ends (calm s' \<and> 0 < room_of s') fn (sint hi) rest acc r acc' \<and> (calm s' \<and> 0 < room_of s' \<longrightarrow> calm s2)"
  shows "\<exists>r s2 acc'. scan_from P c lo hi fn first p s acc = Some (r, s2, acc') \<and> ok s2 \<and> view s2 = view s \<and>
      scan_ends (calm s \<and> 0 < room_of s) fn (sint hi) (drop i es @ rest) acc r acc' \<and> (calm s \<and> 0 < room_of s \<longrightarrow> calm s2)"
  using s p(2)
proof (cases rule: read_cases)
  case (failed e s')
  then show ?thesis using p(1) by (subst scan_from.simps) (auto simp: scan_ends_def)
next
  case (served q s1 s2)
  let ?n = "fpages (view s) ! unat p"
  have so': "sorted_wrt (<) (map fst es)" using so by (simp add: sorted_wrt_append)
  have start: "(if first then map_option fst (node_search ?n lo) else Some 0) = Some (of_nat i)"
    using leaf_search[OF p(3) so', of lo] i by simp
  have le: "i \<le> length es" using below_le[of "sint lo" "map fst es"] i by simp
  note sl = scanLeaf_spec[OF p(3) so' le, of hi fn acc]
  have nx: "nextLeaf ?n = nx" by (rule leaf_pageD(5)[OF p(3)])
  have step: "scan_from P c lo hi fn first p s acc = do {
      (r, acc) \<leftarrow> scanLeaf c ?n hi fn (of_nat i) acc;
      case r of
        Inl e \<Rightarrow> Some (Inl e, s2, acc)
      | Inr done \<Rightarrow> if done then Some (Inr (), s2, acc) else scan_from P c lo hi fn False (nextLeaf ?n) s2 acc }"
    using served(1-3) p(1) by (subst scan_from.simps) (simp add: start)
  show ?thesis
  proof (cases rule: visit_cases[of fn "upto_hi (sint hi) (drop i es)" acc])
    case (stop e acc1)
    then show ?thesis using sl served(4,5,7) by (auto simp: step nx scan_ends_def visit_append)
  next
    case (finish acc1)
    show ?thesis
    proof (cases "\<exists>k \<in> fst ` set (drop i es). sint hi < k")
      case True
      then obtain k where k: "k \<in> fst ` set es" "sint hi < k" by (auto dest: in_set_dropD)
      have "upto_hi (sint hi) rest = []"
        using so k by (intro upto_hi_none) (auto simp: sorted_wrt_append intro: less_trans)
      then show ?thesis using True sl finish served(4,5,7) by (auto simp: step nx scan_ends_def)
    next
      case False
      obtain r s3 acc' where "scan_from P c lo hi fn False nx s2 acc1 = Some (r, s3, acc')" "ok s3" "view s3 = view s"
        "scan_ends (calm s2 \<and> 0 < room_of s2) fn (sint hi) rest acc1 r acc'" "calm s2 \<and> 0 < room_of s2 \<longrightarrow> calm s3"
        using IH[OF served(4,5), of acc1] by blast
      then show ?thesis using False sl finish served(6,7) by (auto simp: step nx scan_ends_def visit_append)
    qed
  qed
qed

lemma scan_from_spec:
  assumes "ok s" "linked pid ls invalidPID" "sorted_wrt (<) (map fst (concat (map (\<lambda>(p, es, nx). es) ls)))"
    and "\<And>p es nx. (p, es, nx) \<in> set ls \<Longrightarrow> p \<noteq> invalidPID \<and> unat p < length (fpages (view s)) \<and>
      leaf_page c (fpages (view s) ! unat p) es nx"
  shows "\<exists>r s2 acc'. scan_from P c lo hi fn False pid s acc = Some (r, s2, acc') \<and> ok s2 \<and> view s2 = view s \<and>
      scan_ends (calm s \<and> 0 < room_of s) fn (sint hi) (concat (map (\<lambda>(p, es, nx). es) ls)) acc r acc' \<and>
      (calm s \<and> 0 < room_of s \<longrightarrow> calm s2)"
  using assms
proof (induction ls arbitrary: pid s acc)
  case Nil
  then show ?case by (subst scan_from.simps) (auto simp: scan_ends_def)
next
  case (Cons x ls)
  obtain p es nx where x: "x = (p, es, nx)" by (cases x) auto
  let ?rest = "concat (map (\<lambda>(p, es, nx). es) ls)"
  have pid: "pid = p" "linked nx ls invalidPID" using Cons.prems(2) by (auto simp: x)
  have p: "p \<noteq> invalidPID" "unat p < length (fpages (view s))" "leaf_page c (fpages (view s) ! unat p) es nx"
    using Cons.prems(4)[of p es nx] by (auto simp: x)
  have so: "sorted_wrt (<) (map fst (es @ ?rest))" using Cons.prems(3) by (simp add: x)
  have "\<exists>r s2 acc'. scan_from P c lo hi fn False p s acc = Some (r, s2, acc') \<and> ok s2 \<and> view s2 = view s \<and>
      scan_ends (calm s \<and> 0 < room_of s) fn (sint hi) (drop 0 es @ ?rest) acc r acc' \<and> (calm s \<and> 0 < room_of s \<longrightarrow> calm s2)"
  proof (rule scan_leaf_step[OF Cons.prems(1) p so])
    fix s' acc assume s': "ok s'" "view s' = view s"
    have so2: "sorted_wrt (<) (map fst ?rest)" using so by (simp add: sorted_wrt_append)
    have pages: "\<And>p es nx. (p, es, nx) \<in> set ls \<Longrightarrow> p \<noteq> invalidPID \<and> unat p < length (fpages (view s')) \<and>
        leaf_page c (fpages (view s') ! unat p) es nx" unfolding s'(2) by (rule Cons.prems(4)) simp
    show "\<exists>r s2 acc'. scan_from P c lo hi fn False nx s' acc = Some (r, s2, acc') \<and> ok s2 \<and> view s2 = view s \<and>
      scan_ends (calm s' \<and> 0 < room_of s') fn (sint hi) ?rest acc r acc' \<and> (calm s' \<and> 0 < room_of s' \<longrightarrow> calm s2)"
      using Cons.IH[OF s'(1) pid(2) so2 pages, of acc] s'(2) by simp
  qed simp
  then show ?case by (simp add: x pid(1))
qed

lemma find_from_spec:
  assumes "ok s" "aligned c h l t u" "stored c (fpages (view s)) t" "l \<le> sint key" "sint key < u"
  shows "\<exists>r s'. find_from P c key (pid_of t) s = Some (r, s') \<and> ok s' \<and> view s' = view s \<and> room_of s' = room_of s \<and>
    (\<forall>p. r = Inr p \<longrightarrow> key_leaf t (sint key) p) \<and> (calm s \<and> 0 < room_of s \<longrightarrow> calm s' \<and> (\<exists>p. r = Inr p))"
  using assms
proof (induction h arbitrary: s t l u)
  case 0
  obtain p es nx where t: "t = Leaf p es nx" "leaf_page c (fpages (view s) ! unat p) es nx"
    "unat p < length (fpages (view s))" by (rule leaf_node[OF "0.prems"(2,3)]) blast
  from "0.prems"(1) t(3) show ?case
  proof (cases rule: read_cases)
    case (failed e s')
    then show ?thesis using room_same[OF "0.prems"(1), of s' "fpages (view s)"]
      by (subst find_from.simps) (auto simp: t(1))
  next
    case (served q s1 s2)
    have "leaves t = [] @ (p, es, nx) # []" by (simp add: t(1))
    then have "key_leaf t (sint key) p" unfolding key_leaf_def by fastforce
    moreover have "find_from P c key (pid_of t) s = Some (Inr p, s2)"
      using served leaf_pageD(2)[OF t(2)] by (subst find_from.simps) (simp add: t(1))
    ultimately show ?thesis using served(4-7) by auto
  qed
next
  case (Suc h)
  obtain p ks A t' B ka v kb m where d: "t = Node p ks (A @ t' # B)" "unat p < length (fpages (view s))"
    "\<not> isLeaf (fpages (view s) ! unat p)" "childIndex (fpages (view s) ! unat p) key = Some (of_nat (length A))"
    "childAt c (fpages (view s) ! unat p) (of_nat (length A)) = Some (pid_of t')"
    "m = last (l # ka)" "m \<le> sint key" "sint key < v"
    "path (aligned c h) l A ka" "aligned c h m t' v" "path (aligned c h) v B kb" "stored c (fpages (view s)) t'"
    by (rule descend_step[OF Suc.prems(2-5)]) blast
  have le: "last (l # ka) \<le> sint key" using d(6,7) by simp
  note keys = descend_keys[OF d(9,11) le d(8)]
  from Suc.prems(1) d(2) show ?case
  proof (cases rule: read_cases)
    case (failed e s')
    then show ?thesis using room_same[OF Suc.prems(1), of s' "fpages (view s)"]
      by (subst find_from.simps) (auto simp: d(1))
  next
    case (served q s1 s2)
    have step: "find_from P c key (pid_of t) s = find_from P c key (pid_of t') s2"
      using served d(3-5) by (subst find_from.simps) (simp add: d(1))
    have st: "stored c (fpages (view s2)) t'" using d(12) served(5) by simp
    have "key_leaf t' (sint key) q \<longrightarrow> key_leaf t (sint key) q" for q
      using key_leaf_child[of t' "sint key" q A B p ks] keys unfolding d(1) by blast
    then show ?thesis using Suc.IH[OF served(4) d(10) st d(7,8)] served(5-7) step by auto
  qed
qed

text \<open>The scan from the leaf whose band contains \<open>lo\<close> on.\<close>

lemma scan_from_leaf:
  assumes s: "ok s" and st: "stored c (fpages (view s)) t" "0 \<notin> set (pids t)" and lk: "linked p0 (leaves t) invalidPID"
    and so: "sorted_wrt (<) (map fst (entries t))" and kl: "key_leaf t (sint lo) p"
  shows "\<exists>r s' acc'. scan_from P c lo hi fn True p s acc = Some (r, s', acc') \<and> ok s' \<and> view s' = view s \<and>
    scan_ends (calm s \<and> 0 < room_of s) fn (sint hi) (filter (\<lambda>e. sint lo \<le> fst e) (entries t)) acc r acc'"
proof -
  let ?es = "\<lambda>L. concat (map (\<lambda>(p, es, nx). es) L)"
  obtain L1 es nx L2 where l: "leaves t = L1 @ (p, es, nx) # L2"
    "\<forall>x \<in> fst ` set (?es L1). x < sint lo" "\<forall>x \<in> fst ` set (?es L2). sint lo < x" using kl unfolding key_leaf_def by blast
  have pages: "q \<noteq> invalidPID \<and> unat q < length (fpages (view s)) \<and> leaf_page c (fpages (view s) ! unat q) es' nx'"
    if "(q, es', nx') \<in> set (leaves t)" for q es' nx'
    using stored_leaves[OF st(1) that] st(2) by (auto simp: invalidPID_def)
  have p: "p \<noteq> invalidPID" "unat p < length (fpages (view s))" "leaf_page c (fpages (view s) ! unat p) es nx"
    using pages[of p es nx] by (auto simp: l(1))
  have so2: "sorted_wrt (<) (map fst (es @ ?es L2))" "sorted_wrt (<) (map fst es)"
    using so unfolding entries_leaves[of t] by (auto simp: l(1) sorted_wrt_append)
  have lk2: "linked nx L2 invalidPID" using lk by (auto simp: l(1) linked_append)
  let ?i = "below (sint lo) (map fst es)"
  have vis: "filter (\<lambda>e. sint lo \<le> fst e) (entries t) = drop ?i es @ ?es L2"
    using filter_from_key[OF so2(2), of "sint lo"] l(2,3) unfolding entries_leaves[of t] l(1)
    by (fastforce simp: filter_empty_conv filter_id_conv not_le less_imp_le)
  have "\<exists>r s3 acc'. scan_from P c lo hi fn True p s acc = Some (r, s3, acc') \<and> ok s3 \<and> view s3 = view s \<and>
    scan_ends (calm s \<and> 0 < room_of s) fn (sint hi) (drop ?i es @ ?es L2) acc r acc' \<and> (calm s \<and> 0 < room_of s \<longrightarrow> calm s3)"
  proof (rule scan_leaf_step[OF s p so2(1)])
    fix s' acc assume s': "ok s'" "view s' = view s"
    have so3: "sorted_wrt (<) (map fst (?es L2))" using so2(1) by (simp add: sorted_wrt_append)
    have "\<And>p es nx. (p, es, nx) \<in> set L2 \<Longrightarrow> p \<noteq> invalidPID \<and> unat p < length (fpages (view s')) \<and>
      leaf_page c (fpages (view s') ! unat p) es nx" unfolding s'(2) by (rule pages) (simp add: l(1))
    from scan_from_spec[OF s'(1) lk2 so3 this]
    show "\<exists>r s2a acc'. scan_from P c lo hi fn False nx s' acc = Some (r, s2a, acc') \<and> ok s2a \<and> view s2a = view s \<and>
      scan_ends (calm s' \<and> 0 < room_of s') fn (sint hi) (?es L2) acc r acc' \<and> (calm s' \<and> 0 < room_of s' \<longrightarrow> calm s2a)"
      using s'(2) by simp
  qed simp
  then show ?thesis unfolding vis by blast
qed

lemma Scan_spec:
  assumes s: "ok s" and i: "index_tree c (fpages (view s)) h t"
  shows "\<exists>r s' acc'. Scan P c s lo hi fn acc = Some (r, s', acc') \<and> ok s' \<and> view s' = view s \<and>
    scan_ends (calm s \<and> 0 < room_of s) fn (sint hi) (filter (\<lambda>e. sint lo \<le> fst e) (entries t)) acc r acc'"
proof -
  let ?ps = "fpages (view s)"
  have t: "?ps \<noteq> []" "meta_root (?ps ! 0) = pid_of t" "aligned c h (- (2 ^ 63)) t (2 ^ 63)" "stored c ?ps t"
    "0 \<notin> set (pids t)" using i by (auto simp: index_tree_def)
  obtain p0 where lk: "linked p0 (leaves t) invalidPID" using i by (auto simp: index_tree_def)
  from s t(1) show ?thesis
  proof (cases rule: root_cases)
    case (failed e s')
    then show ?thesis by (auto simp: Scan_def findLeaf_def scan_ends_def)
  next
    case (read s1)
    obtain r s2 where f: "find_from P c lo (pid_of t) s1 = Some (r, s2)" "ok s2" "view s2 = view s" "room_of s2 = room_of s"
      "\<And>p. r = Inr p \<Longrightarrow> key_leaf t (sint lo) p" "calm s1 \<and> 0 < room_of s1 \<longrightarrow> calm s2 \<and> (\<exists>p. r = Inr p)"
      using find_from_spec[OF read(2) t(3), of lo] t(4) int64_band[of lo] read(3,4) by auto
    have f6: "calm s2 \<and> (\<exists>p. r = Inr p)" if "calm s \<and> 0 < room_of s" using f(6) read(4,5) that by simp
    show ?thesis
    proof (cases r)
      case (Inl e)
      then show ?thesis using f f6 read(1) t(2) by (auto simp: Scan_def findLeaf_def scan_ends_def)
    next
      case (Inr p)
      have "stored c (fpages (view s2)) t" using t(4) f(3) by simp
      from scan_from_leaf[OF f(2) this t(5) lk aligned_sorted[OF t(3)] f(5)[OF Inr], of hi fn acc]
      obtain r3 s3 acc' where q: "scan_from P c lo hi fn True p s2 acc = Some (r3, s3, acc')" "ok s3" "view s3 = view s2"
        "scan_ends (calm s2 \<and> 0 < room_of s2) fn (sint hi) (filter (\<lambda>e. sint lo \<le> fst e) (entries t)) acc r3 acc'" by blast
      have "scan_ends (calm s \<and> 0 < room_of s) fn (sint hi) (filter (\<lambda>e. sint lo \<le> fst e) (entries t)) acc r3 acc'"
        using q(4) f6 f(4) unfolding scan_ends_def by metis
      moreover have "Scan P c s lo hi fn acc = Some (r3, s3, acc')"
        using read(1) t(2) f(1) Inr q(1) by (simp add: Scan_def findLeaf_def)
      ultimately show ?thesis using q(2,3) f(3) by auto
    qed
  qed
qed

end

end
