(* ===== verification/BTree_Insert.thy ===== *)
theory BTree_Insert
  imports BTree_Search
begin

text \<open>
  The writing side of the B+ tree index: splitting a node, \<open>insertInto\<close>, the growth of the root and
  \<open>Insert\<close>, in the locale \<open>btree_index\<close>. An insertion that succeeds refines the update of the map the
  file represents; the frames it pins are released on every path.
\<close>

subsection \<open>Holding a page while others change\<close>

context page_cache
begin

text \<open>The release that ends an operation which fetched \<open>pid\<close> in state \<open>s\<close>: every change to the page has
  been made, and the caller reports it.\<close>

lemma release:
  assumes s: "ok s" "ok s1" "\<not> unsaved (view s) pid" "d \<or> \<not> u"
    and v: "view s1 = view s\<lparr>fpages := ps', held := (held (view s))(pid := Suc (held (view s) pid)),
      unsaved := (unsaved (view s))(pid := u)\<rparr>"
  obtains s2 where "UnpinPage P s1 pid d = Some (Inr (), s2)" "ok s2" "view s2 = view s\<lparr>fpages := ps'\<rparr>"
    "calm s1 \<Longrightarrow> calm s2" "\<And>q. 0 < held (view s) q \<Longrightarrow> ptr s2 q = ptr s1 q"
proof -
  obtain s2 where s2: "UnpinPage P s1 pid d = Some (Inr (), s2)" "ok s2"
    "view s2 = view s1\<lparr>held := (held (view s1))(pid := held (view s1) pid - 1),
        unsaved := (unsaved (view s1))(pid := unsaved (view s1) pid \<and> \<not> d)\<rparr>"
    "\<forall>q. 0 < held (view s1) q \<longrightarrow> q \<noteq> pid \<or> 1 < held (view s1) q \<longrightarrow> ptr s2 q = ptr s1 q" "calm s1 \<longrightarrow> calm s2"
    using unpin_held[OF s(2), of pid d] s(4) v by auto
  have "view s2 = view s\<lparr>fpages := ps'\<rparr>" using s2(3) v s(3,4) by (auto simp: fun_upd_idem)
  moreover have "ptr s2 q = ptr s1 q" if "0 < held (view s) q" for q
    using s2(4)[rule_format, of q] that v by (cases "q = pid") auto
  ultimately show thesis using that[of s2] s2(1,2,5) by blast
qed

text \<open>Fetching a page for writing: what the rest of the operation may rely on.\<close>

lemma pin_cases [consumes 2, case_names failed pinned]:
  assumes s: "ok s" and pid: "unat pid < length (fpages (view s))"
  obtains (failed) e s' where "FetchPage P s pid = Some (Inl e, s')" "ok s'" "view s' = view s"
      "\<not> (calm s \<and> 0 < room_of s)" "\<And>q. 0 < held (view s) q \<Longrightarrow> ptr s' q = ptr s q"
  | (pinned) p s1 where "FetchPage P s pid = Some (Inr p, s1)" "ok s1" "ptr s1 pid = Some p"
      "view s1 = view s\<lparr>held := (held (view s))(pid := Suc (held (view s) pid))\<rparr>"
      "load P s1 p = Some (fpages (view s) ! unat pid)" "room_of s \<le> Suc (room_of s1)"
      "calm s \<Longrightarrow> 0 < room_of s \<Longrightarrow> calm s1" "\<And>q. 0 < held (view s) q \<Longrightarrow> ptr s1 q = ptr s q"
proof -
  obtain r s1 where f: "FetchPage P s pid = Some (r, s1)" using fetch_total[OF s] by blast
  show thesis
  proof (cases r)
    case (Inl e)
    have "\<not> (calm s \<and> 0 < room_of s)"
    proof
      assume "calm s \<and> 0 < room_of s"
      with fetch_calm[OF s _ pid _ f] show False by (simp add: Inl)
    qed
    then show thesis using failed[of e s1] f Inl fetch_err[OF s, of pid e s1] fetch_ptr[OF s f] by blast
  next
    case (Inr p)
    note f1 = fetch_ok[OF s f[unfolded Inr]]
    have "load P s1 p = Some (fpages (view s) ! unat pid)" using load_ptr[of s1 pid p] f1 by simp
    moreover have "room_of s \<le> Suc (room_of s1)"
      using room_held[OF s, of s1 pid "Suc (held (view s) pid)"] f1 by (simp split: if_splits)
    moreover have "calm s1" if "calm s" "0 < room_of s" using fetch_calm[OF s _ pid _ f] that by simp
    ultimately show thesis
      by (intro pinned[of p s1]) (use f Inr f1 fetch_ptr[OF s f] in simp_all)
  qed
qed

text \<open>A new page beside a page the caller holds: both are written, the new one is released.\<close>

lemma new_sibling:
  assumes s: "ok s" and np: "ptr s pid = Some np" "0 < held (view s) pid"
    and n: "NewPage P s = Some (Inr (rp, rpid), s1)"
  shows "unat rpid = length (fpages (view s))" "load P s1 rp = Some NewPage_frame"
    "load P s1 np = Some (fpages (view s) ! unat pid)"
    "length a = 8192 \<Longrightarrow> length b = 8192 \<Longrightarrow>
      \<exists>s2 u. UnpinPage P (store P (store P s1 rp a) np b) rpid True = Some (Inr (), s2) \<and> ok s2 \<and>
        view s2 = view s\<lparr>fpages := (fpages (view s))[unat pid := b] @ [a], unsaved := (unsaved (view s))(pid := u)\<rparr> \<and>
        (calm s1 \<longrightarrow> calm s2) \<and> (\<forall>q. 0 < held (view s) q \<longrightarrow> ptr s2 q = ptr s q)"
proof -
  let ?ps = "fpages (view s)"
  have v1: "view s1 = view s\<lparr>fpages := ?ps @ [NewPage_frame], held := (held (view s))(rpid := 1)\<rparr>"
    and rpid: "unat rpid = length ?ps" and ptr: "ptr s1 rpid = Some rp" and ok1: "ok s1"
    using new_ok[OF s n] by auto
  have pid: "unat pid < length ?ps" by (rule held_page[OF s np(2)])
  have ne: "rpid \<noteq> pid" using rpid pid by auto
  have h0: "held (view s) rpid = 0" using held_page[OF s, of rpid] rpid by auto
  have u0: "\<not> unsaved (view s) rpid" using unsaved_held[OF s, of rpid] h0 by auto
  have np1: "ptr s1 pid = Some np" using new_ptr[OF s n np(2)] np(1) by simp
  show "unat rpid = length ?ps" by (rule rpid)
  show "load P s1 rp = Some NewPage_frame" using load_ptr[OF ok1 ptr] v1 rpid by (simp add: nth_append)
  show "load P s1 np = Some (?ps ! unat pid)" using load_ptr[OF ok1 np1] v1 ne np(2) pid by (simp add: nth_append)
  assume a: "length a = 8192" and b: "length b = 8192"
  let ?s2 = "store P s1 rp a"
  obtain u where s2: "ok ?s2" "ptr ?s2 = ptr s1" "calm s1 \<longrightarrow> calm ?s2"
    "view ?s2 = view s1\<lparr>fpages := ?ps @ [a], unsaved := (unsaved (view s1))(rpid := u)\<rparr>"
    using store_ptr[OF ok1 ptr _ a] v1 rpid by auto
  let ?s3 = "store P ?s2 np b"
  have "ptr ?s2 pid = Some np" "0 < held (view ?s2) pid" using s2(2,4) np1 v1 ne np(2) by auto
  then obtain w where s3: "ok ?s3" "ptr ?s3 = ptr ?s2" "calm ?s2 \<longrightarrow> calm ?s3"
    "view ?s3 = view ?s2\<lparr>fpages := (?ps @ [a])[unat pid := b], unsaved := (unsaved (view ?s2))(pid := w)\<rparr>"
    using store_ptr[OF s2(1) _ _ b, of pid np] s2(4) by auto
  obtain s4 where s4: "UnpinPage P ?s3 rpid True = Some (Inr (), s4)" "ok s4"
    "view s4 = view ?s3\<lparr>held := (held (view ?s3))(rpid := held (view ?s3) rpid - 1),
        unsaved := (unsaved (view ?s3))(rpid := unsaved (view ?s3) rpid \<and> \<not> True)\<rparr>"
    "\<forall>q. 0 < held (view ?s3) q \<longrightarrow> q \<noteq> rpid \<or> 1 < held (view ?s3) q \<longrightarrow> ptr s4 q = ptr ?s3 q" "calm ?s3 \<longrightarrow> calm s4"
    using unpin_held[OF s3(1), of rpid True] s3(4) s2(4) v1 by auto
  have "(?ps @ [a])[unat pid := b] = ?ps[unat pid := b] @ [a]" using pid by (simp add: list_update_append)
  then have "view s4 = view s\<lparr>fpages := ?ps[unat pid := b] @ [a], unsaved := (unsaved (view s))(pid := w)\<rparr>"
    using s4(3) s3(4) s2(4) v1 h0 u0 ne by (simp add: fun_eq_iff fun_upd_idem_iff)
  moreover have "ptr s4 q = ptr s q" if "0 < held (view s) q" for q
  proof -
    have "q \<noteq> rpid" using that h0 by auto
    then show ?thesis using s4(4)[rule_format, of q] that s3(2,4) s2(2,4) v1 new_ptr[OF s n that] by simp
  qed
  ultimately show "\<exists>s2 u. UnpinPage P ?s3 rpid True = Some (Inr (), s2) \<and> ok s2 \<and>
      view s2 = view s\<lparr>fpages := ?ps[unat pid := b] @ [a], unsaved := (unsaved (view s))(pid := u)\<rparr> \<and>
      (calm s1 \<longrightarrow> calm s2) \<and> (\<forall>q. 0 < held (view s) q \<longrightarrow> ptr s2 q = ptr s q)"
    using s4(1,2,5) s3(3) s2(3) by blast
qed

end

subsection \<open>Splitting a node\<close>

lemma full_leaf: "isLeaf n \<Longrightarrow> full c n \<longleftrightarrow> leafCap c \<le> unat (keyCount n)"
  by (simp add: full_def)

lemma full_inner: "\<not> isLeaf n \<Longrightarrow> full c n \<longleftrightarrow> internalCap c \<le> unat (keyCount n)"
  by (simp add: full_def)

context btree_index
begin

text \<open>Both splits: the allocation fails and nothing changes, or the node's upper half is on a new page,
  which is released; \<open>Q\<close> says what the two pages hold.\<close>

definition split_done :: "'s \<Rightarrow> PageID \<Rightarrow> (int \<Rightarrow> PageID \<Rightarrow> page \<Rightarrow> page \<Rightarrow> bool) \<Rightarrow> err + split \<Rightarrow> 's \<Rightarrow> bool" where
  "split_done s pid Q r s' \<longleftrightarrow> ok s' \<and> (\<forall>q. 0 < held (view s) q \<longrightarrow> ptr s' q = ptr s q) \<and>
     (case r of
        Inl e \<Rightarrow> e \<noteq> ErrDuplicateKey \<and> view s' = view s
      | Inr sp \<Rightarrow> unat (right sp) = length (fpages (view s)) \<and>
          (\<exists>a b u. length a = 8192 \<and> length b = 8192 \<and> Q (sint (sepKey sp)) (right sp) b a \<and>
             view s' = view s\<lparr>fpages := (fpages (view s))[unat pid := b] @ [a], unsaved := (unsaved (view s))(pid := u)\<rparr>)) \<and>
     (calm s \<and> 0 < room_of s \<and> Suc (length (fpages (view s))) < 2 ^ 32 \<longrightarrow> calm s' \<and> (\<exists>sp. r = Inr sp))"

lemma splitLeafNode_spec:
  assumes s: "ok s" and np: "ptr s pid = Some np" "0 < held (view s) pid"
    and n: "leaf_page c (fpages (view s) ! unat pid) es nx" "2 \<le> length es" and m: "m = length es div 2"
  shows "\<exists>r s'. splitLeafNode P c s np = Some (r, s') \<and>
    split_done s pid (\<lambda>sep rpid b a. sep = fst (es ! m) \<and> leaf_page c b (take m es) rpid \<and> leaf_page c a (drop m es) nx) r s'"
proof -
  let ?n = "fpages (view s) ! unat pid"
  obtain r s1 where new: "NewPage P s = Some (r, s1)" using new_total[OF s] by blast
  have calm1: "calm s1 \<and> (\<exists>x. r = Inr x)" if "calm s \<and> 0 < room_of s \<and> Suc (length (fpages (view s))) < 2 ^ 32"
    using new_calm[OF s _ _ _ new] that by simp
  show ?thesis
  proof (cases r)
    case (Inl e)
    then show ?thesis using new new_err[OF s, of e s1] new_ptr[OF s new] calm1
      by (auto simp: splitLeafNode_def split_done_def ErrDuplicateKey_def)
  next
    case (Inr x)
    obtain rp rpid where r: "r = Inr (rp, rpid)" using Inr by (cases x) auto
    note ns = new_sibling[OF s np new[unfolded r]]
    obtain n' r' where sp: "splitLeaf c ?n (initLeaf NewPage_frame) = Some (n', r')"
      "leaf_page c n' (take m es) nx" "leaf_page c r' (drop m es) 0"
      using splitLeaf_spec[OF n(1) initLeaf_page[OF length_NewPage_frame] m] by blast
    let ?b = "setNextLeaf n' rpid" and ?a = "setNextLeaf r' nx"
    have pg: "leaf_page c ?b (take m es) rpid" "leaf_page c ?a (drop m es) nx"
      using setNextLeaf_page sp(2,3) by blast+
    have len: "length ?b = 8192" "length ?a = 8192" using leaf_pageD(1)[OF pg(1)] leaf_pageD(1)[OF pg(2)] by simp_all
    have "0 < length (drop m es)" using n(2) m by simp
    then obtain k where k: "keyAt ?a (of_nat 0) = Some k" "sint k = fst (drop m es ! 0)" by (rule leaf_key[OF pg(2)])
    have k2: "sint k = fst (es ! m)" using k(2) n(2) m by simp
    obtain s2 u where s2: "UnpinPage P (store P (store P s1 rp ?a) np ?b) rpid True = Some (Inr (), s2)" "ok s2"
      "view s2 = view s\<lparr>fpages := (fpages (view s))[unat pid := ?b] @ [?a], unsaved := (unsaved (view s))(pid := u)\<rparr>"
      "calm s1 \<longrightarrow> calm s2" "\<forall>q. 0 < held (view s) q \<longrightarrow> ptr s2 q = ptr s q"
      using ns(4)[OF len(2,1)] by blast
    have "splitLeafNode P c s np = Some (Inr (Split k rpid), s2)"
      using new r ns(2,3) sp(1) leaf_pageD(5)[OF sp(2)] k(1) s2(1) by (simp add: splitLeafNode_def)
    moreover have "split_done s pid (\<lambda>sep rpid b a. sep = fst (es ! m) \<and> leaf_page c b (take m es) rpid \<and>
        leaf_page c a (drop m es) nx) (Inr (Split k rpid)) s2"
      using s2(2-5) ns(1) pg len k2 calm1 unfolding split_done_def by auto
    ultimately show ?thesis by blast
  qed
qed

lemma splitInternalNode_spec:
  assumes s: "ok s" and np: "ptr s pid = Some np" "0 < held (view s) pid"
    and n: "inner_page c (fpages (view s) ! unat pid) ks ts" "ks \<noteq> []" and m: "m = length ks div 2"
  shows "\<exists>r s'. splitInternalNode P c s np = Some (r, s') \<and>
    split_done s pid (\<lambda>sep rpid b a. sep = ks ! m \<and> inner_page c b (take m ks) (take (Suc m) ts) \<and>
      inner_page c a (drop (Suc m) ks) (drop (Suc m) ts)) r s'"
proof -
  let ?n = "fpages (view s) ! unat pid"
  obtain r s1 where new: "NewPage P s = Some (r, s1)" using new_total[OF s] by blast
  have calm1: "calm s1 \<and> (\<exists>x. r = Inr x)" if "calm s \<and> 0 < room_of s \<and> Suc (length (fpages (view s))) < 2 ^ 32"
    using new_calm[OF s _ _ _ new] that by simp
  show ?thesis
  proof (cases r)
    case (Inl e)
    then show ?thesis using new new_err[OF s, of e s1] new_ptr[OF s new] calm1
      by (auto simp: splitInternalNode_def split_done_def ErrDuplicateKey_def)
  next
    case (Inr x)
    obtain rp rpid where r: "r = Inr (rp, rpid)" using Inr by (cases x) auto
    note ns = new_sibling[OF s np new[unfolded r]]
    have init: "length (initInternal NewPage_frame) = 8192" "nodeType (initInternal NewPage_frame) = nodeInternal"
      using init_header[OF length_NewPage_frame] by (simp_all add: initInternal_def)
    obtain k n' r' where sp: "splitInternal c ?n (initInternal NewPage_frame) = Some (k, n', r')" "sint k = ks ! m"
      "inner_page c n' (take m ks) (take (Suc m) ts)" "inner_page c r' (drop (Suc m) ks) (drop (Suc m) ts)"
      using splitInternal_spec[OF n(1) init m n(2)] by blast
    have len: "length n' = 8192" "length r' = 8192" using inner_pageD(1)[OF sp(3)] inner_pageD(1)[OF sp(4)] by simp_all
    obtain s2 u where s2: "UnpinPage P (store P (store P s1 rp r') np n') rpid True = Some (Inr (), s2)" "ok s2"
      "view s2 = view s\<lparr>fpages := (fpages (view s))[unat pid := n'] @ [r'], unsaved := (unsaved (view s))(pid := u)\<rparr>"
      "calm s1 \<longrightarrow> calm s2" "\<forall>q. 0 < held (view s) q \<longrightarrow> ptr s2 q = ptr s q"
      using ns(4)[OF len(2,1)] by blast
    have "splitInternalNode P c s np = Some (Inr (Split k rpid), s2)"
      using new r ns(2,3) sp(1) s2(1) by (simp add: splitInternalNode_def)
    moreover have "split_done s pid (\<lambda>sep rpid b a. sep = ks ! m \<and> inner_page c b (take m ks) (take (Suc m) ts) \<and>
        inner_page c a (drop (Suc m) ks) (drop (Suc m) ts)) (Inr (Split k rpid)) s2"
      using s2(2-5) ns(1) sp(2-4) len calm1 unfolding split_done_def by auto
    ultimately show ?thesis by blast
  qed
qed

end

subsection \<open>Insert\<close>

text \<open>The trees that replace \<open>t\<close>: one, on the same page, or two with the separator and the new page the
  split reports.\<close>

definition grown :: "bt \<Rightarrow> split option \<Rightarrow> bt list \<Rightarrow> int list \<Rightarrow> int \<Rightarrow> bool" where
  "grown t sp ts us hi \<longleftrightarrow> (case sp of
      None \<Rightarrow> (\<exists>t'. ts = [t'] \<and> us = [hi] \<and> pid_of t' = pid_of t)
    | Some sp \<Rightarrow> (\<exists>l r. ts = [l, r] \<and> us = [sint (sepKey sp), hi] \<and> pid_of l = pid_of t \<and> pid_of r = right sp))"

definition insert_outcome :: "node_caps \<Rightarrow> page list \<Rightarrow> page list \<Rightarrow> nat \<Rightarrow> int \<Rightarrow> int \<Rightarrow> bt \<Rightarrow> int64 \<Rightarrow> TID \<Rightarrow>
    err + split option \<Rightarrow> bool" where
  "insert_outcome c ps ps' h lo hi t key tid r \<longleftrightarrow> touched ps ps' (pids t) \<and> length ps' \<le> length ps + Suc h \<and>
     (case r of
        Inl e \<Rightarrow> e = ErrDuplicateKey \<longrightarrow> sint key \<in> fst ` set (entries t) \<and> ps' = ps
      | Inr sp \<Rightarrow> sint key \<notin> fst ` set (entries t) \<and>
          (\<exists>ts us. regrown c ps ps' h lo hi (pids t) (leaves t) (ins_entry (sint key) tid (entries t)) ts us \<and>
             grown t sp ts us hi))"

lemma insert_outcome_error:
  "touched ps ps' (pids t) \<Longrightarrow> length ps' \<le> length ps + Suc h \<Longrightarrow> e \<noteq> ErrDuplicateKey \<Longrightarrow>
   insert_outcome c ps ps' h lo hi t key tid (Inl e)"
  by (simp add: insert_outcome_def)

lemma insert_outcome_grown:
  "regrown c ps ps' h lo hi (pids t) (leaves t) (ins_entry (sint key) tid (entries t)) ts us \<Longrightarrow> grown t sp ts us hi \<Longrightarrow>
   touched ps ps' (pids t) \<Longrightarrow> length ps' \<le> length ps + Suc h \<Longrightarrow> sint key \<notin> fst ` set (entries t) \<Longrightarrow>
   insert_outcome c ps ps' h lo hi t key tid (Inr sp)"
  by (auto simp: insert_outcome_def)

lemma ins_entry_props:
  assumes "sorted_wrt (<) (map fst es)" "k \<notin> fst ` set es"
  shows "sorted_wrt (<) (map fst (ins_entry k v es))" "length (ins_entry k v es) = Suc (length es)"
    "fst ` set (ins_entry k v es) = insert k (fst ` set es)"
proof -
  have f: "sorted_wrt (<) (map fst (filter P es))" for P
    using assms(1) by (simp add: sorted_wrt_map sorted_wrt_filter)
  then show "sorted_wrt (<) (map fst (ins_entry k v es))"
    by (fastforce simp: ins_entry_def sorted_wrt_append)
  show "fst ` set (ins_entry k v es) = insert k (fst ` set es)" using set_ins_entry[OF assms(2)] by auto
  have "filter (\<lambda>e. k < fst e) es = filter (\<lambda>e. \<not> fst e < k) es"
    using assms(2) by (intro filter_cong) (auto simp: not_less le_less)
  then show "length (ins_entry k v es) = Suc (length es)"
    using sum_length_filter_compl[of "\<lambda>e. fst e < k" es] by (simp add: ins_entry_def)
qed

lemma ins_entry_band:
  assumes "aligned c 0 lo (Leaf p es nx) hi" "lo \<le> k" "k < hi" "k \<notin> fst ` set es" "x \<in> fst ` set (ins_entry k v es)"
  shows "lo \<le> x \<and> x < hi"
proof -
  have "x = k \<or> x \<in> fst ` set es" using assms(5) set_ins_entry[OF assms(4)] by auto
  then show ?thesis using assms(1-3) by auto
qed

lemma outcome_leaf:
  assumes t: "aligned c 0 lo (Leaf p es nx) hi" "unat p < length ps" and k: "lo \<le> sint key" "sint key < hi" "sint key \<notin> fst ` set es"
    and n: "leaf_page c n (ins_entry (sint key) tid es) nx" "length (ins_entry (sint key) tid es) < leafCap c"
  shows "insert_outcome c ps (ps[unat p := n]) 0 lo hi (Leaf p es nx) key tid (Inr None)"
proof (rule insert_outcome_grown)
  have es: "sorted_wrt (<) (map fst es)" using t(1) by simp
  show "regrown c ps (ps[unat p := n]) 0 lo hi (pids (Leaf p es nx)) (leaves (Leaf p es nx))
      (ins_entry (sint key) tid (entries (Leaf p es nx))) [Leaf p (ins_entry (sint key) tid es) nx] [hi]"
    unfolding pids.simps leaves.simps entries.simps
    by (rule regrown_leaf)
      (use n t ins_entry_band[OF t(1) k, of _ tid] ins_entry_props(1)[OF es k(3), of tid] in auto)
qed (use k(3) touched_update[of ps p n] in \<open>auto simp: grown_def\<close>)

lemma outcome_leaf_split:
  assumes t: "aligned c 0 lo (Leaf p es nx) hi" "unat p < length ps" and k: "lo \<le> sint key" "sint key < hi" "sint key \<notin> fst ` set es"
    and es': "es' = ins_entry (sint key) tid es" "2 \<le> length es'" "length es' \<le> leafCap c"
    and x: "unat (right x) = length ps" "sint (sepKey x) = fst (es' ! (length es' div 2))"
    and ab: "leaf_page c b (take (length es' div 2) es') (right x)" "leaf_page c a (drop (length es' div 2) es') nx"
  shows "insert_outcome c ps (ps[unat p := b] @ [a]) 0 lo hi (Leaf p es nx) key tid (Inr (Some x))"
proof (rule insert_outcome_grown)
  have es: "sorted_wrt (<) (map fst es)" using t(1) by simp
  show "regrown c ps (ps[unat p := b] @ [a]) 0 lo hi (pids (Leaf p es nx)) (leaves (Leaf p es nx))
      (ins_entry (sint key) tid (entries (Leaf p es nx)))
      [Leaf p (take (length es' div 2) es') (right x), Leaf (right x) (drop (length es' div 2) es') nx]
      [fst (es' ! (length es' div 2)), hi]"
    unfolding pids.simps leaves.simps entries.simps es'(1)[symmetric]
    by (rule regrown_leaf_split)
      (use t(2) es' x ab ins_entry_band[OF t(1) k, of _ tid] ins_entry_props(1)[OF es k(3), of tid] in \<open>auto simp: nth_append\<close>)
  show "touched ps (ps[unat p := b] @ [a]) (pids (Leaf p es nx))"
    using touched_trans[OF touched_update touched_append, of ps p b "[a]"] by simp
qed (use k(3) x(2) in \<open>auto simp: grown_def\<close>)

context btree_index
begin

text \<open>After a split attempt the operation releases the node it holds: its pages are those before the attempt,
  or those the split made.\<close>

lemma split_release:
  assumes s: "ok s" "\<not> unsaved (view s) p" and s2: "split_done s2 p Q r s3" "\<And>q. 0 < held (view s) q \<Longrightarrow> ptr s2 q = ptr s q"
    and v: "view s2 = view s\<lparr>fpages := ps2, held := (held (view s))(p := Suc (held (view s) p)), unsaved := (unsaved (view s))(p := w)\<rparr>"
  obtains s4 ps4 where "UnpinPage P s3 p True = Some (Inr (), s4)" "ok s4" "view s4 = view s\<lparr>fpages := ps4\<rparr>"
    "\<And>q. 0 < held (view s) q \<Longrightarrow> ptr s4 q = ptr s q"
    "calm s2 \<and> 0 < room_of s2 \<and> Suc (length ps2) < 2 ^ 32 \<longrightarrow> calm s4 \<and> (\<exists>x. r = Inr x)"
    "\<And>e. r = Inl e \<Longrightarrow> e \<noteq> ErrDuplicateKey \<and> ps4 = ps2"
    "\<And>x. r = Inr x \<Longrightarrow> unat (right x) = length ps2 \<and> (\<exists>a b. Q (sint (sepKey x)) (right x) b a \<and> ps4 = ps2[unat p := b] @ [a])"
proof -
  have ok3: "ok s3" and keep: "\<And>q. 0 < held (view s) q \<Longrightarrow> ptr s3 q = ptr s q"
    using s2 v by (auto simp: split_done_def)
  have c3: "calm s2 \<and> 0 < room_of s2 \<and> Suc (length ps2) < 2 ^ 32 \<longrightarrow> calm s3 \<and> (\<exists>x. r = Inr x)"
    using s2(1) v by (simp add: split_done_def)
  obtain ps4 w' where v3: "view s3 = view s\<lparr>fpages := ps4, held := (held (view s))(p := Suc (held (view s) p)),
        unsaved := (unsaved (view s))(p := w')\<rparr>"
    and e: "\<And>e. r = Inl e \<Longrightarrow> e \<noteq> ErrDuplicateKey \<and> ps4 = ps2"
    and x: "\<And>x. r = Inr x \<Longrightarrow> unat (right x) = length ps2 \<and> (\<exists>a b. Q (sint (sepKey x)) (right x) b a \<and> ps4 = ps2[unat p := b] @ [a])"
  proof (cases r)
    case (Inl e)
    then show thesis using s2(1) v that[of w ps2] by (auto simp: split_done_def)
  next
    case (Inr x)
    then obtain a b u where "unat (right x) = length ps2" "Q (sint (sepKey x)) (right x) b a"
      "view s3 = view s2\<lparr>fpages := ps2[unat p := b] @ [a], unsaved := (unsaved (view s2))(p := u)\<rparr>"
      using s2(1) v by (auto simp: split_done_def)
    then show thesis using that[of u "ps2[unat p := b] @ [a]"] Inr v by auto
  qed
  obtain s4 where s4: "UnpinPage P s3 p True = Some (Inr (), s4)" "ok s4" "view s4 = view s\<lparr>fpages := ps4\<rparr>"
    "calm s3 \<Longrightarrow> calm s4" "\<And>q. 0 < held (view s) q \<Longrightarrow> ptr s4 q = ptr s3 q"
    by (rule release[OF s(1) ok3 s(2) _ v3, of True]) auto
  show thesis by (rule that[OF s4(1-3)]) (use s4(4,5) keep c3 e x in auto)
qed

text \<open>What is left of an insertion once the node \<open>n\<close> of page \<open>p\<close> has taken its entry, in state \<open>s2\<close>: if the node is not full it is
  released, otherwise it is split first. \<open>R\<close> says which pages are right for which result.\<close>

definition settle :: "bool \<Rightarrow> ('s \<Rightarrow> ((err + split) \<times> 's) option) \<Rightarrow> PageID \<Rightarrow> 's \<Rightarrow> ((err + split option) \<times> 's) option" where
  "settle F split p s2 = (if \<not> F then do { (_, s) \<leftarrow> UnpinPage P s2 p True; Some (Inr None, s) }
     else do { (sp, s) \<leftarrow> split s2; (_, s) \<leftarrow> UnpinPage P s p True; Some (map_sum id Some sp, s) })"

lemma settle_spec:
  assumes s: "ok s" "\<not> unsaved (view s) p" and s2: "ok s2" "\<And>q. 0 < held (view s) q \<Longrightarrow> ptr s2 q = ptr s q"
    and v: "view s2 = view s\<lparr>fpages := ps2, held := (held (view s))(p := Suc (held (view s) p)), unsaved := (unsaved (view s))(p := w)\<rparr>"
    and kept: "\<not> F \<Longrightarrow> R ps2 (Inr None)"
    and split: "F \<Longrightarrow> \<exists>r s3. split s2 = Some (r, s3) \<and> split_done s2 p Q r s3"
    and failed: "\<And>e. F \<Longrightarrow> e \<noteq> ErrDuplicateKey \<Longrightarrow> R ps2 (Inl e)"
    and halves: "\<And>x a b. F \<Longrightarrow> unat (right x) = length ps2 \<Longrightarrow> Q (sint (sepKey x)) (right x) b a \<Longrightarrow> R (ps2[unat p := b] @ [a]) (Inr (Some x))"
  shows "\<exists>r s' ps'. settle F split p s2 = Some (r, s') \<and> ok s' \<and> view s' = view s\<lparr>fpages := ps'\<rparr> \<and> R ps' r \<and>
    (\<forall>q. 0 < held (view s) q \<longrightarrow> ptr s' q = ptr s q) \<and>
    (calm s2 \<and> 0 < room_of s2 \<and> Suc (length ps2) < 2 ^ 32 \<longrightarrow> calm s' \<and> (\<exists>y. r = Inr y))"
proof (cases F)
  case False
  obtain s3 where "UnpinPage P s2 p True = Some (Inr (), s3)" "ok s3" "view s3 = view s\<lparr>fpages := ps2\<rparr>"
    "calm s2 \<Longrightarrow> calm s3" "\<And>q. 0 < held (view s) q \<Longrightarrow> ptr s3 q = ptr s2 q"
    by (rule release[OF s(1) s2(1) s(2) _ v, of True]) auto
  then show ?thesis using False kept s2(2) by (auto simp: settle_def)
next
  case True
  obtain r s3 where sp: "split s2 = Some (r, s3)" "split_done s2 p Q r s3" using split[OF True] by blast
  obtain s4 ps4 where s4: "UnpinPage P s3 p True = Some (Inr (), s4)" "ok s4" "view s4 = view s\<lparr>fpages := ps4\<rparr>"
    "\<And>q. 0 < held (view s) q \<Longrightarrow> ptr s4 q = ptr s q"
    "calm s2 \<and> 0 < room_of s2 \<and> Suc (length ps2) < 2 ^ 32 \<longrightarrow> calm s4 \<and> (\<exists>x. r = Inr x)"
    "\<And>e. r = Inl e \<Longrightarrow> e \<noteq> ErrDuplicateKey \<and> ps4 = ps2"
    "\<And>x. r = Inr x \<Longrightarrow> unat (right x) = length ps2 \<and> (\<exists>a b. Q (sint (sepKey x)) (right x) b a \<and> ps4 = ps2[unat p := b] @ [a])"
    by (rule split_release[OF s sp(2) s2(2) v]) auto
  have "R ps4 (map_sum id Some r)" using s4(6,7) failed[OF True] halves[OF True] by (cases r) auto
  then show ?thesis using True sp(1) s4(1-5) by (cases r) (auto simp: settle_def)
qed

text \<open>The changed node is written through its frame, which the operation still holds.\<close>

lemma put_node:
  assumes s1: "ok s1" "ptr s1 p = Some fp" and n: "length n = 8192"
    and v1: "view s1 = view s\<lparr>fpages := ps1, held := (held (view s))(p := Suc (held (view s) p))\<rparr>"
  obtains w where "ok (store P s1 fp n)" "ptr (store P s1 fp n) = ptr s1" "calm s1 \<longrightarrow> calm (store P s1 fp n)"
    "view (store P s1 fp n) = view s\<lparr>fpages := ps1[unat p := n], held := (held (view s))(p := Suc (held (view s) p)),
      unsaved := (unsaved (view s))(p := w)\<rparr>" "room_of (store P s1 fp n) = room_of s1"
proof -
  obtain w where s2: "ok (store P s1 fp n)" "ptr (store P s1 fp n) = ptr s1" "calm s1 \<longrightarrow> calm (store P s1 fp n)"
    "view (store P s1 fp n) = view s1\<lparr>fpages := ps1[unat p := n], unsaved := (unsaved (view s1))(p := w)\<rparr>"
    using store_ptr[OF s1 _ n] v1 by auto
  have "room_of (store P s1 fp n) = room_of s1" by (rule room_eq[OF s1(1) s2(1)]) (use s2(4) in simp_all)
  then show thesis using that[of w] s2 v1 by simp
qed

text \<open>The same for a leaf: the entry is not bound and goes into the leaf.\<close>

lemma insert_new_entry:
  assumes s: "ok s" "\<not> unsaved (view s) p" and l: "leaf_page c (fpages (view s) ! unat p) es nx" "unat p < length (fpages (view s))"
      "aligned c 0 lo (Leaf p es nx) hi"
    and k: "lo \<le> sint key" "sint key < hi" "sint key \<notin> fst ` set es"
    and s1: "ok s1" "ptr s1 p = Some fp" "\<And>q. 0 < held (view s) q \<Longrightarrow> ptr s1 q = ptr s q"
      "view s1 = view s\<lparr>held := (held (view s))(p := Suc (held (view s) p))\<rparr>"
  shows "\<exists>n r s' ps'. insertLeafAt c (fpages (view s) ! unat p) (of_nat (below (sint key) (map fst es))) key tid = Some n \<and>
    settle (full c n) (\<lambda>s. splitLeafNode P c s fp) p (store P s1 fp n) = Some (r, s') \<and> ok s' \<and> view s' = view s\<lparr>fpages := ps'\<rparr> \<and>
    insert_outcome c (fpages (view s)) ps' 0 lo hi (Leaf p es nx) key tid r \<and> (\<forall>q. 0 < held (view s) q \<longrightarrow> ptr s' q = ptr s q) \<and>
    (calm s1 \<and> 0 < room_of s1 \<and> Suc (length (fpages (view s))) < 2 ^ 32 \<longrightarrow> calm s' \<and> (\<exists>y. r = Inr y))"
proof -
  let ?ps = "fpages (view s)" and ?k = "sint key"
  define es' where "es' = ins_entry ?k tid es"
  have es: "sorted_wrt (<) (map fst es)" "length es < leafCap c" using l(3) by auto
  obtain n where n: "insertLeafAt c (?ps ! unat p) (of_nat (below ?k (map fst es))) key tid = Some n" "leaf_page c n es' nx"
    using insertLeafAt_spec[OF l(1) _ es(2), of "below ?k (map fst es)" key tid] below_le[of ?k "map fst es"]
      ins_entry_leaf[OF es(1) k(3) refl, of tid] by (auto simp: es'_def)
  note nd = leaf_pageD[OF n(2)]
  have v1: "view s1 = view s\<lparr>fpages := ?ps, held := (held (view s))(p := Suc (held (view s) p))\<rparr>" using s1(4) by simp
  obtain w where s2: "ok (store P s1 fp n)" "ptr (store P s1 fp n) = ptr s1" "calm s1 \<longrightarrow> calm (store P s1 fp n)"
    "view (store P s1 fp n) = view s\<lparr>fpages := ?ps[unat p := n], held := (held (view s))(p := Suc (held (view s) p)),
      unsaved := (unsaved (view s))(p := w)\<rparr>" "room_of (store P s1 fp n) = room_of s1"
    by (rule put_node[OF s1(1,2) nd(1) v1])
  let ?Q = "\<lambda>sep rpid b a. sep = fst (es' ! (length es' div 2)) \<and> leaf_page c b (take (length es' div 2) es') rpid \<and>
      leaf_page c a (drop (length es' div 2) es') nx"
  have len: "length es' \<le> leafCap c" "full c n \<Longrightarrow> 2 \<le> length es'"
    using full_leaf[OF nd(2), of c] nd(3,4) caps_ok by (auto simp: caps_ok_def)
  have "\<exists>r s' ps'. settle (full c n) (\<lambda>s. splitLeafNode P c s fp) p (store P s1 fp n) = Some (r, s') \<and> ok s' \<and> view s' = view s\<lparr>fpages := ps'\<rparr> \<and>
    insert_outcome c ?ps ps' 0 lo hi (Leaf p es nx) key tid r \<and> (\<forall>q. 0 < held (view s) q \<longrightarrow> ptr s' q = ptr s q) \<and>
    (calm (store P s1 fp n) \<and> 0 < room_of (store P s1 fp n) \<and> Suc (length (?ps[unat p := n])) < 2 ^ 32 \<longrightarrow> calm s' \<and> (\<exists>y. r = Inr y))"
  proof (rule settle_spec[OF s s2(1) _ s2(4), where Q = ?Q])
    show "insert_outcome c ?ps (?ps[unat p := n]) 0 lo hi (Leaf p es nx) key tid (Inr None)" if "\<not> full c n"
      by (rule outcome_leaf[OF l(3,2) k]) (use n(2) that full_leaf[OF nd(2), of c] nd(3) in \<open>simp_all add: es'_def\<close>)
    show "\<exists>r s3. splitLeafNode P c (store P s1 fp n) fp = Some (r, s3) \<and> split_done (store P s1 fp n) p ?Q r s3" if "full c n"
      by (rule splitLeafNode_spec[OF s2(1) _ _ _ len(2)[OF that] refl]) (use s2(2,4) s1(2) n(2) l(2) in auto)
    show "insert_outcome c ?ps (?ps[unat p := n]) 0 lo hi (Leaf p es nx) key tid (Inl e)" if "e \<noteq> ErrDuplicateKey" for e
      by (rule insert_outcome_error[OF _ _ that]) (use touched_update[of ?ps p n] in simp_all)
    show "insert_outcome c ?ps (?ps[unat p := n, unat p := b] @ [a]) 0 lo hi (Leaf p es nx) key tid (Inr (Some x))"
      if "full c n" "unat (right x) = length (?ps[unat p := n])" "?Q (sint (sepKey x)) (right x) b a" for x a b
      using outcome_leaf_split[OF l(3,2) k es'_def len(2)[OF that(1)] len(1), of x] that(2,3) by auto
  qed (use s2(2) s1(3) in auto)
  then show ?thesis using n(1) s2(3,5) by auto
qed

text \<open>What a call of \<open>insertInto\<close> on the tree \<open>t\<close> of height \<open>h\<close> has done.\<close>

definition inserts :: "'s \<Rightarrow> nat \<Rightarrow> int \<Rightarrow> int \<Rightarrow> bt \<Rightarrow> int64 \<Rightarrow> TID \<Rightarrow> (err + split option) \<Rightarrow> 's \<Rightarrow> bool" where
  "inserts s h lo hi t key tid r s' \<longleftrightarrow> ok s' \<and> (\<exists>ps'. view s' = view s\<lparr>fpages := ps'\<rparr> \<and>
       insert_outcome c (fpages (view s)) ps' h lo hi t key tid r) \<and>
     (\<forall>q. 0 < held (view s) q \<longrightarrow> ptr s' q = ptr s q) \<and>
     (calm s \<and> h + 2 \<le> room_of s \<and> length (fpages (view s)) + Suc h < 2 ^ 32 \<longrightarrow>
        calm s' \<and> (\<forall>e. r = Inl e \<longrightarrow> e = ErrDuplicateKey))"

lemma insert_leaf:
  assumes s: "ok s" and u: "\<And>pid. \<not> unsaved (view s) pid" and t: "aligned c 0 lo t hi" "stored c (fpages (view s)) t"
    and k: "lo \<le> sint key" "sint key < hi"
  shows "\<exists>r s'. insertInto P c key tid (pid_of t) s = Some (r, s') \<and> inserts s 0 lo hi t key tid r s'"
proof -
  let ?ps = "fpages (view s)"
  obtain p es nx where l: "t = Leaf p es nx" "leaf_page c (?ps ! unat p) es nx" "unat p < length ?ps" "sorted_wrt (<) (map fst es)"
    by (rule leaf_node[OF t]) blast
  from s l(3) show ?thesis
  proof (cases rule: pin_cases)
    case (failed e s')
    moreover have "insert_outcome c ?ps ?ps 0 lo hi t key tid (Inl (Wrap ''nbtree: fetch page'' e))"
      by (rule insert_outcome_error) (simp_all add: ErrDuplicateKey_def)
    ultimately show ?thesis by (subst insertInto.simps) (auto simp: l(1) inserts_def intro!: exI[of _ ?ps])
  next
    case (pinned fp s1)
    note leaf = leaf_pageD(2)[OF l(2)] and search = leaf_search[OF l(2,4), of key]
    show ?thesis
    proof (cases "sint key \<in> fst ` set es")
      case True
      obtain s2 where "UnpinPage P s1 p False = Some (Inr (), s2)" "ok s2" "view s2 = view s"
        "\<And>q. 0 < held (view s) q \<Longrightarrow> ptr s2 q = ptr s q" "calm s1 \<Longrightarrow> calm s2"
        by (rule read_page[OF s pinned(1)]) blast
      moreover have "insert_outcome c ?ps ?ps 0 lo hi t key tid (Inl ErrDuplicateKey)"
        using True by (simp add: insert_outcome_def l(1))
      ultimately show ?thesis using pinned True leaf search
        by (subst insertInto.simps) (auto simp: l(1) inserts_def intro!: exI[of _ ?ps])
    next
      case False
      obtain n r s' ps' where e: "insertLeafAt c (?ps ! unat p) (of_nat (below (sint key) (map fst es))) key tid = Some n"
        "settle (full c n) (\<lambda>s. splitLeafNode P c s fp) p (store P s1 fp n) = Some (r, s')" "ok s'" "view s' = view s\<lparr>fpages := ps'\<rparr>"
        "insert_outcome c ?ps ps' 0 lo hi t key tid r" "\<forall>q. 0 < held (view s) q \<longrightarrow> ptr s' q = ptr s q"
        "calm s1 \<and> 0 < room_of s1 \<and> Suc (length ?ps) < 2 ^ 32 \<longrightarrow> calm s' \<and> (\<exists>y. r = Inr y)"
        using insert_new_entry[OF s u l(2,3) t(1)[unfolded l(1)] k False pinned(2,3,8,4), of tid] unfolding l(1) by auto
      have "insertInto P c key tid p s = Some (r, s')"
        using pinned(1,5) leaf search False e(1,2) by (subst insertInto.simps) (simp add: settle_def)
      then show ?thesis using e(3-7) pinned(6,7) by (auto simp: l(1) inserts_def)
    qed
  qed
qed

end

text \<open>A descent through the node \<open>p\<close> with separators \<open>ks\<close> into its child \<open>t\<close>.\<close>

definition descent :: "node_caps \<Rightarrow> nat \<Rightarrow> int \<Rightarrow> int \<Rightarrow> int \<Rightarrow> page list \<Rightarrow> PageID \<Rightarrow> int list \<Rightarrow> bt list \<Rightarrow> bt \<Rightarrow> bt list \<Rightarrow>
    int list \<Rightarrow> int \<Rightarrow> int \<Rightarrow> int list \<Rightarrow> bool" where
  "descent c h lo hi k ps p ks A t B ka l u kb \<longleftrightarrow>
     ks @ [hi] = ka @ u # kb \<and> length ka = length A \<and> l = last (lo # ka) \<and> l \<le> k \<and> k < u \<and> last (u # kb) = hi \<and>
     path (aligned c h) lo A ka \<and> aligned c h l t u \<and> path (aligned c h) u B kb \<and>
     stored c ps t \<and> (\<forall>t \<in> set (A @ B). stored c ps t) \<and> length ks < internalCap c \<and> unat p < length ps \<and>
     inner_page c (ps ! unat p) ks (map pid_of (A @ t # B)) \<and> distinct (p # concat (map pids (A @ t # B)))"

lemma descent_entries:
  assumes "descent c h lo hi k ps p ks A t B ka l u kb"
  shows "k \<in> fst ` set (concat (map entries (A @ t # B))) \<longleftrightarrow> k \<in> fst ` set (entries t)"
proof -
  have le: "last (lo # ka) \<le> k" and "k < u" "path (aligned c h) lo A ka" "path (aligned c h) u B kb"
    using assms by (auto simp: descent_def)
  then have "k \<notin> fst ` set (concat (map entries A))" "k \<notin> fst ` set (concat (map entries B))"
    using descend_keys[of c h lo A ka u B kb k] by blast+
  then show ?thesis by auto
qed

lemma descent_regrown:
  assumes d: "descent c h lo hi (sint key) ps p ks A t B ka l u kb"
    and o: "insert_outcome c ps ps' h l u t key tid (Inr sp)"
  obtains ts us where "regrown c ps ps' h lo hi (concat (map pids (A @ t # B))) (concat (map leaves (A @ t # B)))
      (ins_entry (sint key) tid (concat (map entries (A @ t # B)))) (A @ ts @ B) (ka @ us @ kb)"
    "grown t sp ts us u" "p \<notin> set (concat (map pids (A @ ts @ B)))" "unat p < length ps'" "ps' ! unat p = ps ! unat p"
    "touched ps ps' (pids t)" "sint key \<notin> fst ` set (concat (map entries (A @ t # B)))" "length ps' \<le> length ps + Suc h"
proof -
  have o': "touched ps ps' (pids t)" "sint key \<notin> fst ` set (entries t)" "length ps' \<le> length ps + Suc h"
    using o by (auto simp: insert_outcome_def)
  obtain ts us where r: "regrown c ps ps' h l u (pids t) (leaves t) (ins_entry (sint key) tid (entries t)) ts us" "grown t sp ts us u"
    using o by (auto simp: insert_outcome_def)
  have p: "unat p < length ps" "p \<notin> set (concat (map pids (A @ t # B)))" using d by (auto simp: descent_def)
  have rg: "regrown c ps ps' h lo hi (concat (map pids (A @ t # B))) (concat (map leaves (A @ t # B)))
      (ins_entry (sint key) tid (concat (map entries (A @ t # B)))) (A @ ts @ B) (ka @ us @ kb)"
    using d by (intro regrown_child[OF r(1) o'(1)]) (simp_all add: descent_def)
  have "p \<notin> set (concat (map pids (A @ ts @ B)))" using rg p unfolding regrown_def by fastforce
  moreover have "unat p \<notin> unat ` set (pids t)" using p(2) by (auto dest!: unsigned_word_eqI)
  then have "unat p < length ps'" "ps' ! unat p = ps ! unat p" using o'(1) p(1) by (auto simp: touched_def)
  ultimately show thesis using that[OF rg r(2)] o' descent_entries[OF d] by blast
qed

lemma grown_keys:
  "grown t None ts us u \<Longrightarrow> us = [u]" "grown t (Some x) ts us u \<Longrightarrow> us = [sint (sepKey x), u]"
  by (auto simp: grown_def)

lemma outcome_touched:
  assumes "touched ps ps' (pids t)" "touched ps' ps'' [p]"
  shows "touched ps ps'' (pids (Node p ks (A @ t # B)))"
  by (rule touched_mono[OF touched_trans[OF assms]]) auto

text \<open>The three ways an insert below ends in the node: the child took the entry, the node took the
  child's split, or it split itself.\<close>

lemma outcome_child:
  assumes d: "descent c h lo hi (sint key) ps p ks A t B ka l u kb"
    and o: "insert_outcome c ps ps' h l u t key tid (Inr None)"
  shows "insert_outcome c ps ps' (Suc h) lo hi (Node p ks (A @ t # B)) key tid (Inr None)"
proof -
  obtain ts us where r: "regrown c ps ps' h lo hi (concat (map pids (A @ t # B))) (concat (map leaves (A @ t # B)))
      (ins_entry (sint key) tid (concat (map entries (A @ t # B)))) (A @ ts @ B) (ka @ us @ kb)"
    "grown t None ts us u" "p \<notin> set (concat (map pids (A @ ts @ B)))" "unat p < length ps'" "ps' ! unat p = ps ! unat p"
    "touched ps ps' (pids t)" "sint key \<notin> fst ` set (concat (map entries (A @ t # B)))" "length ps' \<le> length ps + Suc h"
    by (rule descent_regrown[OF d o])
  have us: "ka @ us @ kb = ks @ [hi]" using grown_keys(1)[OF r(2)] d by (simp add: descent_def)
  have ts: "map pid_of (A @ ts @ B) = map pid_of (A @ t # B)" using r(2) by (auto simp: grown_def)
  have "regrown c ps ps' (Suc h) lo hi (p # concat (map pids (A @ t # B))) (concat (map leaves (A @ t # B)))
      (ins_entry (sint key) tid (concat (map entries (A @ t # B)))) [Node p ks (A @ ts @ B)] [hi]"
    by (rule regrown_node[OF r(1)[unfolded us] r(3,4)]) (use d r(5) ts in \<open>simp_all add: descent_def\<close>)
  moreover have "touched ps ps' (pids (Node p ks (A @ t # B)))" by (rule outcome_touched[OF r(6)]) simp
  ultimately show ?thesis
    using r(7,8) by (intro insert_outcome_grown[where ts = "[Node p ks (A @ ts @ B)]" and us = "[hi]"]) (simp_all add: grown_def)
qed

lemma outcome_absorbed:
  assumes d: "descent c h lo hi (sint key) ps p ks A t B ka l u kb"
    and o: "insert_outcome c ps ps' h l u t key tid (Inr (Some x))"
    and n: "inner_page c n ks2 ps2" "ks2 = take (length A) ks @ sint (sepKey x) # drop (length A) ks"
      "ps2 = take (Suc (length A)) (map pid_of (A @ t # B)) @ right x # drop (Suc (length A)) (map pid_of (A @ t # B))"
  obtains ts where "regrown c ps (ps'[unat p := b] @ bs) h lo hi (concat (map pids (A @ t # B))) (concat (map leaves (A @ t # B)))
      (ins_entry (sint key) tid (concat (map entries (A @ t # B)))) ts (ks2 @ [hi])" "ps2 = map pid_of ts"
    "p \<notin> set (concat (map pids ts))" "unat p < length ps'" "length ps' \<le> length ps + Suc h" "length ps \<le> length ps'"
    "touched ps (ps'[unat p := b] @ bs) (pids (Node p ks (A @ t # B)))" "\<And>q. q \<in> set (concat (map pids ts)) \<Longrightarrow> unat q < length ps'"
    "sint key \<notin> fst ` set (concat (map entries (A @ t # B)))"
proof -
  obtain ts us where r: "regrown c ps ps' h lo hi (concat (map pids (A @ t # B))) (concat (map leaves (A @ t # B)))
      (ins_entry (sint key) tid (concat (map entries (A @ t # B)))) (A @ ts @ B) (ka @ us @ kb)"
    "grown t (Some x) ts us u" "p \<notin> set (concat (map pids (A @ ts @ B)))" "unat p < length ps'" "ps' ! unat p = ps ! unat p"
    "touched ps ps' (pids t)" "sint key \<notin> fst ` set (concat (map entries (A @ t # B)))" "length ps' \<le> length ps + Suc h"
    by (rule descent_regrown[OF d o])
  have dd: "ks @ [hi] = ka @ u # kb" "length ka = length A" using d by (auto simp: descent_def)
  have "ka = take (length A) ks"
    using arg_cong[OF dd(1), of "take (length A)"] dd(2) arg_cong[OF dd(1), of length] by simp
  moreover have "drop (length A) ks @ [hi] = u # kb"
    using arg_cong[OF dd(1), of "drop (length A)"] dd(2) arg_cong[OF dd(1), of length] by simp
  ultimately have us: "ka @ us @ kb = ks2 @ [hi]" using grown_keys(2)[OF r(2)] n(2) by simp
  have tc: "touched ps' (ps'[unat p := b] @ bs) [p]"
    using touched_trans[OF touched_update[of ps' p b] touched_append[of _ bs]] by simp
  have rg: "regrown c ps (ps'[unat p := b] @ bs) h lo hi (concat (map pids (A @ t # B))) (concat (map leaves (A @ t # B)))
      (ins_entry (sint key) tid (concat (map entries (A @ t # B)))) (A @ ts @ B) (ks2 @ [hi])"
    by (rule regrown_touch[OF r(1)[unfolded us] tc]) (use r(3) in auto)
  have "ps2 = map pid_of (A @ ts @ B)" using r(2) n(3) by (auto simp: grown_def)
  moreover have "unat q < length ps'" if "q \<in> set (concat (map pids (A @ ts @ B)))" for q
    using r(1) that stored_bound[of c ps' _ q] by (auto simp: regrown_def)
  moreover have "length ps \<le> length ps'" using r(6) by (simp add: touched_def)
  ultimately show thesis using that[OF rg] r(3,4,7,8) outcome_touched[OF r(6) tc] by blast
qed

lemma outcome_node:
  assumes d: "descent c h lo hi (sint key) ps p ks A t B ka l u kb"
    and o: "insert_outcome c ps ps' h l u t key tid (Inr (Some x))"
    and n: "inner_page c n ks2 ps2" "ks2 = take (length A) ks @ sint (sepKey x) # drop (length A) ks"
      "ps2 = take (Suc (length A)) (map pid_of (A @ t # B)) @ right x # drop (Suc (length A)) (map pid_of (A @ t # B))"
      "length ks2 < internalCap c"
  shows "insert_outcome c ps (ps'[unat p := n]) (Suc h) lo hi (Node p ks (A @ t # B)) key tid (Inr None)"
proof -
  obtain ts where r: "regrown c ps (ps'[unat p := n] @ []) h lo hi (concat (map pids (A @ t # B))) (concat (map leaves (A @ t # B)))
      (ins_entry (sint key) tid (concat (map entries (A @ t # B)))) ts (ks2 @ [hi])" "ps2 = map pid_of ts"
    "p \<notin> set (concat (map pids ts))" "unat p < length ps'" "length ps' \<le> length ps + Suc h"
    "touched ps (ps'[unat p := n] @ []) (pids (Node p ks (A @ t # B)))"
    "sint key \<notin> fst ` set (concat (map entries (A @ t # B)))"
    by (rule outcome_absorbed[OF d o n(1-3)])
  have "regrown c ps (ps'[unat p := n]) (Suc h) lo hi (p # concat (map pids (A @ t # B))) (concat (map leaves (A @ t # B)))
      (ins_entry (sint key) tid (concat (map entries (A @ t # B)))) [Node p ks2 ts] [hi]"
    by (rule regrown_node[OF r(1)[simplified append_Nil2] r(3)]) (use n r(2,4) in simp_all)
  then show ?thesis
    using r(5-7) by (intro insert_outcome_grown[where ts = "[Node p ks2 ts]" and us = "[hi]"]) (simp_all add: grown_def)
qed

lemma outcome_split:
  assumes d: "descent c h lo hi (sint key) ps p ks A t B ka l u kb"
    and o: "insert_outcome c ps ps' h l u t key tid (Inr (Some x))"
    and n: "inner_page c n ks2 ps2" "ks2 = take (length A) ks @ sint (sepKey x) # drop (length A) ks"
      "ps2 = take (Suc (length A)) (map pid_of (A @ t # B)) @ right x # drop (Suc (length A)) (map pid_of (A @ t # B))"
    and m: "m < length ks2" "length ks2 \<le> internalCap c" and y: "unat (right y) = length ps'" "sint (sepKey y) = ks2 ! m"
    and ab: "inner_page c b (take m ks2) (take (Suc m) ps2)" "inner_page c a (drop (Suc m) ks2) (drop (Suc m) ps2)"
  shows "insert_outcome c ps (ps'[unat p := b] @ [a]) (Suc h) lo hi (Node p ks (A @ t # B)) key tid (Inr (Some y))"
proof -
  obtain ts where r: "regrown c ps (ps'[unat p := b] @ [a]) h lo hi (concat (map pids (A @ t # B))) (concat (map leaves (A @ t # B)))
      (ins_entry (sint key) tid (concat (map entries (A @ t # B)))) ts (ks2 @ [hi])" "ps2 = map pid_of ts"
    "p \<notin> set (concat (map pids ts))" "unat p < length ps'" "length ps' \<le> length ps + Suc h" "length ps \<le> length ps'"
    "touched ps (ps'[unat p := b] @ [a]) (pids (Node p ks (A @ t # B)))" "\<And>q. q \<in> set (concat (map pids ts)) \<Longrightarrow> unat q < length ps'"
    "sint key \<notin> fst ` set (concat (map entries (A @ t # B)))"
    by (rule outcome_absorbed[OF d o n(1-3), where b = b and bs = "[a]"]) blast
  have q: "right y \<notin> set (concat (map pids ts))" "right y \<noteq> p" using r(4,8) y(1) by fastforce+
  have "regrown c ps (ps'[unat p := b] @ [a]) (Suc h) lo hi (p # concat (map pids (A @ t # B))) (concat (map leaves (A @ t # B)))
      (ins_entry (sint key) tid (concat (map entries (A @ t # B))))
      [Node p (take m ks2) (take (Suc m) ts), Node (right y) (drop (Suc m) ks2) (drop (Suc m) ts)] [ks2 ! m, hi]"
    by (rule regrown_split[OF r(1) m r(3) _ q(1) _ _ q(2)]) (use r(2,4,6) y(1) ab in \<open>simp_all add: nth_append\<close>)
  then show ?thesis
    using r(5,7,9) y(2) by (intro insert_outcome_grown[where us = "[ks2 ! m, hi]"]) (auto simp: grown_def)
qed

context btree_index
begin

text \<open>The end of a call in an internal node: the child's result is handed on, or its split is put into the node.\<close>

definition after_child :: "PageID \<Rightarrow> frameID \<Rightarrow> u16 \<Rightarrow> err + split option \<Rightarrow> 's \<Rightarrow> ((err + split option) \<times> 's) option" where
  "after_child p fp ci r sc = (case r of
      Inl e \<Rightarrow> do { (_, s) \<leftarrow> UnpinPage P sc p False; Some (Inl e, s) }
    | Inr None \<Rightarrow> do { (_, s) \<leftarrow> UnpinPage P sc p False; Some (Inr None, s) }
    | Inr (Some x) \<Rightarrow> do {
        n \<leftarrow> load P sc fp;
        n \<leftarrow> insertInternalAt c n ci (sepKey x) (right x);
        settle (full c n) (\<lambda>s. splitInternalNode P c s fp) p (store P sc fp n)
      })"

lemma absorb_split:
  assumes s: "ok s" "\<not> unsaved (view s) p" and d: "descent c h lo hi (sint key) (fpages (view s)) p ks A t B ka l u kb"
    and o: "insert_outcome c (fpages (view s)) ps' h l u t key tid (Inr (Some x))"
    and sc: "ok sc" "ptr sc p = Some fp" "\<And>q. 0 < held (view s) q \<Longrightarrow> ptr sc q = ptr s q"
      "view sc = view s\<lparr>fpages := ps', held := (held (view s))(p := Suc (held (view s) p))\<rparr>"
  shows "\<exists>r s' ps2. after_child p fp (of_nat (length A)) (Inr (Some x)) sc = Some (r, s') \<and> ok s' \<and> view s' = view s\<lparr>fpages := ps2\<rparr> \<and>
    insert_outcome c (fpages (view s)) ps2 (Suc h) lo hi (Node p ks (A @ t # B)) key tid r \<and>
    (\<forall>q. 0 < held (view s) q \<longrightarrow> ptr s' q = ptr s q) \<and>
    (calm sc \<and> 0 < room_of sc \<and> Suc (length ps') < 2 ^ 32 \<longrightarrow> calm s' \<and> (\<exists>y. r = Inr y))"
proof -
  let ?ps = "fpages (view s)" and ?t = "Node p ks (A @ t # B)"
  have r: "unat p < length ps'" "ps' ! unat p = ?ps ! unat p" by (rule descent_regrown[OF d o]; assumption)+
  have dd: "inner_page c (?ps ! unat p) ks (map pid_of (A @ t # B))" "length ks < internalCap c"
    "ks @ [hi] = ka @ u # kb" "length ka = length A" using d by (auto simp: descent_def)
  have le: "length A \<le> length ks" using dd(4) arg_cong[OF dd(3), of length] by simp
  define ks2 ps2 where "ks2 = take (length A) ks @ sint (sepKey x) # drop (length A) ks"
    and "ps2 = take (Suc (length A)) (map pid_of (A @ t # B)) @ right x # drop (Suc (length A)) (map pid_of (A @ t # B))"
  obtain n where n: "insertInternalAt c (?ps ! unat p) (of_nat (length A)) (sepKey x) (right x) = Some n" "inner_page c n ks2 ps2"
    using insertInternalAt_spec[OF dd(1) le dd(2), of "sepKey x" "right x"] by (auto simp: ks2_def ps2_def)
  note nd = inner_pageD[OF n(2)]
  have ld: "load P sc fp = Some (?ps ! unat p)" using load_ptr[OF sc(1,2)] sc(4) r by simp
  obtain w where s2: "ok (store P sc fp n)" "ptr (store P sc fp n) = ptr sc" "calm sc \<longrightarrow> calm (store P sc fp n)"
    "view (store P sc fp n) = view s\<lparr>fpages := ps'[unat p := n], held := (held (view s))(p := Suc (held (view s) p)),
      unsaved := (unsaved (view s))(p := w)\<rparr>" "room_of (store P sc fp n) = room_of sc"
    by (rule put_node[OF sc(1,2) nd(1) sc(4)])
  let ?m = "length ks2 div 2"
  let ?Q = "\<lambda>sep rpid b a. sep = ks2 ! ?m \<and> inner_page c b (take ?m ks2) (take (Suc ?m) ps2) \<and> inner_page c a (drop (Suc ?m) ks2) (drop (Suc ?m) ps2)"
  have ne: "ks2 \<noteq> []" "?m < length ks2" by (simp_all add: ks2_def)
  have tc: "touched ?ps ps' (pids t)" "length ps' \<le> length ?ps + Suc h" using o by (auto simp: insert_outcome_def)
  have "\<exists>r s' ps2. settle (full c n) (\<lambda>s. splitInternalNode P c s fp) p (store P sc fp n) = Some (r, s') \<and> ok s' \<and> view s' = view s\<lparr>fpages := ps2\<rparr> \<and>
    insert_outcome c ?ps ps2 (Suc h) lo hi ?t key tid r \<and> (\<forall>q. 0 < held (view s) q \<longrightarrow> ptr s' q = ptr s q) \<and>
    (calm (store P sc fp n) \<and> 0 < room_of (store P sc fp n) \<and> Suc (length (ps'[unat p := n])) < 2 ^ 32 \<longrightarrow> calm s' \<and> (\<exists>y. r = Inr y))"
  proof (rule settle_spec[OF s s2(1) _ s2(4), where Q = ?Q])
    show "insert_outcome c ?ps (ps'[unat p := n]) (Suc h) lo hi ?t key tid (Inr None)" if "\<not> full c n"
      by (rule outcome_node[OF d o n(2) ks2_def ps2_def]) (use that full_inner[OF nd(2), of c] nd(3) in simp)
    show "\<exists>r s3. splitInternalNode P c (store P sc fp n) fp = Some (r, s3) \<and> split_done (store P sc fp n) p ?Q r s3"
      by (rule splitInternalNode_spec[OF s2(1) _ _ _ ne(1) refl]) (use s2(2,4) sc(2) n(2) r(1) in auto)
    show "insert_outcome c ?ps (ps'[unat p := n]) (Suc h) lo hi ?t key tid (Inl e)" if "e \<noteq> ErrDuplicateKey" for e
      by (rule insert_outcome_error[OF outcome_touched[OF tc(1) touched_update] _ that]) (use tc(2) in simp)
    show "insert_outcome c ?ps (ps'[unat p := n, unat p := b] @ [a]) (Suc h) lo hi ?t key tid (Inr (Some y))"
      if "unat (right y) = length (ps'[unat p := n])" "?Q (sint (sepKey y)) (right y) b a" for y a b
      using outcome_split[OF d o n(2) ks2_def ps2_def ne(2) nd(4), of y b a] that by simp
  qed (use s2(2) sc(3) in auto)
  then show ?thesis using ld n(1) s2(3,5) by (auto simp: after_child_def)
qed

lemma after_child_spec:
  assumes s: "ok s" "\<not> unsaved (view s) p" and d: "descent c h lo hi (sint key) (fpages (view s)) p ks A t B ka l u kb"
    and o: "insert_outcome c (fpages (view s)) ps' h l u t key tid r"
    and sc: "ok sc" "ptr sc p = Some fp" "\<And>q. 0 < held (view s) q \<Longrightarrow> ptr sc q = ptr s q"
      "view sc = view s\<lparr>fpages := ps', held := (held (view s))(p := Suc (held (view s) p))\<rparr>"
  shows "\<exists>r' s' ps2. after_child p fp (of_nat (length A)) r sc = Some (r', s') \<and> ok s' \<and> view s' = view s\<lparr>fpages := ps2\<rparr> \<and>
    insert_outcome c (fpages (view s)) ps2 (Suc h) lo hi (Node p ks (A @ t # B)) key tid r' \<and>
    (\<forall>q. 0 < held (view s) q \<longrightarrow> ptr s' q = ptr s q) \<and>
    (calm sc \<and> 0 < room_of sc \<and> Suc (length ps') < 2 ^ 32 \<longrightarrow> calm s' \<and> (\<forall>e. r' = Inl e \<longrightarrow> r = Inl e))"
proof -
  let ?ps = "fpages (view s)"
  have v: "view sc = view s\<lparr>fpages := ps', held := (held (view s))(p := Suc (held (view s) p)), unsaved := (unsaved (view s))(p := False)\<rparr>"
    using sc(4) s(2) by (simp add: fun_upd_idem)
  obtain s2 where s2: "UnpinPage P sc p False = Some (Inr (), s2)" "ok s2" "view s2 = view s\<lparr>fpages := ps'\<rparr>"
    "calm sc \<Longrightarrow> calm s2" "\<And>q. 0 < held (view s) q \<Longrightarrow> ptr s2 q = ptr sc q"
    by (rule release[OF s(1) sc(1) s(2) _ v, of False]) auto
  consider e where "r = Inl e" | "r = Inr None" | x where "r = Inr (Some x)" by (metis option.exhaust sum.exhaust)
  then show ?thesis
  proof cases
    case (1 e)
    have "touched ?ps ps' (pids (Node p ks (A @ t # B)))"
      by (rule outcome_touched[OF _ touched_refl]) (use o in \<open>simp add: insert_outcome_def\<close>)
    then have "insert_outcome c ?ps ps' (Suc h) lo hi (Node p ks (A @ t # B)) key tid (Inl e)"
      using o 1 descent_entries[OF d] by (simp add: insert_outcome_def)
    then show ?thesis using 1 s2 sc(3) by (auto simp: after_child_def)
  next
    case 2
    have "insert_outcome c ?ps ps' (Suc h) lo hi (Node p ks (A @ t # B)) key tid (Inr None)"
      by (rule outcome_child[OF d]) (use o 2 in simp)
    then show ?thesis using 2 s2 sc(3) by (auto simp: after_child_def)
  next
    case (3 x)
    show ?thesis using absorb_split[OF s d _ sc, of tid x] o unfolding 3 by fastforce
  qed
qed

lemma insertInto_spec:
  assumes "ok s" "\<And>pid. \<not> unsaved (view s) pid" "aligned c h lo t hi" "stored c (fpages (view s)) t" "distinct (pids t)"
    "lo \<le> sint key" "sint key < hi"
  shows "\<exists>r s'. insertInto P c key tid (pid_of t) s = Some (r, s') \<and> inserts s h lo hi t key tid r s'"
  using assms
proof (induction h arbitrary: s t lo hi)
  case 0
  show ?case by (rule insert_leaf[OF "0.prems"(1-4,6,7)])
next
  case (Suc h)
  let ?ps = "fpages (view s)"
  obtain p ks A t' B ka v kb l where t: "t = Node p ks (A @ t' # B)" and d: "descent c h lo hi (sint key) ?ps p ks A t' B ka l v kb"
    and n: "unat p < length ?ps" "\<not> isLeaf (?ps ! unat p)" "childIndex (?ps ! unat p) key = Some (of_nat (length A))"
      "childAt c (?ps ! unat p) (of_nat (length A)) = Some (pid_of t')"
    by (rule descend_step[OF Suc.prems(3,4,6,7)]) (use Suc.prems(5) in \<open>auto simp: descent_def\<close>)
  from Suc.prems(1) n(1) show ?case
  proof (cases rule: pin_cases)
    case (failed e s')
    moreover have "insert_outcome c ?ps ?ps (Suc h) lo hi t key tid (Inl (Wrap ''nbtree: fetch page'' e))"
      by (rule insert_outcome_error) (simp_all add: ErrDuplicateKey_def)
    ultimately show ?thesis by (subst insertInto.simps) (auto simp: t inserts_def intro!: exI[of _ ?ps])
  next
    case (pinned fp s1)
    have "\<And>pid. \<not> unsaved (view s1) pid" "stored c (fpages (view s1)) t'" "distinct (pids t')" "aligned c h l t' v" "l \<le> sint key" "sint key < v"
      using Suc.prems(2,5) pinned(4) d t by (auto simp: descent_def)
    from Suc.IH[OF pinned(2) this(1,4,2,3,5,6)] obtain r sc ps' where
      child: "insertInto P c key tid (pid_of t') s1 = Some (r, sc)" "ok sc" "view sc = view s1\<lparr>fpages := ps'\<rparr>"
        "insert_outcome c ?ps ps' h l v t' key tid r" "\<forall>q. 0 < held (view s1) q \<longrightarrow> ptr sc q = ptr s1 q"
        "calm s1 \<and> h + 2 \<le> room_of s1 \<and> length ?ps + Suc h < 2 ^ 32 \<longrightarrow> calm sc \<and> (\<forall>e. r = Inl e \<longrightarrow> e = ErrDuplicateKey)"
      using pinned(4) by (auto simp: inserts_def)
    have sc: "ptr sc p = Some fp" "\<And>q. 0 < held (view s) q \<Longrightarrow> ptr sc q = ptr s q"
      "view sc = view s\<lparr>fpages := ps', held := (held (view s))(p := Suc (held (view s) p))\<rparr>" "room_of sc = room_of s1"
      using child(3,5) pinned(3,4,8) room_eq[OF pinned(2) child(2)] by auto
    obtain r' s' ps2 where a: "after_child p fp (of_nat (length A)) r sc = Some (r', s')" "ok s'" "view s' = view s\<lparr>fpages := ps2\<rparr>"
      "insert_outcome c ?ps ps2 (Suc h) lo hi t key tid r'" "\<forall>q. 0 < held (view s) q \<longrightarrow> ptr s' q = ptr s q"
      "calm sc \<and> 0 < room_of sc \<and> Suc (length ps') < 2 ^ 32 \<longrightarrow> calm s' \<and> (\<forall>e. r' = Inl e \<longrightarrow> r = Inl e)"
      using after_child_spec[OF Suc.prems(1,2) d child(4,2) sc(1-3)] unfolding t by blast
    have "insertInto P c key tid p s = Some (r', s')"
      using pinned(1,5) n child(1) a(1) by (subst insertInto.simps) (simp add: after_child_def settle_def Let_def split: sum.splits option.splits)
    moreover have "length ps' \<le> length ?ps + Suc h" using child(4) by (simp add: insert_outcome_def)
    ultimately show ?thesis using a(2-6) child(6) pinned(6,7) sc(4) by (auto simp: t inserts_def)
  qed
qed

end

subsection \<open>The root\<close>

lemma index_outcome:
  assumes i: "index_tree c ps h t" and o: "insert_outcome c ps ps' h (- (2 ^ 63)) (2 ^ 63) t key tid (Inr sp)"
  obtains ts us where "regrown c ps ps' h (- (2 ^ 63)) (2 ^ 63) (pids t) (leaves t) (ins_entry (sint key) tid (entries t)) ts us"
    "grown t sp ts us (2 ^ 63)" "0 \<notin> set (concat (map pids ts))" "ps' \<noteq> []" "ps' ! 0 = ps ! 0"
    "\<exists>p. linked p (concat (map leaves ts)) invalidPID"
proof -
  obtain ts us where r: "regrown c ps ps' h (- (2 ^ 63)) (2 ^ 63) (pids t) (leaves t) (ins_entry (sint key) tid (entries t)) ts us"
    "grown t sp ts us (2 ^ 63)" using o by (auto simp: insert_outcome_def)
  have t: "0 < length ps" "0 \<notin> set (pids t)" using i by (auto simp: index_tree_def)
  have "q \<noteq> 0" if "q \<in> set (concat (map pids ts))" for q
  proof -
    have "q \<in> set (pids t) \<or> length ps \<le> unat q" using r(1) that unfolding regrown_def by blast
    then show ?thesis using t by (metis le_zero_eq less_numeral_extra(3) unat_0)
  qed
  moreover have "unat (0 :: PageID) \<notin> unat ` set (pids t)" using t(2) by (auto simp: unsigned_eq_0_iff)
  then have "ps' \<noteq> []" "ps' ! 0 = ps ! 0" using o t(1) by (auto simp: insert_outcome_def touched_def)
  moreover have "\<exists>p. linked p (concat (map leaves ts)) invalidPID" using i r(1) unfolding index_tree_def regrown_def by blast
  ultimately show thesis using that[OF r] by blast
qed

lemma index_grown:
  assumes i: "index_tree c ps h t" and o: "insert_outcome c ps ps' h (- (2 ^ 63)) (2 ^ 63) t key tid (Inr None)"
  shows "\<exists>t'. index_tree c ps' h t' \<and> entries t' = ins_entry (sint key) tid (entries t)"
proof -
  obtain ts us where r: "regrown c ps ps' h (- (2 ^ 63)) (2 ^ 63) (pids t) (leaves t) (ins_entry (sint key) tid (entries t)) ts us"
    "grown t None ts us (2 ^ 63)" "0 \<notin> set (concat (map pids ts))" "ps' \<noteq> []" "ps' ! 0 = ps ! 0"
    "\<exists>p. linked p (concat (map leaves ts)) invalidPID" by (rule index_outcome[OF i o])
  obtain t' where "ts = [t']" "us = [2 ^ 63]" "pid_of t' = pid_of t" using r(2) by (auto simp: grown_def)
  then have "index_tree c ps' h t' \<and> entries t' = ins_entry (sint key) tid (entries t)"
    using i r(1,3-6) by (simp add: index_tree_def regrown_def)
  then show ?thesis by blast
qed

lemma index_new_root:
  assumes i: "index_tree c ps h t" and o: "insert_outcome c ps ps' h (- (2 ^ 63)) (2 ^ 63) t key tid (Inr (Some sp))"
    and pid: "unat pid = length ps'" and n: "inner_page c nr [sint (sepKey sp)] [pid_of t, right sp]" and cap: "1 < internalCap c"
  shows "\<exists>t'. index_tree c ((ps' @ [nr])[0 := meta_setRoot (ps ! 0) pid]) (Suc h) t' \<and>
    entries t' = ins_entry (sint key) tid (entries t)"
proof -
  let ?ps = "(ps' @ [nr])[0 := meta_setRoot (ps ! 0) pid]"
  obtain ts us where r: "regrown c ps ps' h (- (2 ^ 63)) (2 ^ 63) (pids t) (leaves t) (ins_entry (sint key) tid (entries t)) ts us"
    "grown t (Some sp) ts us (2 ^ 63)" "0 \<notin> set (concat (map pids ts))" "ps' \<noteq> []" "ps' ! 0 = ps ! 0"
    "\<exists>p. linked p (concat (map leaves ts)) invalidPID" by (rule index_outcome[OF i o])
  obtain l u where lu: "ts = [l, u]" "us = [sint (sepKey sp)] @ [2 ^ 63]" "map pid_of ts = [pid_of t, right sp]"
    using r(2) by (auto simp: grown_def)
  have "touched ps' ?ps ([] @ [0])" using touched_trans[OF touched_append touched_update[of _ 0]] by simp
  from regrown_touch[OF r(1) this] r(3)
  have rg: "regrown c ps ?ps h (- (2 ^ 63)) (2 ^ 63) (pids t) (leaves t) (ins_entry (sint key) tid (entries t)) ts
    ([sint (sepKey sp)] @ [2 ^ 63])" by (simp add: lu(2))
  have new: "pid \<notin> set (concat (map pids ts))" using r(1) pid stored_bound[of c ps' _ pid] by (auto simp: regrown_def)
  have pg: "unat pid < length ?ps" "?ps ! unat pid = nr" using pid r(4) by (simp_all add: nth_append)
  have "inner_page c (?ps ! unat pid) [sint (sepKey sp)] (map pid_of ts)" using n by (simp add: pg(2) lu(3))
  from regrown_node[OF rg new pg(1) this] cap
  have "regrown c ps ?ps (Suc h) (- (2 ^ 63)) (2 ^ 63) (pid # pids t) (leaves t) (ins_entry (sint key) tid (entries t))
    [Node pid [sint (sepKey sp)] ts] [2 ^ 63]" by simp
  moreover have "pid \<noteq> 0" using pid r(4) by auto
  ultimately have "index_tree c ?ps (Suc h) (Node pid [sint (sepKey sp)] ts) \<and>
    entries (Node pid [sint (sepKey sp)] ts) = ins_entry (sint key) tid (entries t)"
    using i r(3-6) meta_fields[of "ps ! 0" pid] unfolding index_tree_def regrown_def by (simp add: nth_append)
  then show ?thesis by blast
qed

context page_cache
begin

lemma setRoot_cases [consumes 3, case_names failed written]:
  assumes s: "ok s" and ne: "fpages (view s) \<noteq> []" and u: "\<And>pid. \<not> unsaved (view s) pid"
  obtains (failed) e s' where "setRoot P s pid = Some (Inl e, s')" "ok s'" "view s' = view s" "\<not> (calm s \<and> 0 < room_of s)"
      "e \<noteq> ErrDuplicateKey"
  | (written) s' where "setRoot P s pid = Some (Inr (), s')" "ok s'"
      "view s' = view s\<lparr>fpages := (fpages (view s))[0 := meta_setRoot (fpages (view s) ! 0) pid]\<rparr>"
      "calm s \<and> 0 < room_of s \<Longrightarrow> calm s'"
proof -
  let ?m = "fpages (view s) ! 0"
  have "unat metaPID < length (fpages (view s))" using ne by (simp add: metaPID_def)
  with s show thesis
  proof (cases rule: pin_cases)
    case (failed e s')
    then show thesis using that(1) by (simp add: setRoot_def ErrDuplicateKey_def)
  next
    case (pinned p s1)
    have len: "length (meta_setRoot ?m pid) = 8192" using page_size[OF s, of ?m] ne meta_fields(4)[of ?m pid] by simp
    have held: "0 < held (view s1) metaPID" using pinned(4) by simp
    obtain s2 where s2: "UnpinPage P (store P s1 p (meta_setRoot ?m pid)) metaPID True = Some (Inr (), s2)" "ok s2"
      "view s2 = view s1\<lparr>fpages := (fpages (view s1))[unat metaPID := meta_setRoot ?m pid],
         held := (held (view s1))(metaPID := held (view s1) metaPID - 1), unsaved := (unsaved (view s1))(metaPID := False)\<rparr>"
      "calm s1 \<Longrightarrow> calm s2"
      by (rule write_release[OF pinned(2,3) held len]) (rule that; simp)
    have "view s2 = view s\<lparr>fpages := (fpages (view s))[0 := meta_setRoot ?m pid]\<rparr>"
      using s2(3) pinned(4) u by (simp add: metaPID_def fun_upd_idem)
    moreover have "setRoot P s pid = Some (Inr (), s2)"
      using pinned(1,5) s2(1) by (simp add: setRoot_def metaPID_def)
    ultimately show thesis using s2(2,4) pinned(7) by (intro that(2)[of s2]) simp_all
  qed
qed

end

subsection \<open>The whole operation\<close>

definition insert_result :: "node_caps \<Rightarrow> page list \<Rightarrow> page list \<Rightarrow> nat \<Rightarrow> bt \<Rightarrow> int64 \<Rightarrow> TID \<Rightarrow> err + unit \<Rightarrow> bool" where
  "insert_result c ps ps' h t key tid r \<longleftrightarrow> (case r of
      Inl e \<Rightarrow> e = ErrDuplicateKey \<longrightarrow> sint key \<in> fst ` set (entries t) \<and> ps' = ps
    | Inr _ \<Rightarrow> sint key \<notin> fst ` set (entries t) \<and>
        (\<exists>h' t'. h \<le> h' \<and> h' \<le> Suc h \<and> length ps' \<le> length ps + h + 2 \<and>
           index_tree c ps' h' t' \<and> entries t' = ins_entry (sint key) tid (entries t)))"

context btree_index
begin

text \<open>The growth of the tree by one level, after the root page has split.\<close>

lemma grow_root:
  assumes s: "ok s" and u: "\<And>pid. \<not> unsaved (view s) pid" and i: "index_tree c ps h t"
    and o: "insert_outcome c ps (fpages (view s)) h (- (2 ^ 63)) (2 ^ 63) t key tid (Inr (Some sp))"
  shows "\<exists>r s' ps'. (do {
      (r, s) \<leftarrow> NewPage P s;
      case r of
        Inl e \<Rightarrow> Some (Inl (Wrap ''nbtree: new root'' e), s)
      | Inr (p, pid) \<Rightarrow> do {
          nr \<leftarrow> load P s p;
          nr \<leftarrow> setKeyAt (initInternal nr) 0 (sepKey sp);
          nr \<leftarrow> setChildAt c nr 0 (pid_of t);
          nr \<leftarrow> setChildAt c nr 1 (right sp);
          let s = store P s p (setKeyCount nr 1);
          (_, s) \<leftarrow> UnpinPage P s pid True;
          setRoot P s pid
        } }) = Some (r, s') \<and> ok s' \<and> view s' = view s\<lparr>fpages := ps'\<rparr> \<and> insert_result c ps ps' h t key tid r \<and>
    (calm s \<and> 0 < room_of s \<and> Suc (length (fpages (view s))) < 2 ^ 32 \<longrightarrow> calm s' \<and> r = Inr ())"
proof -
  let ?ps = "fpages (view s)"
  have cap: "1 < internalCap c" using caps_ok by (simp add: caps_ok_def)
  obtain r1 s1 where n: "NewPage P s = Some (r1, s1)" using new_total[OF s] by blast
  have calm1: "(\<exists>x. r1 = Inr x) \<and> calm s1" if "calm s \<and> 0 < room_of s \<and> Suc (length ?ps) < 2 ^ 32"
    using new_calm[OF s _ _ _ n] that by simp
  show ?thesis
  proof (cases r1)
    case (Inl e)
    have "insert_result c ps ?ps h t key tid (Inl (Wrap ''nbtree: new root'' e))" by (simp add: insert_result_def ErrDuplicateKey_def)
    then show ?thesis using n Inl new_err[OF s, of e s1] calm1 by (auto intro!: exI[of _ ?ps])
  next
    case (Inr x)
    obtain p pid where x: "x = (p, pid)" by (cases x)
    note nw = new_page_write[OF s n[unfolded Inr x]] and n1 = new_ok[OF s n[unfolded Inr x]]
    obtain m1 m2 m3 where m: "setKeyAt (initInternal NewPage_frame) 0 (sepKey sp) = Some m1" "setChildAt c m1 0 (pid_of t) = Some m2"
      "setChildAt c m2 1 (right sp) = Some m3" "length (setKeyCount m3 1) = 8192"
      "inner_page c (setKeyCount m3 1) [sint (sepKey sp)] [pid_of t, right sp]"
      by (rule new_root_page[OF length_NewPage_frame])
    have same: "store P s1 p NewPage_frame = s1" using store_same[of s1 pid p] n1 by (simp add: nth_append)
    obtain s2 where s2: "UnpinPage P (store P s1 p (setKeyCount m3 1)) pid True = Some (Inr (), s2)" "ok s2"
      "view s2 = view s\<lparr>fpages := ?ps @ [setKeyCount m3 1]\<rparr>" "calm s1 \<longrightarrow> calm s2"
      using nw(4)[OF length_NewPage_frame m(4)] unfolding same by blast
    have rm: "room_of s2 = room_of s" by (rule room_eq[OF s s2(2)]) (use s2(3) in simp_all)
    have u2: "\<not> unsaved (view s2) q" and ne: "fpages (view s2) \<noteq> []" for q using u s2(3) by simp_all
    have ps: "?ps \<noteq> []" "?ps ! 0 = ps ! 0" by (rule index_outcome[OF i o]; assumption)+
    have len: "length ?ps \<le> length ps + Suc h" using o by (simp add: insert_outcome_def)
    from s2(2) ne u2 show ?thesis
    proof (cases rule: setRoot_cases[of _ pid])
      case (failed e s3)
      have "insert_result c ps (?ps @ [setKeyCount m3 1]) h t key tid (Inl e)" using failed(5) by (simp add: insert_result_def)
      then show ?thesis using n Inr x nw(2) m(1-3) s2 failed calm1 rm by (auto simp: Let_def)
    next
      case (written s3)
      let ?ps' = "(?ps @ [setKeyCount m3 1])[0 := meta_setRoot (ps ! 0) pid]"
      have v3: "view s3 = view s\<lparr>fpages := ?ps'\<rparr>" using written(3) s2(3) ps by (simp add: nth_append)
      have "sint key \<notin> fst ` set (entries t)" using o by (simp add: insert_outcome_def)
      then have "insert_result c ps ?ps' h t key tid (Inr ())"
        using index_new_root[OF i o nw(1) m(5) cap] len unfolding insert_result_def by (auto intro!: exI[of _ "Suc h"])
      then show ?thesis using n Inr x nw(2) m(1-3) s2(1,4) written(1,2,4) v3 calm1 rm by (auto simp: Let_def)
    qed
  qed
qed

lemma Insert_spec:
  assumes s: "ok s" and u: "\<And>pid. \<not> unsaved (view s) pid" and i: "index_tree c (fpages (view s)) h t"
  shows "\<exists>r s' ps'. Insert P c s key tid = Some (r, s') \<and> ok s' \<and> view s' = view s\<lparr>fpages := ps'\<rparr> \<and>
    insert_result c (fpages (view s)) ps' h t key tid r \<and>
    (calm s \<and> h + 2 \<le> room_of s \<and> length (fpages (view s)) + h + 2 < 2 ^ 32 \<longrightarrow>
       calm s' \<and> (r = Inr () \<or> r = Inl ErrDuplicateKey))"
proof -
  let ?ps = "fpages (view s)"
  have t: "?ps \<noteq> []" "meta_root (?ps ! 0) = pid_of t" "aligned c h (- (2 ^ 63)) t (2 ^ 63)" "stored c ?ps t"
    "distinct (pids t)" using i by (auto simp: index_tree_def)
  from s t(1) show ?thesis
  proof (cases rule: root_cases)
    case (failed e s')
    then show ?thesis by (auto simp: Insert_def insert_result_def intro!: exI[of _ ?ps])
  next
    case (read s1)
    have "\<And>pid. \<not> unsaved (view s1) pid" "stored c (fpages (view s1)) t" using u t(4) read(3) by simp_all
    from insertInto_spec[OF read(2) this(1) t(3) this(2) t(5) int64_band(1)[of key] int64_band(2)[of key], of tid]
    obtain r s2 ps2 where ins: "insertInto P c key tid (pid_of t) s1 = Some (r, s2)" "ok s2" "view s2 = view s\<lparr>fpages := ps2\<rparr>"
      "insert_outcome c ?ps ps2 h (- (2 ^ 63)) (2 ^ 63) t key tid r"
      "calm s1 \<and> h + 2 \<le> room_of s1 \<and> length ?ps + Suc h < 2 ^ 32 \<longrightarrow> calm s2 \<and> (\<forall>e. r = Inl e \<longrightarrow> e = ErrDuplicateKey)"
      using read(3) by (auto simp: inserts_def)
    have rm: "room_of s2 = room_of s" by (rule room_eq[OF s ins(2)]) (use ins(3) in simp_all)
    have calm2: "calm s2 \<and> (\<forall>e. r = Inl e \<longrightarrow> e = ErrDuplicateKey) \<and> 0 < room_of s2 \<and> Suc (length ps2) < 2 ^ 32"
      if "calm s \<and> h + 2 \<le> room_of s \<and> length ?ps + h + 2 < 2 ^ 32"
      using that ins(4,5) read(4,5) rm by (auto simp: insert_outcome_def)
    note run = read(1) ins(1) t(2)
    show ?thesis
    proof (cases r)
      case (Inl e)
      have "insert_result c ?ps ps2 h t key tid (Inl e)" using ins(4) Inl by (simp add: insert_result_def insert_outcome_def)
      then show ?thesis using run Inl ins(2,3) calm2 by (auto simp: Insert_def)
    next
      case (Inr sp)
      show ?thesis
      proof (cases sp)
        case None
        have "insert_result c ?ps ps2 h t key tid (Inr ())"
          using index_grown[OF i, of ps2 key tid] ins(4) Inr None by (auto simp: insert_result_def insert_outcome_def)
        then show ?thesis using run Inr None ins(2,3) calm2 by (auto simp: Insert_def)
      next
        case (Some x)
        have u2: "\<And>pid. \<not> unsaved (view s2) pid" using u ins(3) by simp
        have o: "insert_outcome c ?ps (fpages (view s2)) h (- (2 ^ 63)) (2 ^ 63) t key tid (Inr (Some x))"
          using ins(3,4) Inr Some by simp
        from grow_root[OF ins(2) u2 i o] show ?thesis using run Inr Some ins(3) calm2 by (auto simp: Insert_def)
      qed
    qed
  qed
qed

end

end
