(* ===== verification/BTree_Correct.thy ===== *)
theory BTree_Correct
  imports BTree_Insert
begin

text \<open>
  Opening an index, and the properties of the whole B+ tree: the facts of the locale \<open>btree_index\<close> for
  the real buffer pool over the real disk manager, stated over the map from keys to TIDs that the pages
  of an index file represent.
\<close>

subsection \<open>Opening an index\<close>

lemma empty_index:
  assumes "btree_caps c" "length m = 8192" "length n = 8192"
  shows "index_tree c [meta_setRoot (meta_setMagic m metaMagic) 1, initLeaf n] 0 (Leaf 1 [] invalidPID)"
proof -
  have "leaf_page c (initLeaf n) [] 0" by (rule btree_caps.initLeaf_page[OF assms(1,3)])
  moreover have "0 < leafCap c" using btree_caps.caps_ok[OF assms(1)] by (simp add: caps_ok_def)
  moreover have "linked 1 [(1, [], invalidPID)] invalidPID" by simp
  ultimately show ?thesis
    using meta_fields[of m] meta_fields[of "meta_setMagic m metaMagic"] assms(2)
    by (simp add: index_tree_def invalidPID_def)
qed

context page_cache
begin

lemma new_sibling_load:
  assumes s: "ok s" and np: "ptr s pid = Some np" "0 < held (view s) pid"
    and n: "NewPage P s = Some (Inr (rp, rpid), s1)" and a: "length a = 8192"
  shows "load P (store P s1 rp a) np = Some (fpages (view s) ! unat pid)"
proof -
  have v1: "view s1 = view s\<lparr>fpages := fpages (view s) @ [NewPage_frame], held := (held (view s))(rpid := 1)\<rparr>"
    and rpid: "unat rpid = length (fpages (view s))" and ptr: "ptr s1 rpid = Some rp" and ok1: "ok s1"
    using new_ok[OF s n] by auto
  have pid: "unat pid < length (fpages (view s))" by (rule held_page[OF s np(2)])
  then have ne: "rpid \<noteq> pid" using rpid by auto
  obtain u where s2: "ok (store P s1 rp a)" "ptr (store P s1 rp a) = ptr s1"
    "view (store P s1 rp a) = view s1\<lparr>fpages := fpages (view s) @ [a], unsaved := (unsaved (view s1))(rpid := u)\<rparr>"
    using store_ptr[OF ok1 ptr _ a] v1 rpid by auto
  have "ptr (store P s1 rp a) pid = Some np" using s2(2) new_ptr[OF s n np(2)] np(1) by simp
  from load_ptr[OF s2(1) this] s2(3) v1 ne np(2) pid show ?thesis by (simp add: nth_append)
qed

end

context btree_index
begin

text \<open>Writing the two pages of an empty index: the root leaf, then the meta page.\<close>

lemma bootstrap_write:
  assumes s: "ok s" "\<not> unsaved (view s) 0" and s1: "ok s1" "ptr s1 0 = Some mp"
    and v1: "view s1 = view s\<lparr>fpages := [NewPage_frame], held := (held (view s))(0 := Suc (held (view s) 0)), unsaved := (unsaved (view s))(0 := False)\<rparr>"
    and n: "NewPage P s1 = Some (Inr (rp, rpid), s2)"
  defines "leaf0 \<equiv> initLeaf NewPage_frame" and "meta0 \<equiv> meta_setRoot (meta_setMagic NewPage_frame metaMagic) 1"
  shows "rpid = 1" "load P s2 rp = Some NewPage_frame" "load P (store P s2 rp leaf0) mp = Some NewPage_frame"
    "\<exists>s3 s4. UnpinPage P (store P (store P s2 rp leaf0) mp meta0) 1 True = Some (Inr (), s3) \<and> UnpinPage P s3 0 True = Some (Inr (), s4) \<and>
      ok s4 \<and> (calm s2 \<longrightarrow> calm s4) \<and> view s4 = view s\<lparr>fpages := [meta0, leaf0]\<rparr>"
proof -
  have h1: "0 < held (view s1) 0" using v1 by simp
  note sib = new_sibling[OF s1(1,2) h1 n]
  show rpid: "rpid = 1" using sib(1) v1 by (simp add: word_unat_eq_iff)
  show "load P s2 rp = Some NewPage_frame" by (rule sib(2))
  have len: "length leaf0 = 8192" "length meta0 = 8192"
    using init_header(1)[OF length_NewPage_frame] meta_fields[of NewPage_frame] meta_fields[of "meta_setMagic NewPage_frame metaMagic"]
    by (simp_all add: initLeaf_def leaf0_def meta0_def)
  show "load P (store P s2 rp leaf0) mp = Some NewPage_frame" using new_sibling_load[OF s1(1,2) h1 n len(1)] v1 by simp
  obtain s3 u where s3: "UnpinPage P (store P (store P s2 rp leaf0) mp meta0) 1 True = Some (Inr (), s3)" "ok s3"
    "view s3 = view s1\<lparr>fpages := [meta0, leaf0], unsaved := (unsaved (view s1))(0 := u)\<rparr>" "calm s2 \<longrightarrow> calm s3"
    using sib(4)[OF len] v1 unfolding rpid by auto
  have v3: "view s3 = view s\<lparr>fpages := [meta0, leaf0], held := (held (view s))(0 := Suc (held (view s) 0)), unsaved := (unsaved (view s))(0 := u)\<rparr>"
    using s3(3) v1 by simp
  obtain s4 where "UnpinPage P s3 0 True = Some (Inr (), s4)" "ok s4" "view s4 = view s\<lparr>fpages := [meta0, leaf0]\<rparr>" "calm s3 \<Longrightarrow> calm s4"
    by (rule release[OF s(1) s3(2) s(2) _ v3, of True]) auto
  then show "\<exists>s3 s4. UnpinPage P (store P (store P s2 rp leaf0) mp meta0) 1 True = Some (Inr (), s3) \<and> UnpinPage P s3 0 True = Some (Inr (), s4) \<and>
      ok s4 \<and> (calm s2 \<longrightarrow> calm s4) \<and> view s4 = view s\<lparr>fpages := [meta0, leaf0]\<rparr>" using s3(1,4) by blast
qed

lemma bootstrap_spec:
  assumes s: "ok s" and e: "fpages (view s) = []"
  shows "\<exists>r s' ps'. bootstrap P s = Some (r, s') \<and> ok s' \<and> view s' = view s\<lparr>fpages := ps'\<rparr> \<and>
    (case r of Inl _ \<Rightarrow> ps' = [] \<or> ps' = [NewPage_frame] | Inr _ \<Rightarrow> length ps' = 2 \<and> index_tree c ps' 0 (Leaf 1 [] invalidPID)) \<and>
    (calm s \<and> 2 \<le> room_of s \<longrightarrow> calm s' \<and> r = Inr ())"
proof -
  obtain r1 s1 where n: "NewPage P s = Some (r1, s1)" using new_total[OF s] by blast
  have calm1: "(\<exists>x. r1 = Inr x) \<and> calm s1" if "calm s \<and> 2 \<le> room_of s" using new_calm[OF s _ _ _ n] that e by simp
  show ?thesis
  proof (cases r1)
    case (Inl x)
    then show ?thesis using n new_err[OF s, of x s1] calm1 by (auto simp: bootstrap_def intro!: exI[of _ "[]"] simp flip: e)
  next
    case (Inr x)
    obtain mp mpid where x: "x = (mp, mpid)" by (cases x)
    note n1 = new_ok[OF s n[unfolded Inr x]]
    have mpid: "mpid = 0" using n1 e by (simp add: unsigned_eq_0_iff)
    have h0: "held (view s) 0 = 0" "\<not> unsaved (view s) 0" using held_page[OF s, of 0] unsaved_held[OF s, of 0] e by auto
    have v1: "view s1 = view s\<lparr>fpages := [NewPage_frame], held := (held (view s))(0 := Suc (held (view s) 0)),
        unsaved := (unsaved (view s))(0 := False)\<rparr>" using n1 e mpid h0 by (simp add: fun_upd_idem)
    have rm: "room_of s1 + 1 = room_of s" using room_held[OF s, of s1 0 1] n1 h0 by (simp add: mpid)
    obtain r2 s2 where n2: "NewPage P s1 = Some (r2, s2)" using new_total n1 by blast
    have calm2: "(\<exists>x. r2 = Inr x) \<and> calm s2" if "calm s \<and> 2 \<le> room_of s"
      using new_calm[of s1, OF _ _ _ _ n2] calm1[OF that] that v1 n1 rm by simp
    show ?thesis
    proof (cases r2)
      case (Inl y)
      have e2: "ok s2" "view s2 = view s1" using new_err[of s1 y s2] n1 n2 Inl by auto
      obtain s3 where "UnpinPage P s2 0 False = Some (Inr (), s3)" "ok s3" "view s3 = view s\<lparr>fpages := [NewPage_frame]\<rparr>"
        by (rule release[OF s e2(1) h0(2) _ e2(2)[unfolded v1], of False]) auto
      then show ?thesis using n Inr x n2 Inl mpid calm2 by (auto simp: bootstrap_def)
    next
      case (Inr y)
      obtain rp rpid where y: "y = (rp, rpid)" by (cases y)
      have "ptr s1 0 = Some mp" "ok s1" using n1 mpid by auto
      note w = bootstrap_write[OF s h0(2) this(2,1) v1 n2[unfolded Inr y]]
      obtain s3 s4 where "UnpinPage P (store P (store P s2 rp (initLeaf NewPage_frame)) mp (meta_setRoot (meta_setMagic NewPage_frame metaMagic) 1)) 1 True = Some (Inr (), s3)"
        "UnpinPage P s3 0 True = Some (Inr (), s4)" "ok s4" "calm s2 \<longrightarrow> calm s4"
        "view s4 = view s\<lparr>fpages := [meta_setRoot (meta_setMagic NewPage_frame metaMagic) 1, initLeaf NewPage_frame]\<rparr>"
        using w(4) by blast
      moreover note empty_index[OF btree_caps_axioms length_NewPage_frame length_NewPage_frame]
      ultimately show ?thesis using n \<open>r1 = _\<close> x n2 Inr y w(1-3) mpid calm2 by (auto simp: bootstrap_def Let_def)
    qed
  qed
qed

end

context btree_index
begin

lemma NewBTree_spec:
  assumes s: "ok s"
  shows "\<exists>r s' ps'. NewBTree P s = Some (r, s') \<and> ok s' \<and> view s' = view s\<lparr>fpages := ps'\<rparr> \<and>
    (if fpages (view s) = [] then
       (case r of Inl _ \<Rightarrow> ps' = [] \<or> ps' = [NewPage_frame] | Inr _ \<Rightarrow> length ps' = 2 \<and> index_tree c ps' 0 (Leaf 1 [] invalidPID)) \<and>
       (calm s \<and> 2 \<le> room_of s \<longrightarrow> calm s' \<and> r = Inr ())
     else ps' = fpages (view s) \<and> (r = Inr () \<longrightarrow> meta_magic (ps' ! 0) = metaMagic) \<and>
       (calm s \<and> 0 < room_of s \<longrightarrow> calm s' \<and> r = (if meta_magic (ps' ! 0) = metaMagic then Inr ()
          else Inl (Errorf ''nbtree: not an index file (bad magic)''))))"
proof (cases "fpages (view s) = []")
  case True
  then have "NumPages P s = Some 0" using num_pages_ok[OF s] by (auto simp: unsigned_eq_0_iff)
  then have "NewBTree P s = bootstrap P s" by (simp add: NewBTree_def)
  then show ?thesis using bootstrap_spec[OF s True] True by simp
next
  case False
  obtain n where n: "NumPages P s = Some n" "n \<noteq> 0" using num_pages_ok[OF s] False by (metis length_0_conv unat_0)
  have "unat metaPID < length (fpages (view s))" using False by (simp add: metaPID_def)
  with s show ?thesis
  proof (cases rule: read_cases)
    case (failed e s')
    then show ?thesis using n False by (auto simp: NewBTree_def intro!: exI[of _ "fpages (view s)"])
  next
    case (served p s1 s2)
    then show ?thesis using n False by (auto simp: NewBTree_def metaPID_def intro!: exI[of _ "fpages (view s)"])
  qed
qed

text \<open>Over the map an index represents.\<close>

lemma sint_keys: "map_of (entries t) (sint (k :: int64)) \<noteq> None \<longleftrightarrow> sint k \<in> fst ` set (entries t)"
  by (simp add: map_of_eq_None_iff)

lemma Search_map:
  assumes s: "ok s" and i: "index_map c (fpages (view s)) h m"
  shows "\<exists>r s'. Search P c s key = Some (r, s') \<and> ok s' \<and> view s' = view s \<and>
    (\<forall>x. r = Inr x \<longrightarrow> x = (case m key of None \<Rightarrow> (TID 0 0, False) | Some tid \<Rightarrow> (tid, True))) \<and>
    (calm s \<and> 0 < room_of s \<longrightarrow> calm s' \<and> (\<exists>x. r = Inr x))"
proof -
  obtain t where t: "index_tree c (fpages (view s)) h t" "m = (\<lambda>k. map_of (entries t) (sint k))"
    using i by (auto simp: index_map_def)
  show ?thesis using Search_spec[OF s t(1), of key] by (simp add: t(2) answer_def)
qed

lemma Insert_map:
  assumes s: "ok s" and u: "\<And>pid. \<not> unsaved (view s) pid" and i: "index_map c (fpages (view s)) h m"
  shows "\<exists>r s' ps'. Insert P c s key tid = Some (r, s') \<and> ok s' \<and> view s' = view s\<lparr>fpages := ps'\<rparr> \<and>
    (r = Inr () \<longrightarrow> m key = None \<and> (\<exists>h'. h' \<le> Suc h \<and> index_map c ps' h' (m(key \<mapsto> tid)))) \<and>
    (r = Inl ErrDuplicateKey \<longrightarrow> m key \<noteq> None \<and> ps' = fpages (view s)) \<and>
    (calm s \<and> h + 2 \<le> room_of s \<and> length (fpages (view s)) + h + 2 < 2 ^ 32 \<longrightarrow>
       calm s' \<and> r = (if m key = None then Inr () else Inl ErrDuplicateKey))"
proof -
  obtain t where t: "index_tree c (fpages (view s)) h t" "m = (\<lambda>k. map_of (entries t) (sint k))"
    using i by (auto simp: index_map_def)
  obtain r s' ps' where I: "Insert P c s key tid = Some (r, s')" "ok s'" "view s' = view s\<lparr>fpages := ps'\<rparr>"
    "insert_result c (fpages (view s)) ps' h t key tid r"
    "calm s \<and> h + 2 \<le> room_of s \<and> length (fpages (view s)) + h + 2 < 2 ^ 32 \<longrightarrow>
       calm s' \<and> (r = Inr () \<or> r = Inl ErrDuplicateKey)"
    using Insert_spec[OF s u t(1), of key tid] by blast
  have mk: "m key \<noteq> None \<longleftrightarrow> sint key \<in> fst ` set (entries t)" unfolding t(2) by (rule sint_keys)
  have ok: "m key = None \<and> (\<exists>h'. h' \<le> Suc h \<and> index_map c ps' h' (m(key \<mapsto> tid)))" if r: "r = Inr ()"
  proof -
    obtain h' t' where h': "h' \<le> Suc h" "index_tree c ps' h' t'" "entries t' = ins_entry (sint key) tid (entries t)"
      and new: "sint key \<notin> fst ` set (entries t)"
      using I(4) r by (auto simp: insert_result_def)
    have "m(key \<mapsto> tid) = (\<lambda>k. map_of (entries t') (sint k))"
      using ins_entry_map_of[OF new, of tid] by (auto simp: t(2) h'(3) fun_eq_iff signed_word_eqI)
    then show ?thesis using h'(1,2) new mk by (auto simp: index_map_def)
  qed
  have dup: "m key \<noteq> None \<and> ps' = fpages (view s)" if "r = Inl ErrDuplicateKey"
    using I(4) that mk by (simp add: insert_result_def)
  have "r = (if m key = None then Inr () else Inl ErrDuplicateKey)" if "r = Inr () \<or> r = Inl ErrDuplicateKey"
    using that ok dup by auto
  then show ?thesis using I(1-3,5) ok dup by blast
qed

text \<open>When the root has split and the page for a new root cannot be had, the meta page goes on to name the left half.\<close>

lemma failed_growth:
  assumes s: "ok s" "\<And>pid. \<not> unsaved (view s) pid" "index_map c (fpages (view s)) h m"
    and r: "root P s = Some (Inr rt, s1)" "insertInto P c key tid rt s1 = Some (Inr (Some sp), s2)" "NewPage P s2 = Some (Inl e, s3)"
  shows "Insert P c s key tid = Some (Inl (Wrap ''nbtree: new root'' e), s3)"
    "calm s3 \<Longrightarrow> 0 < room_of s3 \<Longrightarrow> \<exists>s4. Search P c s3 k = Some (Inr (
       case if sint k < sint (sepKey sp) then (m(key \<mapsto> tid)) k else None of None \<Rightarrow> (TID 0 0, False) | Some t \<Rightarrow> (t, True)), s4)"
proof -
  let ?ps = "fpages (view s)"
  show "Insert P c s key tid = Some (Inl (Wrap ''nbtree: new root'' e), s3)" by (simp add: Insert_def r)
  obtain t where i: "index_tree c ?ps h t" and m: "m = (\<lambda>k. map_of (entries t) (sint k))" using s(3) by (auto simp: index_map_def)
  have t: "?ps \<noteq> []" "meta_root (?ps ! 0) = pid_of t" "aligned c h (- (2 ^ 63)) t (2 ^ 63)" "stored c ?ps t" "distinct (pids t)"
    using i by (auto simp: index_tree_def)
  have 1: "rt = pid_of t" "ok s1" "view s1 = view s" using s(1) t(1) by (cases rule: root_cases; use r(1) t(2) in simp)+
  have "\<And>pid. \<not> unsaved (view s1) pid" "stored c (fpages (view s1)) t" using s(2) t(4) 1(3) by simp_all
  from insertInto_spec[OF 1(2) this(1) t(3) this(2) t(5) int64_band(1)[of key] int64_band(2)[of key], of tid]
  obtain ps2 where 2: "ok s2" "view s2 = view s\<lparr>fpages := ps2\<rparr>" "insert_outcome c ?ps ps2 h (- (2 ^ 63)) (2 ^ 63) t key tid (Inr (Some sp))"
    using r(2) 1 by (auto simp: inserts_def)
  have 3: "ok s3" "fpages (view s3) = ps2" using new_err[OF 2(1) r(3)] 2(2) by simp_all
  obtain ts us where g: "regrown c ?ps ps2 h (- (2 ^ 63)) (2 ^ 63) (pids t) (leaves t) (ins_entry (sint key) tid (entries t)) ts us"
    "grown t (Some sp) ts us (2 ^ 63)" "ps2 \<noteq> []" "ps2 ! 0 = ?ps ! 0" by (rule index_outcome[OF i 2(3)])
  obtain l u where lu: "ts = [l, u]" "us = [sint (sepKey sp), 2 ^ 63]" "pid_of l = pid_of t" using g(2) by (auto simp: grown_def)
  have al: "aligned c h (- (2 ^ 63)) l (sint (sepKey sp))" "aligned c h (sint (sepKey sp)) u (2 ^ 63)" "stored c ps2 l"
    "entries l @ entries u = ins_entry (sint key) tid (entries t)" using g(1) lu by (auto simp: regrown_def)
  have "sint key \<notin> fst ` set (entries t)" using 2(3) by (simp add: insert_outcome_def)
  from ins_entry_map_of[OF this, of tid]
  have "(m(key \<mapsto> tid)) k = map_of (entries l @ entries u) (sint k)" by (auto simp: m al(4) signed_word_eqI)
  moreover have "map_of (entries u) (sint k) = None" if "sint k < sint (sepKey sp)"
    by (rule map_of_outside) (use aligned_band[OF al(2), of "sint k"] that in auto)
  moreover have "map_of (entries l) (sint k) = None" if "\<not> sint k < sint (sepKey sp)"
    by (rule map_of_outside) (use aligned_band[OF al(1), of "sint k"] that in auto)
  ultimately have a: "map_of (entries l) (sint k) = (if sint k < sint (sepKey sp) then (m(key \<mapsto> tid)) k else None)"
    by (auto simp: map_add_def split: option.split)
  have wide: "aligned c h (- (2 ^ 63)) l (2 ^ 63)" by (rule aligned_widen[OF al(1)]) (use aligned_less[OF al(2)] in simp)
  assume q: "calm s3" "0 < room_of s3"
  have "fpages (view s3) \<noteq> []" using g(3) 3(2) by simp
  with 3(1) show "\<exists>s4. Search P c s3 k = Some (Inr (
       case if sint k < sint (sepKey sp) then (m(key \<mapsto> tid)) k else None of None \<Rightarrow> (TID 0 0, False) | Some t \<Rightarrow> (t, True)), s4)"
  proof (cases rule: root_cases)
    case (read s4)
    have "stored c (fpages (view s4)) l" using read(3) 3(2) al(3) by simp
    from search_from_spec[OF read(2) wide this int64_band(1)[of k] int64_band(2)[of k]]
    show ?thesis using read q 3(2) g(4) t(2) lu(3) by (auto simp: Search_def answer_def a)
  qed (use q in simp)
qed

lemma Scan_map:
  assumes s: "ok s" and i: "index_map c (fpages (view s)) h m"
  shows "\<exists>r s' acc' xs. Scan P c s lo hi fn acc = Some (r, s', acc') \<and> ok s' \<and> view s' = view s \<and>
    sorted_wrt (\<lambda>a b. sint a < sint b) (map fst xs) \<and>
    (\<forall>k tid. (k, tid) \<in> set xs \<longleftrightarrow> sint lo \<le> sint k \<and> sint k \<le> sint hi \<and> m k = Some tid) \<and>
    ((r, acc') = visit fn xs acc \<or> \<not> (calm s \<and> 0 < room_of s) \<and> (\<exists>e. r = Inl e))"
proof -
  obtain t where t: "index_tree c (fpages (view s)) h t" "m = (\<lambda>k. map_of (entries t) (sint k))"
    using i by (auto simp: index_map_def)
  let ?E = "filter (\<lambda>e. sint lo \<le> fst e) (entries t)"
  have al: "aligned c h (- (2 ^ 63)) t (2 ^ 63)" using t(1) by (simp add: index_tree_def)
  note so = aligned_sorted[OF al]
  have "signed_take_bit 63 k = k" if "- (2 ^ 63) \<le> k" "k < 2 ^ 63" for k :: int
    using that by (intro signed_take_bit_int_eq_self) simp_all
  then have band: "sint (word_of_int k :: int64) = k" if "k \<in> fst ` set (entries t)" for k
    using aligned_band[OF al that] by (simp add: sint_sbintrunc')
  have pairs: "(word_of_int k, tid) \<in> set (upto_hi (sint hi) ?E) \<longleftrightarrow> sint lo \<le> k \<and> k \<le> sint hi \<and> (k, tid) \<in> set (entries t)"
    if "sint (word_of_int k :: int64) = k" for k tid
    using that band by (force simp: upto_hi_def)
  have "distinct (map fst (entries t))" using so strict_sorted_iff by blast
  then have mem: "(k, tid) \<in> set (upto_hi (sint hi) ?E) \<longleftrightarrow> sint lo \<le> sint k \<and> sint k \<le> sint hi \<and> m k = Some tid" for k tid
    using pairs[of "sint k" tid] by (simp add: t(2))
  have "sorted_wrt (\<lambda>a b. fst a < fst b) (filter (\<lambda>e. fst e \<le> sint hi) ?E)"
    using so by (simp add: sorted_wrt_map sorted_wrt_filter)
  then have "sorted_wrt (\<lambda>a b. sint (word_of_int (fst a) :: int64) < sint (word_of_int (fst b) :: int64)) (filter (\<lambda>e. fst e \<le> sint hi) ?E)"
  proof (rule sorted_wrt_mono_rel[rotated])
    fix x y assume "x \<in> set (filter (\<lambda>e. fst e \<le> sint hi) ?E)" "y \<in> set (filter (\<lambda>e. fst e \<le> sint hi) ?E)" "fst x < fst y"
    then show "sint (word_of_int (fst x) :: int64) < sint (word_of_int (fst y) :: int64)"
      using band[of "fst x"] band[of "fst y"] by simp
  qed
  then have sorted: "sorted_wrt (\<lambda>a b. sint a < sint b) (map fst (upto_hi (sint hi) ?E))"
    by (simp add: upto_hi_def sorted_wrt_map case_prod_beta)
  show ?thesis using Scan_spec[OF s t(1), of lo hi fn acc] mem sorted unfolding scan_ends_def by blast
qed

end

subsection \<open>The index over the real pool\<close>

interpretation index: btree_index "FileHandle disk_manager fid" "pool_view disk_pages fid" "pool_ptr fid"
    "pool_ok disk_pages disk_inv fid" "all_quiet disk_quiet" room default_caps for fid
  by (intro btree_index.intro disk.handle.page_cache_axioms production.btree_caps_axioms)

definition index_pool :: "DiskManager BufferPool" where
  \<comment> \<open>three frames, and one file that holds an empty index\<close>
  "index_pool = snd (the (NewBTree (FileHandle disk_manager 0) (fresh_pool 3)))"

lemma index_pool:
  "pool_ok disk_pages disk_inv 0 index_pool" "\<not> unsaved (pool_view disk_pages 0 index_pool) pid"
  "index_map default_caps (fpages (pool_view disk_pages 0 index_pool)) 0 Map.empty"
  "all_quiet disk_quiet index_pool" "room index_pool = 3" "length (fpages (pool_view disk_pages 0 index_pool)) = 2"
proof -
  let ?v = "pool_view disk_pages 0"
  note f = fresh_pool[of 3, simplified]
  obtain ps where n: "pool_ok disk_pages disk_inv 0 index_pool" "?v index_pool = ?v (fresh_pool 3)\<lparr>fpages := ps\<rparr>"
    "length ps = 2" "index_tree default_caps ps 0 (Leaf 1 [] invalidPID)" "all_quiet disk_quiet index_pool"
    using index.NewBTree_spec[OF f(1)] f(2-4) by (auto simp: index_pool_def)
  show "pool_ok disk_pages disk_inv 0 index_pool" "all_quiet disk_quiet index_pool" by (rule n)+
  show "\<not> unsaved (?v index_pool) pid" "length (fpages (?v index_pool)) = 2" using n(2,3) f(5) by simp_all
  show "index_map default_caps (fpages (?v index_pool)) 0 Map.empty"
    using n(2,4) by (auto simp: index_map_def intro!: exI[of _ "Leaf 1 [] invalidPID"])
  show "room index_pool = 3" using disk.handle.room_eq[OF f(1) n(1)] n(2) f(4) by simp
qed

subsection \<open>Properties\<close>

text \<open>C10. Opening an empty file lays out a meta page and an empty root leaf: with no I/O failure pending and two
  frames to pin, it succeeds and the file is an index of the empty map. A failure leaves no page, or
  one blank page.\<close>

theorem NewBTree_empty:
  assumes "pool_ok disk_pages disk_inv fid bp" "fpages (pool_view disk_pages fid bp) = []"
  shows "\<exists>r bp' ps'. NewBTree (FileHandle disk_manager fid) bp = Some (r, bp') \<and> pool_ok disk_pages disk_inv fid bp' \<and>
    pool_view disk_pages fid bp' = pool_view disk_pages fid bp\<lparr>fpages := ps'\<rparr> \<and>
    (case r of Inl _ \<Rightarrow> ps' = [] \<or> ps' = [NewPage_frame] | Inr _ \<Rightarrow> length ps' = 2 \<and> index_map default_caps ps' 0 Map.empty) \<and>
    (all_quiet disk_quiet bp \<and> 2 \<le> room bp \<longrightarrow> r = Inr ())"
proof -
  have e: "index_map default_caps ps' 0 Map.empty" if "index_tree default_caps ps' 0 (Leaf 1 [] invalidPID)" for ps'
    using that by (auto simp: index_map_def intro!: exI[of _ "Leaf 1 [] invalidPID"])
  show ?thesis using index.NewBTree_spec[OF assms(1)] assms(2) by (auto split: sum.splits intro: e)
qed

theorem NewBTree_empty_witness:
  "\<exists>bp' ps'. NewBTree (FileHandle disk_manager 0) (fresh_pool 3) = Some (Inr (), bp') \<and>
    fpages (pool_view disk_pages 0 bp') = ps' \<and> index_map default_caps ps' 0 Map.empty"
  using NewBTree_empty[of 0 "fresh_pool 3"] fresh_pool[of 3] by fastforce

text \<open>Opening a file that has pages changes nothing; with no I/O failure pending and a frame to pin it
  succeeds exactly when page 0 carries the index magic number, and otherwise reports a bad magic.\<close>

theorem NewBTree_existing:
  assumes "pool_ok disk_pages disk_inv fid bp" "fpages (pool_view disk_pages fid bp) = m # ps"
    "all_quiet disk_quiet bp" "0 < room bp"
  shows "\<exists>bp'. NewBTree (FileHandle disk_manager fid) bp = Some
      (if meta_magic m = metaMagic then Inr () else Inl (Errorf ''nbtree: not an index file (bad magic)''), bp') \<and>
    pool_ok disk_pages disk_inv fid bp' \<and> pool_view disk_pages fid bp' = pool_view disk_pages fid bp"
  using index.NewBTree_spec[OF assms(1)] assms(2-4) by auto

theorem NewBTree_existing_witness:
  "\<exists>bp'. NewBTree (FileHandle disk_manager 0) index_pool = Some (Inr (), bp')"
proof -
  obtain m ps where m: "fpages (pool_view disk_pages 0 index_pool) = m # ps" "meta_magic m = metaMagic"
    using index_pool(3) by (cases "fpages (pool_view disk_pages 0 index_pool)") (auto simp: index_map_def index_tree_def)
  show ?thesis using NewBTree_existing[OF index_pool(1) m(1) index_pool(4)] index_pool(5) m(2) by auto
qed

text \<open>C8. \<^verbatim>\<open>Search\<close> on an index that represents the map \<open>m\<close> always returns, changes no page and no pin,
  and answers as \<open>m\<close> does: the TID bound to the key, or not found. Without an I/O failure and with a frame to pin it
  does answer.\<close>

theorem btree_Search_refines:
  assumes "pool_ok disk_pages disk_inv fid bp" "index_map default_caps (fpages (pool_view disk_pages fid bp)) h m"
  shows "\<exists>r bp'. Search (FileHandle disk_manager fid) default_caps bp key = Some (r, bp') \<and>
    pool_ok disk_pages disk_inv fid bp' \<and> pool_view disk_pages fid bp' = pool_view disk_pages fid bp \<and>
    (\<forall>x. r = Inr x \<longrightarrow> x = (case m key of None \<Rightarrow> (TID 0 0, False) | Some tid \<Rightarrow> (tid, True))) \<and>
    (all_quiet disk_quiet bp \<and> 0 < room bp \<longrightarrow> (\<exists>x. r = Inr x))"
  using index.Search_map[OF assms, of key] by blast

theorem btree_Search_refines_witness:
  "\<exists>bp'. Search (FileHandle disk_manager 0) default_caps index_pool 7 = Some (Inr (TID 0 0, False), bp')"
  using btree_Search_refines[OF index_pool(1,3), of 7] index_pool(4,5) by auto

text \<open>C6. \<^verbatim>\<open>Insert\<close> refines the update of the map: it always returns; on success the key was unbound and the pages
  represent the map with the key bound, in a tree at most one level higher; \<^verbatim>\<open>ErrDuplicateKey\<close>
  is returned only for a bound key and changes no page. Whatever the result, every pin is released and no other file is
  disturbed.\<close>

theorem btree_Insert_refines:
  assumes "pool_ok disk_pages disk_inv fid bp" "\<And>pid. \<not> unsaved (pool_view disk_pages fid bp) pid"
    and "index_map default_caps (fpages (pool_view disk_pages fid bp)) h m"
  shows "\<exists>r bp' ps'. Insert (FileHandle disk_manager fid) default_caps bp key tid = Some (r, bp') \<and>
    pool_ok disk_pages disk_inv fid bp' \<and> pool_view disk_pages fid bp' = pool_view disk_pages fid bp\<lparr>fpages := ps'\<rparr> \<and>
    (r = Inr () \<longrightarrow> m key = None \<and> (\<exists>h'. h' \<le> Suc h \<and> index_map default_caps ps' h' (m(key \<mapsto> tid)))) \<and>
    (r = Inl ErrDuplicateKey \<longrightarrow> m key \<noteq> None \<and> ps' = fpages (pool_view disk_pages fid bp))"
  using index.Insert_map[OF assms, of key tid] by blast

theorem btree_Insert_refines_witness:
  "\<exists>r bp'. Insert (FileHandle disk_manager 0) default_caps index_pool 7 (TID 1 2) = Some (r, bp') \<and> r \<noteq> Inl ErrDuplicateKey \<and>
    (r = Inr () \<longrightarrow> (\<exists>h'. index_map default_caps (fpages (pool_view disk_pages 0 bp')) h' [7 \<mapsto> TID 1 2]))"
  using btree_Insert_refines[OF index_pool(1-3), of 7 "TID 1 2"] by fastforce

text \<open>C7. An insertion without an I/O failure, with two more frames to pin than the tree is high and page ids left, succeeds
  exactly for a key that is not bound, and reports \<^verbatim>\<open>ErrDuplicateKey\<close> otherwise.\<close>

theorem btree_Insert_succeeds_iff:
  assumes "pool_ok disk_pages disk_inv fid bp" "\<And>pid. \<not> unsaved (pool_view disk_pages fid bp) pid"
    and "index_map default_caps (fpages (pool_view disk_pages fid bp)) h m"
    and "all_quiet disk_quiet bp" "h + 2 \<le> room bp" "length (fpages (pool_view disk_pages fid bp)) + h + 2 < 2 ^ 32"
  shows "\<exists>bp'. Insert (FileHandle disk_manager fid) default_caps bp key tid =
    Some (if m key = None then Inr () else Inl ErrDuplicateKey, bp')"
  using index.Insert_map[OF assms(1-3), of key tid] assms(4-6) by auto

theorem btree_Insert_succeeds_iff_witness:
  "\<exists>bp'. Insert (FileHandle disk_manager 0) default_caps index_pool 7 (TID 1 2) = Some (Inr (), bp')"
  using btree_Insert_succeeds_iff[OF index_pool(1-4), of 7 "TID 1 2"] index_pool(5,6) by simp

text \<open>After a successful insertion every search without an I/O failure finds the new key with its TID and every other
  key as before.\<close>

theorem btree_Search_after_Insert:
  assumes p: "pool_ok disk_pages disk_inv fid bp" "\<And>pid. \<not> unsaved (pool_view disk_pages fid bp) pid"
    "index_map default_caps (fpages (pool_view disk_pages fid bp)) h m"
    and i: "Insert (FileHandle disk_manager fid) default_caps bp key tid = Some (Inr (), bp')"
    and q: "all_quiet disk_quiet bp'" "0 < room bp'"
  shows "\<exists>bp''. Search (FileHandle disk_manager fid) default_caps bp' k =
    Some (Inr (if k = key then (tid, True) else case m k of None \<Rightarrow> (TID 0 0, False) | Some t \<Rightarrow> (t, True)), bp'')"
proof -
  obtain r bp1 ps' where I: "Insert (FileHandle disk_manager fid) default_caps bp key tid = Some (r, bp1)"
    "pool_ok disk_pages disk_inv fid bp1" "pool_view disk_pages fid bp1 = pool_view disk_pages fid bp\<lparr>fpages := ps'\<rparr>"
    "r = Inr () \<longrightarrow> m key = None \<and> (\<exists>h'. h' \<le> Suc h \<and> index_map default_caps ps' h' (m(key \<mapsto> tid)))"
    using index.Insert_map[OF p, of key tid] by blast
  have i': "pool_ok disk_pages disk_inv fid bp'" "fpages (pool_view disk_pages fid bp') = ps'" "r = Inr ()" using I i by auto
  obtain h' where "index_map default_caps (fpages (pool_view disk_pages fid bp')) h' (m(key \<mapsto> tid))" using I(4) i'(2,3) by auto
  from index.Search_map[OF i'(1) this, of k] show ?thesis using q by auto
qed

theorem btree_Search_after_Insert_witness:
  "\<exists>bp' bp''. Insert (FileHandle disk_manager 0) default_caps index_pool 7 (TID 1 2) = Some (Inr (), bp') \<and>
     Search (FileHandle disk_manager 0) default_caps bp' 7 = Some (Inr (TID 1 2, True), bp'')"
proof -
  obtain bp' where i: "Insert (FileHandle disk_manager 0) default_caps index_pool 7 (TID 1 2) = Some (Inr (), bp')"
    "all_quiet disk_quiet bp'" "room bp' = 3"
    using index.Insert_map[OF index_pool(1-3), of 7 "TID 1 2"] disk.handle.room_same[OF index_pool(1)] index_pool(4-6) by auto
  from btree_Search_after_Insert[OF index_pool(1-3) i(1,2), of 7] i show ?thesis by auto
qed

text \<open>C9. A scan of the keys from \<open>lo\<close> to \<open>hi\<close> always returns and changes no page and no pin. Without an I/O failure it
  runs its callback on exactly the bound keys of the range, in strictly increasing order and with their TIDs, and
  stops at the callback's first error; an I/O failure ends it with an error.\<close>

theorem btree_Scan_in_order:
  assumes "pool_ok disk_pages disk_inv fid bp" "index_map default_caps (fpages (pool_view disk_pages fid bp)) h m"
  shows "\<exists>r bp' acc' xs. Scan (FileHandle disk_manager fid) default_caps bp lo hi fn acc = Some (r, bp', acc') \<and>
    pool_view disk_pages fid bp' = pool_view disk_pages fid bp \<and>
    sorted_wrt (\<lambda>a b. sint a < sint b) (map fst xs) \<and>
    (\<forall>k tid. (k, tid) \<in> set xs \<longleftrightarrow> sint lo \<le> sint k \<and> sint k \<le> sint hi \<and> m k = Some tid) \<and>
    ((r, acc') = visit fn xs acc \<or> \<not> (all_quiet disk_quiet bp \<and> 0 < room bp) \<and> (\<exists>e. r = Inl e))"
  using index.Scan_map[OF assms, of lo hi fn acc] by blast

theorem btree_Scan_in_order_witness:
  "\<exists>bp bp'. Insert (FileHandle disk_manager 0) default_caps index_pool 7 (TID 1 2) = Some (Inr (), bp) \<and>
    Scan (FileHandle disk_manager 0) default_caps bp 1 9 (\<lambda>k t out. (Inr (), out @ [(k, t)])) [] = Some (Inr (), bp', [(7, TID 1 2)])"
proof -
  let ?f = "\<lambda>(k :: int64) (t :: TID) out. (Inr () :: err + unit, out @ [(k, t)])"
  obtain bp ps h where i: "Insert (FileHandle disk_manager 0) default_caps index_pool 7 (TID 1 2) = Some (Inr (), bp)" "pool_ok disk_pages disk_inv 0 bp"
    "pool_view disk_pages 0 bp = pool_view disk_pages 0 index_pool\<lparr>fpages := ps\<rparr>" "index_map default_caps ps h [7 \<mapsto> TID 1 2]" "all_quiet disk_quiet bp"
    using index.Insert_map[OF index_pool(1-3), of 7 "TID 1 2"] index_pool(4-6) by auto
  have m: "index_map default_caps (fpages (pool_view disk_pages 0 bp)) h [7 \<mapsto> TID 1 2]" and r: "room bp = 3"
    using i(3,4) disk.handle.room_eq[OF index_pool(1) i(2)] index_pool(5) by simp_all
  obtain u bp' acc' xs where s: "Scan (FileHandle disk_manager 0) default_caps bp 1 9 ?f [] = Some (u, bp', acc')" "sorted_wrt (\<lambda>a b. sint a < sint b) (map fst xs)"
    "\<forall>k tid. (k, tid) \<in> set xs \<longleftrightarrow> sint (1 :: int64) \<le> sint k \<and> sint k \<le> sint (9 :: int64) \<and> [7 \<mapsto> TID 1 2] k = Some tid" "(u, acc') = visit ?f xs []"
    using btree_Scan_in_order[OF i(2) m, of 1 9 ?f "[]"] i(5) r by auto
  have "(k, tid) \<in> set xs \<longleftrightarrow> (k, tid) = (7, TID 1 2)" for k tid using spec[OF spec[OF s(3), of k], of tid] by (cases "k = 7") auto
  then have "set xs = {(7, TID 1 2)}" by auto
  then have "xs = [(7, TID 1 2)]" using s(2) by (rule strict_singleton) simp
  then show ?thesis using s(1,4) i(1) by auto
qed

end
