(* ===== verification/Restart.thy ===== *)
theory Restart
  imports Pool_Threads Heap_File BTree_Correct
begin

text \<open>
  The storage stack across a restart: pages changed through the buffer pool, a checkpoint, then the bytes the device kept opened
  again by the disk manager, registered in a new pool and read by the access methods.
\<close>

subsection \<open>Pages after a restart\<close>

text \<open>The pages of the file in the new pool are those the callers saw before, and perhaps pages behind them that a failed extension of the file
  left.\<close>

lemma restart_pages:
  assumes ok: "pool_ok disk_pages disk_inv fid bp" and risk: "\<And>k. \<not> at_risk disk_pages bp k"
    and ks: "dom (pageTable bp) \<subseteq> set ks" and fl: "FlushAll disk_manager ks bp = Some (Inr (), bp1)"
    and sy: "bp_Sync disk_manager bp1 = (Inr (), bp2)"
    and bytes: "bytes = durable (dm_file (files bp2 ! unat fid))" "length bytes < 2 ^ 32 * 8192"
    and op: "disk_Open (Some bytes) [] = Inr d" and n: "0 < n"
  obtains extra where "fpages (pool_view disk_pages 0 (pool_over n d)) = fpages (pool_view disk_pages fid bp) @ extra"
    "pool_ok disk_pages disk_inv 0 (pool_over n d)" "all_quiet disk_quiet (pool_over n d)" "room (pool_over n d) = nat n"
    "length bytes = length (fpages (pool_view disk_pages fid bp)) * 8192 \<longrightarrow> extra = []"
proof -
  let ?ps = "fpages (pool_view disk_pages fid bp)" and ?N = "npages disk_pages bp fid"
  have inv: "pool_inv disk_pages disk_inv bp" and fid: "unat fid < length (files bp)" using ok by (auto simp: pool_ok_def)
  have len: "length ?ps = ?N" by (simp add: pool_view_def mk_view_def)
  have N: "?N < 2 ^ 32" by (rule disk.npages_bound[OF inv])
  have pg: "subslice (i * 8192) (i * 8192 + 8192) bytes = ?ps ! i" if i: "i < ?N" for i
  proof -
    have u: "unat (of_nat i :: PageID) = i" using i N by (intro unat_of_nat_small) simp
    have "valid_key disk_pages bp (PageKey fid (of_nat i))" using i u fid by (simp add: valid_key_def npages_def)
    from checkpoint_page[OF inv risk ks fl sy this] show ?thesis using i u by (simp add: bytes pool_view_def mk_view_def)
  qed
  have le: "?N * 8192 \<le> length bytes"
  proof (cases ?N)
    case (Suc m)
    have "length (?ps ! m) = 8192" using disk.handle.page_size_nth[OF ok, of m] len Suc by simp
    then have "length (subslice (m * 8192) (m * 8192 + 8192) bytes) = 8192" using pg[of m] Suc by simp
    then show ?thesis by (auto simp: subslice_def Suc)
  qed simp
  define M where "M = length bytes div 8192"
  have M: "?N \<le> M" "M < 2 ^ 32" using div_le_mono[OF le, of 8192] bytes(2) by (auto simp: M_def)
  note o = disk_Open_ok[OF op]
  have dp: "disk_pages d = map (\<lambda>i. subslice (i * 8192) (i * 8192 + 8192) bytes) [0..<M]"
    using M(2) o by (simp add: disk_pages_def disk_page_def[abs_def] M_def unat_of_nat_small)
  have "[0..<M] = [0..<?N] @ [?N..<M]" using M(1) by (metis le_add_diff_inverse upt_add_eq_append zero_le)
  moreover have "map (\<lambda>i. subslice (i * 8192) (i * 8192 + 8192) bytes) [0..<?N] = ?ps"
    using pg len by (intro nth_equalityI) auto
  ultimately have ps: "disk_pages d = ?ps @ map (\<lambda>i. subslice (i * 8192) (i * 8192 + 8192) bytes) [?N..<M]" by (simp add: dp)
  have "disk_quiet d" using op by (simp add: disk_Open_def next_outcome_def disk_quiet_def Let_def split: if_splits) auto
  note p = pool_over[OF n disk_Open_inv[OF op] this]
  show thesis
    by (rule that[of "map (\<lambda>i. subslice (i * 8192) (i * 8192 + 8192) bytes) [?N..<M]"]) (use p ps M_def len in auto)
qed

text \<open>Pages behind those of an index do not matter to it.\<close>

lemma index_map_append:
  assumes "index_map c ps h m" shows "index_map c (ps @ extra) h m"
proof -
  obtain t where t: "index_tree c ps h t" "m = (\<lambda>k. map_of (entries t) (sint k))" using assms by (auto simp: index_map_def)
  have "stored c (ps @ extra) t" using t(1) by (intro stored_touched[OF _ touched_append]) (simp_all add: index_tree_def)
  then have "index_tree c (ps @ extra) h t" using t(1) by (auto simp: index_tree_def nth_append)
  then show ?thesis using t(2) by (auto simp: index_map_def)
qed

subsection \<open>Concrete files\<close>

definition file_of :: "page list \<Rightarrow> DiskManager" where
  "file_of ps = \<lparr>dm_file = \<lparr>content = concat ps, durable = [], outcomes = []\<rparr>, numPages = of_nat (length ps)\<rparr>"

lemma concat_pages:
  assumes "\<And>p. p \<in> set ps \<Longrightarrow> length p = 8192"
  shows "length (concat ps) = length ps * 8192" "i < length ps \<Longrightarrow> subslice (i * 8192) (i * 8192 + 8192) (concat ps) = ps ! i"
proof -
  have "length (concat ps) = length ps * 8192 \<and> (i < length ps \<longrightarrow> take 8192 (drop (i * 8192) (concat ps)) = ps ! i)"
    using assms by (induction ps arbitrary: i) (auto simp: nth_Cons split: nat.split)
  then show "length (concat ps) = length ps * 8192" "i < length ps \<Longrightarrow> subslice (i * 8192) (i * 8192 + 8192) (concat ps) = ps ! i"
    by (simp_all add: subslice_def)
qed

text \<open>A checkpoint of a pool that has only registered the file.\<close>

lemma file_of:
  assumes ps: "\<And>p. p \<in> set ps \<Longrightarrow> length p = 8192" "length ps < 2 ^ 32" and n: "0 < n"
  shows "pool_ok disk_pages disk_inv 0 (pool_over n (file_of ps))" "fpages (pool_view disk_pages 0 (pool_over n (file_of ps))) = ps"
    "\<not> at_risk disk_pages (pool_over n (file_of ps)) k" "pageTable (pool_over n (file_of ps)) = Map.empty"
    "FlushAll disk_manager [] (pool_over n (file_of ps)) = Some (Inr (), pool_over n (file_of ps))"
    "\<exists>bp2. bp_Sync disk_manager (pool_over n (file_of ps)) = (Inr (), bp2) \<and> durable (dm_file (files bp2 ! 0)) = concat ps"
    "\<exists>d. disk_Open (Some (concat ps)) [] = Inr d"
    "all_quiet disk_quiet (pool_over n (file_of ps))" "room (pool_over n (file_of ps)) = nat n"
    "\<forall>d \<in> set (files (pool_over n (file_of ps))). disk_quiet d \<and> length (content (dm_file d)) = unat (numPages d) * 8192"
proof -
  have u: "unat (numPages (file_of ps)) = length ps" using ps(2) by (simp add: file_of_def unat_of_nat_small)
  have pg: "disk_pages (file_of ps) = ps"
  proof (rule nth_equalityI)
    fix i assume "i < length (disk_pages (file_of ps))"
    then have i: "i < length ps" by (simp add: disk_pages_def u)
    moreover have "content (dm_file (file_of ps)) = concat ps" by (simp add: file_of_def)
    ultimately show "disk_pages (file_of ps) ! i = ps ! i"
      using concat_pages(2)[of ps i] ps by (simp add: disk_pages_def u disk_page_def unat_of_nat_small)
  qed (simp add: disk_pages_def u)
  have "disk_inv (file_of ps)" using concat_pages(1)[OF ps(1)] u by (simp add: disk_inv_def) (simp add: file_of_def)
  moreover have q: "disk_quiet (file_of ps)" by (simp add: file_of_def disk_quiet_def)
  ultimately have p: "pool_ok disk_pages disk_inv 0 (pool_over n (file_of ps))" "fpages (pool_view disk_pages 0 (pool_over n (file_of ps))) = ps"
    "\<And>k. \<not> at_risk disk_pages (pool_over n (file_of ps)) k" "pageTable (pool_over n (file_of ps)) = Map.empty" "files (pool_over n (file_of ps)) = [file_of ps]"
    "all_quiet disk_quiet (pool_over n (file_of ps))" "room (pool_over n (file_of ps)) = nat n"
    using pool_over[OF n, of "file_of ps"] pg by simp_all
  show "pool_ok disk_pages disk_inv 0 (pool_over n (file_of ps))" "fpages (pool_view disk_pages 0 (pool_over n (file_of ps))) = ps"
    "\<not> at_risk disk_pages (pool_over n (file_of ps)) k" "pageTable (pool_over n (file_of ps)) = Map.empty"
    "all_quiet disk_quiet (pool_over n (file_of ps))" "room (pool_over n (file_of ps)) = nat n" by (rule p)+
  show "\<forall>d \<in> set (files (pool_over n (file_of ps))). disk_quiet d \<and> length (content (dm_file d)) = unat (numPages d) * 8192"
    using q u concat_pages(1)[of ps, OF ps(1)] by (simp add: p(5)) (simp add: file_of_def)
  show "FlushAll disk_manager [] (pool_over n (file_of ps)) = Some (Inr (), pool_over n (file_of ps))" by simp
  show "\<exists>bp2. bp_Sync disk_manager (pool_over n (file_of ps)) = (Inr (), bp2) \<and> durable (dm_file (files bp2 ! 0)) = concat ps"
    using q by (simp add: bp_Sync_def p(5) disk_manager_def disk_Sync_def File_quiet disk_quiet_def) (simp add: file_of_def)
  show "\<exists>d. disk_Open (Some (concat ps)) [] = Inr d"
    using concat_pages(1)[of ps, OF ps(1)] by (simp add: disk_Open_def next_outcome_def layout_simps Let_def)
qed

subsection \<open>Checkpoints without a failure\<close>

text \<open>A file whose length is that of its pages, with no failure pending, stays so under every call of the disk manager. Only an extension that fails midway leaves
  a part of a page behind.\<close>

definition whole_file :: "DiskManager \<Rightarrow> bool" where
  "whole_file d \<longleftrightarrow> disk_quiet d \<and> length (content (dm_file d)) = unat (numPages d) * 8192"

interpretation whole: file_history disk_manager "\<lambda>d d'. whole_file d \<longrightarrow> whole_file d'"
proof unfold_locales
  fix d a d' assume "dmAllocatePage disk_manager d = (a, d')"
  then show "whole_file d \<longrightarrow> whole_file d'"
    by (auto simp: disk_manager_def AllocatePage_def whole_file_def disk_quiet_def File_quiet length_write_at count_next layout_simps Let_def split: if_splits)
next
  fix d pid src r d' assume "dmWritePage disk_manager d pid src = (r, d')"
  then show "whole_file d \<longrightarrow> whole_file d'"
    by (auto simp: disk_manager_def WritePage_def whole_file_def disk_quiet_def File_quiet length_write_at layout_simps word_le_nat_alt split: if_splits)
qed (auto simp: disk_call_defs whole_file_def disk_quiet_def Let_def split: if_splits list.splits io_outcome.splits sum.splits prod.splits)

abbreviation whole_run :: "DiskManager BufferPool \<Rightarrow> DiskManager BufferPool \<Rightarrow> bool" where
  "whole_run \<equiv> (\<lambda>bp bp'. evolves (\<lambda>d d'. whole_file d \<longrightarrow> whole_file d') (files bp) (files bp'))\<^sup>*\<^sup>*"

lemma whole_run_files:
  assumes "whole_run bp bp'" "\<forall>d \<in> set (files bp). whole_file d" "length (files bp') = length (files bp)"
  shows "\<forall>d \<in> set (files bp'). whole_file d"
proof -
  have "evolves (\<lambda>d d'. whole_file d \<longrightarrow> whole_file d') (files bp) (files bp')"
    using assms(1) by (induction rule: rtranclp_induct) (auto intro: whole.evolves_trans)
  then show ?thesis using assms(2,3) by (auto simp: evolves_def all_set_conv_all_nth)
qed

lemma whole_cache:
  "page_cache (FileHandle disk_manager fid) (pool_view disk_pages fid) (pool_ptr fid) (\<lambda>bp. pool_ok disk_pages disk_inv fid bp \<and> whole_run bp0 bp)
     (all_quiet disk_quiet) room"
proof (rule disk.handle.traced)
  fix bp pid d bp' assume "UnpinPage (FileHandle disk_manager fid) bp pid d = Some (Inr (), bp')"
  then have "files bp' = files bp" by (auto simp: FileHandle_def unpin_def Let_def bind_eq_Some_conv split: option.splits if_splits)
  then show "evolves (\<lambda>d d'. whole_file d \<longrightarrow> whole_file d') (files bp) (files bp')" by simp
qed (auto simp: FileHandle_def write_frame_def dest: whole.fetch_files whole.newPage_files)

text \<open>With no failure pending, flushing and syncing succeed, and every file on the device is a whole number of pages.\<close>

lemma quiet_FlushAll:
  assumes "pool_inv disk_pages disk_inv bp" "\<forall>d \<in> set (files bp). whole_file d"
  shows "\<exists>bp'. FlushAll disk_manager ks bp = Some (Inr (), bp') \<and> (\<forall>d \<in> set (files bp'). whole_file d)"
  using assms
proof (induction ks arbitrary: bp)
  case (Cons k ks)
  show ?case
  proof (cases "pageTable bp k")
    case (Some f)
    with Cons.prems(1) show ?thesis
    proof (cases rule: disk.flushLocked_cases)
      case (ok bp1)
      have "length (files bp1) = length (files bp)" using ok(3) by (simp add: same_view_def)
      then have "\<forall>d \<in> set (files bp1). whole_file d"
        using whole_run_files[of bp bp1] whole.flushLocked_files[OF ok(1)] Cons.prems(2) by blast
      then show ?thesis using Cons.IH[OF ok(2)] ok(1) Some by simp
    next
      case (err e bp1)
      then show ?thesis using Cons.prems(2) by (simp add: all_quiet_def whole_file_def)
    qed
  qed (use Cons in simp)
qed simp

lemma quiet_Sync:
  assumes "\<forall>d \<in> set (files bp). whole_file d"
  shows "\<exists>bp'. bp_Sync disk_manager bp = (Inr (), bp') \<and> length (files bp') = length (files bp) \<and>
    (\<forall>d \<in> set (files bp'). \<exists>n :: PageID. length (durable (dm_file d)) = unat n * 8192)"
proof -
  have "\<exists>ds'. sync_files disk_manager ds = (Inr (), ds') \<and> length ds' = length ds \<and> (\<forall>d \<in> set ds'. \<exists>n :: PageID. length (durable (dm_file d)) = unat n * 8192)"
    if "\<forall>d \<in> set ds. whole_file d" for ds
    using that by (induction ds) (auto simp: disk_manager_def disk_Sync_def whole_file_def disk_quiet_def File_quiet)
  from this[OF assms] show ?thesis by (auto simp: bp_Sync_def)
qed

lemma resident_keys:
  assumes "pool_inv pages ok bp" shows "dom (pageTable bp) \<subseteq> set (map mkey (meta bp))"
proof
  fix k assume "k \<in> dom (pageTable bp)"
  then obtain f where f: "pageTable bp k = Some f" by blast
  have o: "frames_ok {} bp" using assms by (simp add: pool_inv_def pool_wf_def)
  show "k \<in> set (map mkey (meta bp))"
    using resident_frame(1)[OF o f] frames_okD(1,9)[OF o] f by (force simp: in_set_conv_nth)
qed

text \<open>A checkpoint after an insertion that met no failure.\<close>

lemma checkpoint_after_Insert:
  assumes b: "pool_ok disk_pages disk_inv fid bp" "\<And>k. \<not> at_risk disk_pages bp k" "\<forall>d \<in> set (files bp). whole_file d"
    and i: "index_map default_caps (fpages (pool_view disk_pages fid bp)) h m" "m key = None"
    and r: "h + 2 \<le> room bp" "length (fpages (pool_view disk_pages fid bp)) + h + 2 < 2 ^ 32"
  obtains bp' h' ks bp1 bp2 n where "Insert (FileHandle disk_manager fid) default_caps bp key tid = Some (Inr (), bp')"
    "pool_ok disk_pages disk_inv fid bp'" "\<And>k. \<not> at_risk disk_pages bp' k" "index_map default_caps (fpages (pool_view disk_pages fid bp')) h' (m(key \<mapsto> tid))"
    "dom (pageTable bp') \<subseteq> set ks" "FlushAll disk_manager ks bp' = Some (Inr (), bp1)" "bp_Sync disk_manager bp1 = (Inr (), bp2)"
    "length (durable (dm_file (files bp2 ! unat fid))) = unat (n :: PageID) * 8192"
proof -
  note idx = btree_index.intro[OF whole_cache production.btree_caps_axioms]
  have u: "\<not> unsaved (pool_view disk_pages fid bp) pid" for pid using b(2) by (simp add: pool_view_def mk_view_def)
  have q: "all_quiet disk_quiet bp" using b(3) by (simp add: all_quiet_def whole_file_def)
  obtain bp' ps' h' where x: "Insert (FileHandle disk_manager fid) default_caps bp key tid = Some (Inr (), bp')" "pool_ok disk_pages disk_inv fid bp'"
    "whole_run bp bp'" "pool_view disk_pages fid bp' = pool_view disk_pages fid bp\<lparr>fpages := ps'\<rparr>" "index_map default_caps ps' h' (m(key \<mapsto> tid))"
    using btree_index.Insert_map[OF idx _ u i(1), of bp key tid] b(1) q r i(2) by auto
  have risk: "\<not> at_risk disk_pages bp' k" for k
  proof -
    have "unsaved (pool_view disk_pages fid bp') = unsaved (pool_view disk_pages fid bp)" "others (pool_view disk_pages fid bp') = others (pool_view disk_pages fid bp)"
      using x(4) by simp_all
    then have "at_risk disk_pages bp' (PageKey fid pid) = at_risk disk_pages bp (PageKey fid pid)"
      "(pk_file k \<noteq> fid \<and> at_risk disk_pages bp' k) = (pk_file k \<noteq> fid \<and> at_risk disk_pages bp k)" for pid
      by (simp_all add: pool_view_def mk_view_def) (meson+)
    then show ?thesis using b(2) by (cases k) auto
  qed
  have l: "length (files bp') = length (files bp)" using x(4) by (simp add: pool_view_def mk_view_def)
  note w = whole_run_files[OF x(3) b(3) l]
  have inv: "pool_inv disk_pages disk_inv bp'" and fid: "unat fid < length (files bp')" using x(2) by (simp_all add: pool_ok_def)
  obtain bp1 where f: "FlushAll disk_manager (map mkey (meta bp')) bp' = Some (Inr (), bp1)" "\<forall>d \<in> set (files bp1). whole_file d"
    using quiet_FlushAll[OF inv w] by blast
  have l1: "length (files bp1) = length (files bp')" using disk.FlushAll_spec[OF inv f(1)] by (simp add: same_view_def)
  obtain bp2 where s: "bp_Sync disk_manager bp1 = (Inr (), bp2)" "length (files bp2) = length (files bp1)"
    "\<forall>d \<in> set (files bp2). \<exists>n :: PageID. length (durable (dm_file d)) = unat n * 8192" using quiet_Sync[OF f(2)] by blast
  then obtain n where "length (durable (dm_file (files bp2 ! unat fid))) = unat (n :: PageID) * 8192" using l1 fid by (metis nth_mem)
  then show thesis using that[OF x(1,2) risk _ resident_keys[OF inv] f(1) s(1)] x(4,5) by simp
qed

subsection \<open>Properties\<close>

text \<open>C26. An index survives a restart: after a checkpoint that reported no error, the bytes on the device, fewer than \<open>2 ^ 32\<close> pages, are refused by \<^verbatim>\<open>Open\<close> exactly
  when they are not a whole number of pages (a failed extension can leave a part of a page at the end of the file). Otherwise opening them succeeds, and so
  does registering the file in a new pool of any positive size and opening the index there, and every search gives the answer of the map the index represented
  before.\<close>

theorem index_survives_restart:
  assumes "pool_ok disk_pages disk_inv fid bp" "\<And>k. \<not> at_risk disk_pages bp k"
    and "dom (pageTable bp) \<subseteq> set ks" "FlushAll disk_manager ks bp = Some (Inr (), bp1)" "bp_Sync disk_manager bp1 = (Inr (), bp2)"
    and "bytes = durable (dm_file (files bp2 ! unat fid))" "length bytes < 2 ^ 32 * 8192" "0 < n"
    and i: "index_map default_caps (fpages (pool_view disk_pages fid bp)) h m"
  shows "if length bytes mod 8192 = 0
    then \<exists>d bp3. disk_Open (Some bytes) [] = Inr d \<and> NewBTree (FileHandle disk_manager 0) (pool_over n d) = Some (Inr (), bp3) \<and>
      (\<forall>key. \<exists>bp4. Search (FileHandle disk_manager 0) default_caps bp3 key =
         Some (Inr (case m key of None \<Rightarrow> (TID 0 0, False) | Some tid \<Rightarrow> (tid, True)), bp4))
    else disk_Open (Some bytes) [] = Inl (Errorf ''disk: not a multiple of page size'')"
proof (cases "length bytes mod 8192 = 0")
  case False
  then show ?thesis by (simp add: disk_Open_def next_outcome_def layout_simps Let_def)
next
  case True
  then obtain d where d: "disk_Open (Some bytes) [] = Inr d" by (auto simp: disk_Open_def next_outcome_def layout_simps Let_def)
  let ?v = "pool_view disk_pages 0" and ?bp = "pool_over n d"
  obtain extra where r: "fpages (?v ?bp) = fpages (pool_view disk_pages fid bp) @ extra" "pool_ok disk_pages disk_inv 0 ?bp"
    "all_quiet disk_quiet ?bp" "room ?bp = nat n" by (rule restart_pages[OF assms(1-7) d assms(8)])
  have ix: "index_map default_caps (fpages (?v ?bp)) h m" unfolding r(1) by (rule index_map_append[OF i])
  then have ne: "fpages (?v ?bp) \<noteq> []" "meta_magic (fpages (?v ?bp) ! 0) = metaMagic" by (auto simp: index_map_def index_tree_def)
  obtain bp3 where b: "NewBTree (FileHandle disk_manager 0) ?bp = Some (Inr (), bp3)" "pool_ok disk_pages disk_inv 0 bp3"
    "?v bp3 = ?v ?bp" "all_quiet disk_quiet bp3"
    using index.NewBTree_spec[OF r(2)] ne r(3,4) assms(8) by auto
  have "room bp3 = room ?bp" by (rule disk.handle.room_eq[OF r(2) b(2)]) (simp_all add: b(3))
  then have "\<exists>bp4. Search (FileHandle disk_manager 0) default_caps bp3 key =
      Some (Inr (case m key of None \<Rightarrow> (TID 0 0, False) | Some tid \<Rightarrow> (tid, True)), bp4)" for key
    using index.Search_map[OF b(2), of h m key] ix b r(4) assms(8) by auto
  then show ?thesis using True d b(1) by auto
qed

theorem index_survives_restart_witness:
  "\<exists>ps bp ks bp1 bp2 d bp3 bp4. Insert (FileHandle disk_manager 0) default_caps (pool_over 3 (file_of ps)) 7 (TID 1 2) = Some (Inr (), bp) \<and>
    FlushAll disk_manager ks bp = Some (Inr (), bp1) \<and> bp_Sync disk_manager bp1 = (Inr (), bp2) \<and>
    disk_Open (Some (durable (dm_file (files bp2 ! 0)))) [] = Inr d \<and>
    NewBTree (FileHandle disk_manager 0) (pool_over 1 d) = Some (Inr (), bp3) \<and>
    Search (FileHandle disk_manager 0) default_caps bp3 7 = Some (Inr (TID 1 2, True), bp4)"
proof -
  define ps where "ps = [meta_setRoot (meta_setMagic NewPage_frame metaMagic) 1, initLeaf NewPage_frame]"
  have t: "index_tree default_caps ps 0 (Leaf 1 [] invalidPID)"
    unfolding ps_def by (rule empty_index[OF production.btree_caps_axioms length_NewPage_frame length_NewPage_frame])
  then have i: "index_map default_caps ps 0 Map.empty" by (auto simp: index_map_def intro!: exI[of _ "Leaf 1 [] invalidPID"])
  have len: "\<And>p. p \<in> set ps \<Longrightarrow> length p = 8192" "length ps < 2 ^ 32"
    using t init_header(1)[OF length_NewPage_frame] by (auto simp: ps_def index_tree_def initLeaf_def)
  note f = file_of[OF len, of 3, simplified]
  obtain bp h ks bp1 bp2 n where c: "Insert (FileHandle disk_manager 0) default_caps (pool_over 3 (file_of ps)) 7 (TID 1 2) = Some (Inr (), bp)"
    "pool_ok disk_pages disk_inv 0 bp" "\<And>k. \<not> at_risk disk_pages bp k" "index_map default_caps (fpages (pool_view disk_pages 0 bp)) h [7 \<mapsto> TID 1 2]"
    "dom (pageTable bp) \<subseteq> set ks" "FlushAll disk_manager ks bp = Some (Inr (), bp1)" "bp_Sync disk_manager bp1 = (Inr (), bp2)"
    "length (durable (dm_file (files bp2 ! 0))) = unat (n :: PageID) * 8192"
    by (rule checkpoint_after_Insert[OF f(1,3) f(10)[folded whole_file_def], of 0 Map.empty 7 "TID 1 2"]) (use f(2,9) i in \<open>simp_all add: ps_def\<close>)
  have "length (durable (dm_file (files bp2 ! 0))) < 2 ^ 32 * 8192" using c(8) unsigned_less[of n, where ?'a = nat] by simp
  note again = index_survives_restart[OF c(2,3,5-7) refl, of 1 h "[7 \<mapsto> TID 1 2]", unfolded unat_0, OF this _ c(4)]
  obtain d bp3 where d: "disk_Open (Some (durable (dm_file (files bp2 ! 0)))) [] = Inr d" "NewBTree (FileHandle disk_manager 0) (pool_over 1 d) = Some (Inr (), bp3)"
    "\<forall>key. \<exists>bp4. Search (FileHandle disk_manager 0) default_caps bp3 key =
      Some (Inr (case [7 \<mapsto> TID 1 2] key of None \<Rightarrow> (TID 0 0, False) | Some tid \<Rightarrow> (tid, True)), bp4)"
    using again c(8) by auto
  obtain bp4 where "Search (FileHandle disk_manager 0) default_caps bp3 7 = Some (Inr (TID 1 2, True), bp4)" using spec[OF d(3), of 7] by auto
  then show ?thesis using c(1,6,7) d(1,2) by blast
qed

text \<open>A heap survives a restart: after a checkpoint that reported no error, when the file on the device is exactly its pages long, \<^verbatim>\<open>Get\<close>
  in a new pool returns every tuple that was bound before.\<close>

theorem heap_survives_restart:
  assumes "pool_ok disk_pages disk_inv fid bp" "\<And>k. \<not> at_risk disk_pages bp k"
    and "dom (pageTable bp) \<subseteq> set ks" "FlushAll disk_manager ks bp = Some (Inr (), bp1)" "bp_Sync disk_manager bp1 = (Inr (), bp2)"
    and "bytes = durable (dm_file (files bp2 ! unat fid))" "length bytes = length (fpages (pool_view disk_pages fid bp)) * 8192"
    and "disk_Open (Some bytes) [] = Inr d" "0 < n"
    and h: "heap_ok (fpages (pool_view disk_pages fid bp))" "row_at (fpages (pool_view disk_pages fid bp)) tid = Some data"
  shows "\<exists>bp'. heap_Get (FileHandle disk_manager 0) (pool_over n d) tid = Some (Inr data, bp')"
proof -
  let ?v = "pool_view disk_pages 0" and ?bp = "pool_over n d"
  have len: "length bytes < 2 ^ 32 * 8192" using assms(7) disk.handle.pages_bound[OF assms(1)] by simp
  obtain extra where r: "fpages (?v ?bp) = fpages (pool_view disk_pages fid bp) @ extra" "pool_ok disk_pages disk_inv 0 ?bp"
    "all_quiet disk_quiet ?bp" "room ?bp = nat n" "length bytes = length (fpages (pool_view disk_pages fid bp)) * 8192 \<longrightarrow> extra = []"
    by (rule restart_pages[OF assms(1-6) len assms(8,9)])
  then have "fpages (?v ?bp) = fpages (pool_view disk_pages fid bp)" using assms(7) by simp
  then show ?thesis using disk.handle.heap_Get_spec[OF r(2), of tid] h r(3,4) assms(9) by auto
qed

theorem heap_survives_restart_witness:
  "\<exists>bp bp2 d bp'. pageTable bp = Map.empty \<and> bp_Sync disk_manager bp = (Inr (), bp2) \<and>
    disk_Open (Some (durable (dm_file (files bp2 ! 0)))) [] = Inr d \<and>
    heap_Get (FileHandle disk_manager 0) (pool_over 1 d) (TID 0 0) = Some (Inr [1, 2], bp')"
proof -
  obtain p where p: "wf_page p" "tuples p = tuples (Init NewPage_frame) @ [[1, 2]]"
    using InsertTuple_ok[of "Init NewPage_frame" "[1, 2]"] wf_page_Init[of NewPage_frame] by auto
  define ps where "ps = [p]"
  have len: "\<And>p. p \<in> set ps \<Longrightarrow> length p = 8192" "length ps < 2 ^ 32" using wf_pageD(1)[OF p(1)] by (auto simp: ps_def)
  have h: "heap_ok ps" "row_at ps (TID 0 0) = Some [1, 2]"
    using p wf_page_Init(2)[of NewPage_frame] by (simp_all add: ps_def heap_ok_def row_at_def rows_def)
  note f = file_of[OF len, of 1, simplified]
  obtain bp2 where s: "bp_Sync disk_manager (pool_over 1 (file_of ps)) = (Inr (), bp2)" "durable (dm_file (files bp2 ! 0)) = concat ps"
    using f(6) by blast
  obtain d where d: "disk_Open (Some (concat ps)) [] = Inr d" using f(7) by blast
  from heap_survives_restart[OF f(1,3) _ _ s(1) _ _ d, where ks = "[]" and n = 1 and tid = "TID 0 0" and data = "[1, 2]"] f(2,4) s h d concat_pages(1)[OF len(1)]
  show ?thesis by auto
qed

end
