(* ===== verification/Record_Codec.thy ===== *)
theory Record_Codec
  imports Page_Layout
begin

text \<open>
  The record layer of \<^verbatim>\<open>internal/record/record.go\<close>: a schema encodes a row of typed values into
  tuple bytes (header, optional null bitmap, column data) and decodes it again. A value of Go type
  \<^verbatim>\<open>any\<close> is nil, an \<^verbatim>\<open>int64\<close> (its 64 bits), a string (its bytes), or a value of any other dynamic
  type. The loops over columns are recursions on the column list with the index or position they
  carry; a slice expression out of range is \<open>None\<close>.
\<close>

subsection \<open>Types\<close>

definition TypeInt :: u8 where "TypeInt = 0"
definition TypeText :: u8 where "TypeText = 1"

record Column =
  col_Name :: string
  col_Type :: u8
  Nullable :: bool

record Schema =
  Columns :: "Column list"

datatype any = VNil | VInt u64 | VText "byte list" | VOther

type_synonym Row = "any list"

subsection \<open>Encoding\<close>

text \<open>The validation loop: does a NULL occur, and how long is the column data?\<close>

fun encode_check :: "Column list \<Rightarrow> Row \<Rightarrow> bool \<Rightarrow> nat \<Rightarrow> err + bool \<times> nat" where
  "encode_check (col # cols) (v # vs) hasNull dataLen =
     (if v = VNil then
        (if \<not> Nullable col then Inl (Errorf ''record: column is not nullable but value is nil'')
         else encode_check cols vs True dataLen)
      else if col_Type col = TypeInt then
        (case v of
           VInt _ \<Rightarrow> encode_check cols vs hasNull (dataLen + 8)
         | _ \<Rightarrow> Inl (Errorf ''record: column expects int64''))
      else if col_Type col = TypeText then
        (case v of
           VText str \<Rightarrow>
             if length str > 65535 then Inl (Errorf ''record: column text too long'')
             else encode_check cols vs hasNull (dataLen + (2 + length str))
         | _ \<Rightarrow> Inl (Errorf ''record: column expects string''))
      else Inl (Errorf ''record: column has unknown type''))"
| "encode_check _ _ hasNull dataLen = Inr (hasNull, dataLen)"

text \<open>The null bitmap loop, on the slice \<^verbatim>\<open>buf[12:hoff]\<close>.\<close>

fun encode_nulls :: "Row \<Rightarrow> nat \<Rightarrow> byte list \<Rightarrow> byte list option" where
  "encode_nulls [] i bitmap = Some bitmap"
| "encode_nulls (v # vs) i bitmap =
     (if v = VNil then do {
        b \<leftarrow> idx bitmap (i div 8);
        encode_nulls vs (i + 1) (bitmap[i div 8 := b OR push_bit (i mod 8) 1])
      }
      else encode_nulls vs (i + 1) bitmap)"

text \<open>The column data loop.\<close>

fun encode_cols :: "Column list \<Rightarrow> Row \<Rightarrow> nat \<Rightarrow> byte list \<Rightarrow> byte list option" where
  "encode_cols (col # cols) (v # vs) pos buf =
     (case v of
        VInt x \<Rightarrow>
          if col_Type col = TypeInt then do {
            buf \<leftarrow> go_overwrite pos (be_bytes 8 x) buf;
            encode_cols cols vs (pos + 8) buf
          }
          else if col_Type col = TypeText then None
          else encode_cols cols vs pos buf
      | VText str \<Rightarrow>
          if col_Type col = TypeText then do {
            buf \<leftarrow> go_overwrite pos (be_bytes 2 (of_nat (length str) :: u16)) buf;
            rest \<leftarrow> go_slice buf (pos + 2) (length buf);
            let n = min (length rest) (length str);
            encode_cols cols vs (pos + 2 + n) (overwrite (pos + 2) (take n str) buf)
          }
          else if col_Type col = TypeInt then None
          else encode_cols cols vs pos buf
      | VOther \<Rightarrow>
          if col_Type col = TypeInt \<or> col_Type col = TypeText then None
          else encode_cols cols vs pos buf
      | VNil \<Rightarrow> encode_cols cols vs pos buf)"
| "encode_cols _ _ pos buf = Some buf"

definition Encode :: "Schema \<Rightarrow> Row \<Rightarrow> (err + byte list) option" where
  "Encode s row =
     (let cols = Columns s in
      if length row \<noteq> length cols then Some (Inl (Errorf ''record: row does not match schema''))
      else case encode_check cols row False 0 of
        Inl e \<Rightarrow> Some (Inl e)
      | Inr (hasNull, dataLen) \<Rightarrow>
          (let bitmapSize = (if hasNull then (length cols + 7) div 8 else 0);
               hoff = unat TupleHeaderSize + bitmapSize;
               buf = replicate (hoff + dataLen) 0
           in do {
             h \<leftarrow> TupleHeader buf;
             r \<leftarrow> SetColumnCount h (of_nat (length cols));
             case r of
               Inl e \<Rightarrow> Some (Inl (Wrap ''record'' e))
             | Inr h \<Rightarrow> do {
                 let h = SetHoff h (of_nat hoff);
                 h \<leftarrow> (if hasNull then do {
                          r \<leftarrow> SetFlags h FlagHasNull;
                          Some (case r of Inl _ \<Rightarrow> h | Inr h' \<Rightarrow> h')
                        } else Some h);
                 let buf = put_tuple_header h buf;
                 bitmap \<leftarrow> go_slice buf (unat TupleHeaderSize) hoff;
                 bitmap \<leftarrow> encode_nulls row 0 bitmap;
                 let buf = overwrite (unat TupleHeaderSize) bitmap buf;
                 buf \<leftarrow> encode_cols cols row hoff buf;
                 Some (Inr buf)
               }
           }))"

subsection \<open>Decoding\<close>

fun decode_cols :: "Column list \<Rightarrow> nat \<Rightarrow> nat \<Rightarrow> bool \<Rightarrow> byte list \<Rightarrow> byte list \<Rightarrow> (err + Row) option" where
  "decode_cols [] i pos hasNull bitmap data = Some (Inr [])"
| "decode_cols (col # cols) i pos hasNull bitmap data = do {
     null \<leftarrow> (if hasNull then do { b \<leftarrow> idx bitmap (i div 8); Some (b AND push_bit (i mod 8) 1 \<noteq> 0) }
             else Some False);
     if null then
       map_option (map_sum id ((#) VNil)) (decode_cols cols (i + 1) pos hasNull bitmap data)
     else if col_Type col = TypeInt then
       (if pos + 8 > length data then Some (Inl (Errorf ''record: truncated int''))
        else map_option (map_sum id ((#) (VInt (be_uint (subslice pos (pos + 8) data)))))
               (decode_cols cols (i + 1) (pos + 8) hasNull bitmap data))
     else if col_Type col = TypeText then
       (if pos + 2 > length data then Some (Inl (Errorf ''record: truncated text length''))
        else
          let n = unat (be_uint (subslice pos (pos + 2) data) :: u16); pos = pos + 2 in
          if pos + n > length data then Some (Inl (Errorf ''record: truncated text''))
          else map_option (map_sum id ((#) (VText (subslice pos (pos + n) data))))
                 (decode_cols cols (i + 1) (pos + n) hasNull bitmap data))
     else Some (Inl (Errorf ''record: column has unknown type''))
   }"

definition Decode :: "Schema \<Rightarrow> byte list \<Rightarrow> (err + Row) option" where
  "Decode s data =
     (let th = unat TupleHeaderSize; cols = Columns s in
      if length data < th then Some (Inl (Errorf ''record: shorter than the header''))
      else do {
        h \<leftarrow> TupleHeader data;
        if unat (ColumnCount h) \<noteq> length cols then Some (Inl (Errorf ''record: tuple columns, schema''))
        else
          let bitmapSize = (if HasNull h then (length cols + 7) div 8 else 0);
              hoff = th + bitmapSize
          in
          if unat (Hoff h) \<noteq> hoff then Some (Inl (Errorf ''record: header offset inconsistent''))
          else if length data < hoff then Some (Inl (Errorf ''record: truncated before column data''))
          else do {
            bitmap \<leftarrow> go_slice data th hoff;
            decode_cols cols 0 hoff (HasNull h) bitmap data
          }
      })"

subsection \<open>The abstract encoding\<close>

definition col_ok :: "Column \<Rightarrow> any \<Rightarrow> bool" where
  "col_ok col v \<longleftrightarrow> (case v of
       VNil \<Rightarrow> Nullable col
     | VInt _ \<Rightarrow> col_Type col = TypeInt
     | VText str \<Rightarrow> col_Type col = TypeText \<and> length str \<le> 65535
     | VOther \<Rightarrow> False)"

definition row_ok :: "Schema \<Rightarrow> Row \<Rightarrow> bool" where
  "row_ok s row \<longleftrightarrow> list_all2 col_ok (Columns s) row"

primrec col_bytes :: "any \<Rightarrow> byte list" where
  "col_bytes VNil = []"
| "col_bytes (VInt x) = be_bytes 8 x"
| "col_bytes (VText str) = be_bytes 2 (of_nat (length str) :: u16) @ str"
| "col_bytes VOther = []"

definition row_bytes :: "Row \<Rightarrow> byte list" where
  "row_bytes row = concat (map col_bytes row)"

lemma row_bytes_simps [simp]:
  "row_bytes [] = []" "row_bytes (v # vs) = col_bytes v @ row_bytes vs"
  by (simp_all add: row_bytes_def)

lemma types_differ [simp]: "TypeInt \<noteq> TypeText" "TypeText \<noteq> TypeInt"
  by (simp_all add: TypeInt_def TypeText_def)

subsection \<open>The loops\<close>

lemma encode_check_spec:
  assumes "length vs = length cols"
  shows "if list_all2 col_ok cols vs
    then encode_check cols vs hn n = Inr (hn \<or> VNil \<in> set vs, n + length (row_bytes vs))
    else \<exists>e. encode_check cols vs hn n = Inl e"
  using assms
proof (induction cols vs arbitrary: hn n rule: list_induct2')
  case (4 col cols v vs)
  then have len: "length vs = length cols" by simp
  show ?case
    using "4.IH"[OF len, of True n] "4.IH"[OF len, of hn "n + 8"]
      "4.IH"[OF len, of hn "n + (2 + length (case v of VText str \<Rightarrow> str | _ \<Rightarrow> []))"]
    by (cases v) (auto simp: col_ok_def split: if_splits)
qed auto

lemma encode_cols_spec:
  assumes "list_all2 col_ok cols vs" "pos + length (row_bytes vs) \<le> length buf"
  shows "encode_cols cols vs pos buf = Some (overwrite pos (row_bytes vs) buf)"
  using assms
proof (induction cols vs arbitrary: pos buf rule: list_all2_induct)
  case Nil
  then show ?case by (simp add: overwrite_def)
next
  case (Cons col cols v vs)
  have step: "encode_cols cols vs (pos + length (col_bytes v)) (overwrite pos (col_bytes v) buf) =
      Some (overwrite pos (row_bytes (v # vs)) buf)"
    using Cons.IH[of "pos + length (col_bytes v)" "overwrite pos (col_bytes v) buf"] Cons.prems
      overwrite_append[of pos "col_bytes v" "row_bytes vs" buf] by simp
  show ?case
  proof (cases v)
    case VNil
    then show ?thesis using step by (simp add: overwrite_def)
  next
    case (VInt x)
    then show ?thesis using step Cons.hyps(1) Cons.prems by (simp add: col_ok_def go_overwrite_def)
  next
    case (VText str)
    let ?n = "be_bytes 2 (of_nat (length str) :: u16)"
    have "overwrite (pos + 2) str (overwrite pos ?n buf) = overwrite pos (col_bytes v) buf"
      using overwrite_append[of pos ?n str buf] Cons.prems VText by simp
    then show ?thesis
      using step Cons.hyps(1) Cons.prems VText by (simp add: col_ok_def go_overwrite_def go_slice_def slice_simps add.assoc)
  next
    case VOther
    then show ?thesis using Cons.hyps(1) by (simp add: col_ok_def)
  qed
qed

text \<open>The bitmap as a set of bit positions, least significant bit first.\<close>

definition null_bit :: "byte list \<Rightarrow> nat \<Rightarrow> bool" where
  "null_bit bm j = bit (bm ! (j div 8)) (j mod 8)"

lemma null_bit_update:
  assumes "i < 8 * length bm" "j < 8 * length bm"
  shows "null_bit (bm[i div 8 := bm ! (i div 8) OR push_bit (i mod 8) 1]) j \<longleftrightarrow> null_bit bm j \<or> j = i"
proof (cases "j div 8 = i div 8")
  case True
  then have "j = i \<longleftrightarrow> j mod 8 = i mod 8" by (metis div_mult_mod_eq)
  moreover have "bit (push_bit (i mod 8) (1 :: byte)) (j mod 8) \<longleftrightarrow> j mod 8 = i mod 8"
    by (auto simp: bit_exp_iff)
  ultimately show ?thesis using True assms by (auto simp: null_bit_def bit_or_iff)
next
  case False
  then show ?thesis using assms by (auto simp: null_bit_def)
qed

lemma encode_nulls_spec:
  assumes "i + length vs \<le> 8 * length bm"
  obtains bm' where "encode_nulls vs i bm = Some bm'" "length bm' = length bm"
    "\<And>j. j < 8 * length bm \<Longrightarrow> null_bit bm' j \<longleftrightarrow>
       null_bit bm j \<or> (i \<le> j \<and> j < i + length vs \<and> vs ! (j - i) = VNil)"
  using assms
proof (induction vs arbitrary: i bm thesis)
  case Nil
  then show ?case by (intro Nil.prems(1)[of bm]) auto
next
  case (Cons v vs)
  define b where "b = (if v = VNil then bm[i div 8 := bm ! (i div 8) OR push_bit (i mod 8) 1] else bm)"
  have i: "i < 8 * length bm" and len: "length b = length bm" using Cons.prems(2) by (auto simp: b_def)
  have nb: "null_bit b j \<longleftrightarrow> null_bit bm j \<or> (j = i \<and> v = VNil)" if "j < 8 * length bm" for j
    using null_bit_update[OF i that] by (auto simp: b_def)
  have "encode_nulls (v # vs) i bm = encode_nulls vs (i + 1) b"
    using i by (auto simp: b_def idx_def)
  moreover obtain bm' where bm': "encode_nulls vs (i + 1) b = Some bm'" "length bm' = length b"
    "\<And>j. j < 8 * length b \<Longrightarrow> null_bit bm' j \<longleftrightarrow>
       null_bit b j \<or> (i + 1 \<le> j \<and> j < i + 1 + length vs \<and> vs ! (j - (i + 1)) = VNil)"
    using Cons.IH[of "i + 1" b] Cons.prems(2) len by auto
  moreover have "null_bit bm' j \<longleftrightarrow> null_bit bm j \<or> (i \<le> j \<and> j < i + length (v # vs) \<and> (v # vs) ! (j - i) = VNil)"
    if "j < 8 * length bm" for j
  proof (cases "i < j")
    case True
    then have "(v # vs) ! (j - i) = vs ! (j - (i + 1))" by (simp add: nth_Cons')
    then show ?thesis using bm'(3)[of j] nb[OF that] len that True by auto
  next
    case False
    then show ?thesis using bm'(3)[of j] nb[OF that] len that by (cases "j = i") auto
  qed
  ultimately show ?case using Cons.prems(1)[of bm'] len by (simp del: encode_nulls.simps)
qed

lemma encode_nulls_none: "VNil \<notin> set vs \<Longrightarrow> encode_nulls vs i bm = Some bm"
  by (induction vs arbitrary: i) auto

lemma decode_cols_spec:
  assumes "list_all2 col_ok cols vs" "pos + length (row_bytes vs) \<le> length data"
    and "subslice pos (pos + length (row_bytes vs)) data = row_bytes vs"
    and "\<And>j. j < length vs \<Longrightarrow> hasNull \<Longrightarrow> (i + j) div 8 < length bm \<and> (null_bit bm (i + j) \<longleftrightarrow> vs ! j = VNil)"
    and "\<not> hasNull \<Longrightarrow> VNil \<notin> set vs"
  shows "decode_cols cols i pos hasNull bm data = Some (Inr vs)"
  using assms
proof (induction cols vs arbitrary: i pos rule: list_all2_induct)
  case Nil
  then show ?case by simp
next
  case (Cons col cols v vs)
  let ?n = "length (col_bytes v)"
  have sub: "subslice (pos + a) (pos + b) data = subslice a b (row_bytes (v # vs))"
    if "b \<le> length (row_bytes (v # vs))" for a b
    using that Cons.prems(2)[symmetric] by (simp add: subslice_subslice)
  have "subslice (pos + ?n) (pos + ?n + length (row_bytes vs)) data = row_bytes vs"
    using sub[of "?n + length (row_bytes vs)" ?n] by (simp add: subslice_append_right add.assoc)
  moreover have "(Suc i + j) div 8 < length bm \<and> (null_bit bm (Suc i + j) \<longleftrightarrow> vs ! j = VNil)"
    if "j < length vs" hasNull for j using Cons.prems(3)[of "Suc j"] that by simp
  ultimately have rest: "decode_cols cols (Suc i) (pos + ?n) hasNull bm data = Some (Inr vs)"
    using Cons.prems by (intro Cons.IH) auto
  have null: "(if hasNull then do { b \<leftarrow> idx bm (i div 8); Some (b AND push_bit (i mod 8) 1 \<noteq> 0) }
      else Some False) = Some (v = VNil)"
    using Cons.prems(3)[of 0] Cons.prems(4)
    by (auto simp: idx_def null_bit_def bit_iff_and_push_bit_not_eq_0)
  show ?case
  proof (cases v)
    case VNil
    then show ?thesis using rest null by simp
  next
    case (VInt x)
    then have "col_Type col = TypeInt" using Cons.hyps(1) by (simp add: col_ok_def)
    moreover have "be_uint (subslice pos (pos + 8) data) = x"
      using sub[of 8 0] VInt by (simp add: subslice_append_left) (simp add: subslice_def)
    ultimately show ?thesis using rest null VInt Cons.prems(1) by simp
  next
    case (VText str)
    then have ty: "col_Type col = TypeText" "length str \<le> 65535" using Cons.hyps(1) by (auto simp: col_ok_def)
    have "subslice pos (pos + 2) data = be_bytes 2 (of_nat (length str) :: u16)"
      using sub[of 2 0] VText by (simp add: subslice_append_left) (simp add: subslice_def)
    then have n: "unat (be_uint (subslice pos (pos + 2) data) :: u16) = length str"
      using ty(2) by (simp add: unat_of_nat_small)
    have "subslice (pos + 2) (pos + 2 + length str) data = str"
      using sub[of "2 + length str" 2] VText by (simp add: add.assoc) (simp add: subslice_def)
    then show ?thesis using rest null VText ty Cons.prems(1) n by (simp add: Let_def add.assoc)
  next
    case VOther
    then show ?thesis using Cons.hyps(1) by (simp add: col_ok_def)
  qed
qed

subsection \<open>The encoded tuple\<close>

lemma tuple_header_zero:
  "tuple_header_of (replicate 12 0) = \<lparr>t_xmin = 0, t_xmax = 0, t_flags = 0, t_col_count = 0, t_hoff = 0\<rparr>"
  by code_simp

definition row_header :: "nat \<Rightarrow> bool \<Rightarrow> nat \<Rightarrow> tuple_header" where
  "row_header n nulls hoff = \<lparr>t_xmin = 0, t_xmax = 0, t_flags = (if nulls then FlagHasNull else 0),
     t_col_count = of_nat n, t_hoff = of_nat hoff\<rparr>"

lemma HasNull_row_header:
  assumes "tuple_header_of h = row_header n nulls hoff" shows "HasNull h = nulls"
proof -
  have "Flags h = (if nulls then FlagHasNull else 0)"
    using arg_cong[OF assms, of t_flags] by (simp add: tuple_header_of_def row_header_def)
  then show ?thesis by (simp add: HasNull_def FlagHasNull_def)
qed

text \<open>The header the code builds for a row.\<close>

lemma encode_header:
  assumes n: "n mod 65536 \<le> 1023" and h2_eq: "h2 = (\<lambda>h1. SetHoff h1 (of_nat (12 + bs)))"
  obtains h1 h3 where "SetColumnCount (replicate 12 0) (of_nat n) = Some (Inr h1)" "SetFlags (h2 h1) FlagHasNull = Some (Inr h3)"
    "length (if nulls then h3 else h2 h1) = 12" "tuple_header_of (if nulls then h3 else h2 h1) = row_header n nulls (12 + bs)"
proof -
  obtain h1 where h1: "SetColumnCount (replicate 12 0) (of_nat n) = Some (Inr h1)" "length h1 = 12"
    "tuple_header_of h1 = tuple_header_of (replicate 12 0)\<lparr>t_col_count := of_nat n\<rparr>"
    using SetColumnCount_ok[of "replicate 12 0" "of_nat n"] n by (auto simp: unat_of_nat)
  have h2: "length (h2 h1) = 12" "tuple_header_of (h2 h1) = tuple_header_of h1\<lparr>t_hoff := of_nat (12 + bs)\<rparr>"
    using tuple_header_word_setters[OF h1(2)] by (simp_all add: h2_eq)
  obtain h3 where h3: "SetFlags (h2 h1) FlagHasNull = Some (Inr h3)" "length h3 = 12"
    "tuple_header_of h3 = tuple_header_of (h2 h1)\<lparr>t_flags := FlagHasNull\<rparr>"
    using SetFlags_ok[OF h2(1), of FlagHasNull] by (auto simp: FlagHasNull_def)
  show thesis
    by (rule that[OF h1(1) h3(1)]) (use h1 h2 h3 in \<open>auto simp: tuple_header_zero row_header_def\<close>)
qed

text \<open>The null bitmap of a row, starting from zero bytes.\<close>

lemma encode_bitmap:
  assumes bs: "bs = (if VNil \<in> set row then (length row + 7) div 8 else 0)"
  obtains bm where "encode_nulls row 0 (replicate bs 0) = Some bm" "length bm = bs"
    "\<And>j. VNil \<in> set row \<Longrightarrow> j < length row \<Longrightarrow> null_bit bm j \<longleftrightarrow> row ! j = VNil"
proof (cases "VNil \<in> set row")
  case True
  then have le: "length row \<le> 8 * bs" by (simp add: bs)
  then have "0 + length row \<le> 8 * length (replicate bs (0 :: byte))" by simp
  then obtain bm where "encode_nulls row 0 (replicate bs 0) = Some bm" "length bm = bs"
    "\<And>j. j < 8 * bs \<Longrightarrow> null_bit bm j \<longleftrightarrow> null_bit (replicate bs 0) j \<or> (j < length row \<and> row ! j = VNil)"
    by (rule encode_nulls_spec) auto
  moreover have "\<not> null_bit (replicate bs 0) j" if "j < 8 * bs" for j
    using that by (simp add: null_bit_def less_mult_imp_div_less mult.commute)
  ultimately show thesis using that[of bm] le by (auto dest: less_le_trans)
next
  case False
  then show thesis using that[of "[]"] encode_nulls_none[OF False] by (simp add: bs)
qed

lemma Encode_layout:
  assumes ok: "row_ok s row" and n: "length (Columns s) mod 65536 \<le> 1023"
  obtains h bm where "Encode s row = Some (Inr (h @ bm @ row_bytes row))" "length h = 12"
    "length bm = (if VNil \<in> set row then (length row + 7) div 8 else 0)"
    "tuple_header_of h = row_header (length row) (VNil \<in> set row) (12 + length bm)"
    "\<And>j. VNil \<in> set row \<Longrightarrow> j < length row \<Longrightarrow> null_bit bm j \<longleftrightarrow> row ! j = VNil"
proof -
  let ?n = "length (Columns s)" and ?nulls = "VNil \<in> set row"
  have len: "length row = ?n" using ok by (simp add: row_ok_def list_all2_lengthD)
  define bs where "bs = (if ?nulls then (?n + 7) div 8 else 0)"
  define buf where "buf = replicate (12 + bs + length (row_bytes row)) (0 :: byte)"
  have chk: "encode_check (Columns s) row False 0 = Inr (?nulls, length (row_bytes row))"
    using encode_check_spec[OF len, of False 0] ok by (simp add: row_ok_def)
  have th: "TupleHeader buf = Some (replicate 12 0)"
    by (simp add: TupleHeader_def layout_simps go_slice_def buf_def subslice_def min_def)
  obtain h1 h3 where hd: "SetColumnCount (replicate 12 0) (of_nat ?n) = Some (Inr h1)" "SetFlags (SetHoff h1 (of_nat (12 + bs))) FlagHasNull = Some (Inr h3)"
    "length (if ?nulls then h3 else SetHoff h1 (of_nat (12 + bs))) = 12"
    "tuple_header_of (if ?nulls then h3 else SetHoff h1 (of_nat (12 + bs))) = row_header ?n ?nulls (12 + bs)"
    by (rule encode_header[OF n refl])
  define h where "h = (if ?nulls then h3 else SetHoff h1 (of_nat (12 + bs)))"
  have h: "length h = 12" "tuple_header_of h = row_header (length row) ?nulls (12 + bs)" using hd(3,4) by (simp_all add: h_def len)
  have put: "put_tuple_header h buf = h @ replicate (bs + length (row_bytes row)) 0"
    using h(1) by (simp add: put_tuple_header_def overwrite_def buf_def)
  have sl: "go_slice (h @ replicate (bs + length (row_bytes row)) 0) 12 (12 + bs) = Some (replicate bs 0)"
    using h(1) by (simp add: go_slice_def subslice_def min_def)
  obtain bm where bm: "encode_nulls row 0 (replicate bs 0) = Some bm" "length bm = bs"
    "\<And>j. ?nulls \<Longrightarrow> j < length row \<Longrightarrow> null_bit bm j \<longleftrightarrow> row ! j = VNil"
    by (rule encode_bitmap[of bs row]) (auto simp: bs_def len)
  have ov: "overwrite 12 bm (h @ replicate (bs + length (row_bytes row)) 0) = h @ bm @ replicate (length (row_bytes row)) 0"
    using h(1) bm(2) by (simp add: overwrite_def)
  have cols: "encode_cols (Columns s) row (12 + bs) (h @ bm @ replicate (length (row_bytes row)) 0) = Some (h @ bm @ row_bytes row)"
    using encode_cols_spec[of "Columns s" row "12 + bs" "h @ bm @ replicate (length (row_bytes row)) 0"] ok h(1) bm(2)
    by (simp add: row_ok_def overwrite_def)
  have "Encode s row = Some (Inr (h @ bm @ row_bytes row))"
  proof (cases ?nulls)
    case True
    then have "(?n + 7) div 8 = bs" "h = h3" by (simp_all add: bs_def h_def)
    then show ?thesis
      using th hd(1,2) put sl bm(1) ov len chk cols buf_def[symmetric] True
      by (simp add: Encode_def layout_simps Let_def)
  next
    case False
    then have "bs = 0" "h = SetHoff h1 (of_nat (12 + bs))" by (simp_all add: bs_def h_def)
    then show ?thesis
      using th hd(1) put sl bm(1) ov len chk cols buf_def[symmetric] False
      by (simp add: Encode_def layout_simps Let_def)
  qed
  then show thesis using that[of h bm] h bm by (simp add: bs_def len)
qed

text \<open>Decoding a concatenation of header, bitmap and column data.\<close>

lemma Decode_layout:
  assumes ok: "row_ok s row" and n: "length (Columns s) \<le> 1023" and h: "length h = 12"
    and bm: "length bm = (if VNil \<in> set row then (length row + 7) div 8 else 0)"
    and th: "tuple_header_of h = row_header (length row) (VNil \<in> set row) (12 + length bm)"
    and nb: "\<And>j. VNil \<in> set row \<Longrightarrow> j < length row \<Longrightarrow> null_bit bm j \<longleftrightarrow> row ! j = VNil"
  shows "Decode s (h @ bm @ row_bytes row @ junk) = Some (Inr row)"
proof -
  let ?data = "h @ bm @ row_bytes row @ junk"
  have len: "length row = length (Columns s)" using ok by (simp add: row_ok_def list_all2_lengthD)
  have cc: "unat (ColumnCount h) = length (Columns s)" and ho: "unat (Hoff h) = 12 + length bm"
    using arg_cong[OF th, of t_col_count] arg_cong[OF th, of t_hoff] n len bm
    by (auto simp: tuple_header_of_def row_header_def unat_of_nat_small unat_word_ariths
        simp del: of_nat_add split: if_splits)
  have slice: "TupleHeader ?data = Some h" "go_slice ?data 12 (12 + length bm) = Some bm"
    using h by (simp_all add: TupleHeader_def layout_simps go_slice_def subslice_def)
  have "decode_cols (Columns s) 0 (12 + length bm) (VNil \<in> set row) bm ?data = Some (Inr row)"
  proof (rule decode_cols_spec)
    show "list_all2 col_ok (Columns s) row" using ok by (simp add: row_ok_def)
    show "subslice (12 + length bm) (12 + length bm + length (row_bytes row)) ?data = row_bytes row"
      using h by (simp add: subslice_def)
    show "(0 + j) div 8 < length bm \<and> (null_bit bm (0 + j) \<longleftrightarrow> row ! j = VNil)"
      if "j < length row" "VNil \<in> set row" for j using nb[of j] that bm by auto
  qed (use h in auto)
  then show ?thesis
    using cc ho slice h bm HasNull_row_header[OF th] len
    by (cases "VNil \<in> set row") (simp_all add: Decode_def layout_simps Let_def)
qed

lemma Encode_decodes:
  assumes "row_ok s row" "length (Columns s) \<le> 1023"
  shows "\<exists>data. Encode s row = Some (Inr data) \<and> Decode s (data @ junk) = Some (Inr row) \<and>
    length data = 12 + (if VNil \<in> set row then (length row + 7) div 8 else 0) + length (row_bytes row)"
proof (rule Encode_layout[of s row])
  fix h bm
  assume e: "Encode s row = Some (Inr (h @ bm @ row_bytes row))" and h: "length h = 12"
    and bm: "length bm = (if VNil \<in> set row then (length row + 7) div 8 else 0)"
    and th: "tuple_header_of h = row_header (length row) (VNil \<in> set row) (12 + length bm)"
    and nb: "\<And>j. VNil \<in> set row \<Longrightarrow> j < length row \<Longrightarrow> null_bit bm j \<longleftrightarrow> row ! j = VNil"
  have "Decode s ((h @ bm @ row_bytes row) @ junk) = Some (Inr row)"
    using Decode_layout[OF assms h bm th nb, of junk] by simp
  then show ?thesis using e h bm by (intro exI[of _ "h @ bm @ row_bytes row"]) simp
qed (use assms in auto)

text \<open>C21. Encoding a row that matches its schema (at most 1023 columns) succeeds, and decoding the
  result with the same schema gives the row back, also when further bytes follow the tuple.\<close>

theorem Decode_Encode:
  assumes "row_ok s row" "length (Columns s) \<le> 1023"
  shows "\<exists>data. Encode s row = Some (Inr data) \<and> Decode s (data @ junk) = Some (Inr row) \<and>
    length data = 12 + (if VNil \<in> set row then (length row + 7) div 8 else 0) + length (row_bytes row)"
  by (rule Encode_decodes[OF assms])

definition demo_schema :: Schema where
  "demo_schema = \<lparr>Columns =
     [\<lparr>col_Name = ''id'', col_Type = TypeInt, Nullable = False\<rparr>,
      \<lparr>col_Name = ''name'', col_Type = TypeText, Nullable = True\<rparr>]\<rparr>"

theorem Decode_Encode_witness:
  "\<exists>data. Encode demo_schema [VInt 7, VNil] = Some (Inr data) \<and>
     Decode demo_schema (data @ [1]) = Some (Inr [VInt 7, VNil]) \<and> length data = 21"
  using Decode_Encode[of demo_schema "[VInt 7, VNil]" "[1]"]
  by (simp add: row_ok_def col_ok_def demo_schema_def)

subsection \<open>Errors\<close>

lemma Encode_too_wide:
  assumes "row_ok s row" "1023 < length (Columns s) mod 65536"
  shows "\<exists>e. Encode s row = Some (Inl e)"
proof -
  have len: "length row = length (Columns s)" using assms by (simp add: row_ok_def list_all2_lengthD)
  have chk: "encode_check (Columns s) row False 0 = Inr (VNil \<in> set row, length (row_bytes row))"
    using encode_check_spec[OF len, of False 0] assms(1) by (simp add: row_ok_def)
  have th: "TupleHeader (replicate (12 + m) 0) = Some (replicate 12 0)" for m
    by (simp add: TupleHeader_def layout_simps go_slice_def subslice_def min_def)
  obtain e where "SetColumnCount (replicate 12 0) (of_nat (length (Columns s))) = Some (Inl e)"
    using SetColumnCount_too_wide[of "replicate 12 0" "of_nat (length (Columns s))"] assms(2)
    by (auto simp: unat_of_nat)
  then show ?thesis using th len chk by (simp add: Encode_def layout_simps Let_def add.assoc)
qed

lemma Encode_bad_row:
  assumes "\<not> row_ok s row"
  shows "\<exists>e. Encode s row = Some (Inl e)"
proof (cases "length row = length (Columns s)")
  case True
  then obtain e where "encode_check (Columns s) row False 0 = Inl e"
    using encode_check_spec[OF True, of False 0] assms by (auto simp: row_ok_def)
  then show ?thesis using True by (simp add: Encode_def)
qed (simp add: Encode_def)

text \<open>C22. Encode never panics. It succeeds exactly on rows whose values match the schema and whose
  column count, truncated to 16 bits, fits the 10-bit header field; so a schema of 65536 columns
  passes the check, and what it encodes cannot be decoded.\<close>

theorem Encode_succeeds_iff:
  "\<exists>r. Encode s row = Some r \<and>
     ((\<exists>data. r = Inr data) = (row_ok s row \<and> length (Columns s) mod 65536 \<le> 1023)) \<and>
     (\<forall>data. r = Inr data \<longrightarrow> (Decode s data = Some (Inr row)) = (length (Columns s) \<le> 1023))"
proof (cases "row_ok s row \<and> length (Columns s) mod 65536 \<le> 1023")
  case True
  then obtain h bm where e: "Encode s row = Some (Inr (h @ bm @ row_bytes row))" and h: "length h = 12"
    and bm: "length bm = (if VNil \<in> set row then (length row + 7) div 8 else 0)"
    and th: "tuple_header_of h = row_header (length row) (VNil \<in> set row) (12 + length bm)"
    and nb: "\<And>j. VNil \<in> set row \<Longrightarrow> j < length row \<Longrightarrow> null_bit bm j \<longleftrightarrow> row ! j = VNil"
    using Encode_layout[of s row] by metis
  have "Decode s (h @ bm @ row_bytes row) \<noteq> Some (Inr row)" if "length (Columns s) > 1023"
  proof -
    have "length row = length (Columns s)" using True by (auto simp: row_ok_def dest: list_all2_lengthD)
    then have "unat (ColumnCount h) = length (Columns s) mod 65536"
      using arg_cong[OF th, of t_col_count] by (simp add: tuple_header_of_def row_header_def unat_of_nat)
    then show ?thesis using that True h
      by (auto simp: Decode_def TupleHeader_def layout_simps go_slice_def subslice_def Let_def)
  qed
  then show ?thesis using e True Decode_layout[of s row h bm "[]"] h bm th nb
    by (auto simp: linorder_not_le[symmetric])
next
  case False
  then show ?thesis using Encode_too_wide[of s row] Encode_bad_row[of s row] by fastforce
qed

theorem Encode_succeeds_iff_witness:
  "\<exists>data. Encode demo_schema [VInt 7, VText [104, 105]] = Some (Inr data) \<and>
     Decode demo_schema data = Some (Inr [VInt 7, VText [104, 105]])"
  using Encode_succeeds_iff[of demo_schema "[VInt 7, VText [104, 105]]"]
  by (auto simp: row_ok_def col_ok_def demo_schema_def)

text \<open>What a decoded row can hold: the schema's types, and NULL in any column.\<close>

definition row_shape :: "Column list \<Rightarrow> Row \<Rightarrow> bool" where
  "row_shape cols row \<longleftrightarrow> list_all2 (\<lambda>col v. v = VNil \<or> col_ok col v) cols row"

definition decoded :: "Column list \<Rightarrow> (err + Row) option \<Rightarrow> bool" where
  "decoded cols r \<longleftrightarrow> (case r of None \<Rightarrow> False | Some (Inl _) \<Rightarrow> True | Some (Inr row) \<Rightarrow> row_shape cols row)"

lemma decoded_simps [simp]:
  "decoded cols (Some (Inl e))" "decoded cols (Some (Inr row)) = row_shape cols row"
  by (simp_all add: decoded_def)

lemma decoded_Cons:
  "decoded cols r \<Longrightarrow> v = VNil \<or> col_ok col v \<Longrightarrow> decoded (col # cols) (map_option (map_sum id ((#) v)) r)"
  by (auto simp: decoded_def row_shape_def split: option.splits sum.splits)

lemma decode_cols_total:
  assumes "hasNull \<Longrightarrow> i + length cols \<le> 8 * length bm"
  shows "decoded cols (decode_cols cols i pos hasNull bm data)"
  using assms
proof (induction cols arbitrary: i pos)
  case Nil
  then show ?case by (simp add: row_shape_def)
next
  case (Cons col cols)
  have rest: "decoded cols (decode_cols cols (i + 1) p hasNull bm data)" for p
    using Cons.prems by (intro Cons.IH) auto
  have txtlen: "length (subslice a b data) \<le> 65535" if "b = a + unat (x :: u16)" for a b x
    using unsigned_less[of x, where 'a = nat] that by (simp add: subslice_def)
  obtain b where null: "(if hasNull then do { b \<leftarrow> idx bm (i div 8); Some (b AND push_bit (i mod 8) 1 \<noteq> 0) }
      else Some False) = Some b"
  proof (cases hasNull)
    case True
    then have "i div 8 < length bm" using Cons.prems by auto
    then show thesis using that True by (simp add: idx_def)
  qed (use that in simp)
  show ?case
    unfolding decode_cols.simps null
    using decoded_Cons[OF rest] by (auto simp: Let_def col_ok_def txtlen)
qed

text \<open>C23. Decode never panics, whatever the bytes, and a row it returns has one value per column, each
  NULL or of the column's type. (It does not check that a NULL column is nullable.)\<close>

theorem Decode_total:
  "decoded (Columns s) (Decode s data)"
proof (cases "length data < 12")
  case True
  then show ?thesis by (simp add: Decode_def layout_simps)
next
  case False
  then obtain h where h: "TupleHeader data = Some h" by (simp add: TupleHeader_def layout_simps go_slice_def)
  let ?hoff = "12 + (if HasNull h then (length (Columns s) + 7) div 8 else 0)"
  have "decoded (Columns s) (decode_cols (Columns s) 0 ?hoff (HasNull h) (subslice 12 ?hoff data) data)"
    if "?hoff \<le> length data"
    using that by (intro decode_cols_total) (auto simp: subslice_def)
  then show ?thesis using False h by (auto simp: Decode_def layout_simps Let_def go_slice_def)
qed

end
