(* ===== verification/Row_Storage.thy ===== *)
theory Row_Storage
  imports Restart Record_Codec
begin

text \<open>
  The path of a row through the whole stack, as the integration test of \<^verbatim>\<open>internal/record\<close> and the layers above use it: the row is
  encoded, the tuple goes into a heap file, its TID into an index file of the same buffer pool, and the row is found again by
  its key. The two files share the frames of the pool, so an operation on one may evict pages of the other.
\<close>

subsection \<open>Two files in one pool\<close>

text \<open>What an operation that keeps \<open>others\<close> of one file does to another file: nothing.\<close>

lemma others_view:
  assumes "others (pool_view pages a bp') = others (pool_view pages a bp)" "b \<noteq> a" "npages pages bp b \<le> 2 ^ 32"
  shows "fpages (pool_view pages b bp') = fpages (pool_view pages b bp)" "unsaved (pool_view pages b bp') = unsaved (pool_view pages b bp)"
    "length (files bp') = length (files bp)"
proof -
  have o: "length (files bp') = length (files bp)" "(npages pages bp')(a := 0) = (npages pages bp)(a := 0)"
    "(\<lambda>k. if pk_file k = a \<or> npages pages bp' (pk_file k) \<le> unat (pk_pid k) then [] else page_of pages bp' k) =
      (\<lambda>k. if pk_file k = a \<or> npages pages bp (pk_file k) \<le> unat (pk_pid k) then [] else page_of pages bp k)"
    "(\<lambda>k. pk_file k \<noteq> a \<and> at_risk pages bp' k) = (\<lambda>k. pk_file k \<noteq> a \<and> at_risk pages bp k)"
    using assms(1) unfolding pool_view_def mk_view_def by simp_all
  have n: "npages pages bp' b = npages pages bp b" using fun_cong[OF o(2), of b] assms(2) by simp
  note p = fun_cong[OF o(3)] and r = fun_cong[OF o(4)]
  have "page_of pages bp' (PageKey b (of_nat i)) = page_of pages bp (PageKey b (of_nat i))" if i: "i < npages pages bp b" for i
    using p[of "PageKey b (of_nat i)"] assms(2,3) n i by (simp add: unat_of_nat_small)
  then show "fpages (pool_view pages b bp') = fpages (pool_view pages b bp)" by (simp add: pool_view_def mk_view_def n)
  show "unsaved (pool_view pages b bp') = unsaved (pool_view pages b bp)"
    using r[of "PageKey b pid" for pid] assms(2) by (simp add: pool_view_def mk_view_def)
  show "length (files bp') = length (files bp)" by (rule o(1))
qed

lemma other_file:
  assumes a: "pool_ok disk_pages disk_inv a bp'" "pool_view disk_pages a bp' = pool_view disk_pages a bp\<lparr>fpages := ps'\<rparr>"
    and b: "pool_ok disk_pages disk_inv b bp" "b \<noteq> a"
  shows "pool_ok disk_pages disk_inv b bp'" "fpages (pool_view disk_pages b bp') = fpages (pool_view disk_pages b bp)"
    "unsaved (pool_view disk_pages b bp') = unsaved (pool_view disk_pages b bp)"
proof -
  have "npages disk_pages bp b < 2 ^ 32" using b(1) by (intro disk.npages_bound) (simp add: pool_ok_def)
  then have o: "fpages (pool_view disk_pages b bp') = fpages (pool_view disk_pages b bp)"
    "unsaved (pool_view disk_pages b bp') = unsaved (pool_view disk_pages b bp)" "length (files bp') = length (files bp)"
    using others_view[of disk_pages a bp' bp b] a(2) b(2) by simp_all
  then show "pool_ok disk_pages disk_inv b bp'" using a(1) b(1) by (simp add: pool_ok_def)
  show "fpages (pool_view disk_pages b bp') = fpages (pool_view disk_pages b bp)"
    "unsaved (pool_view disk_pages b bp') = unsaved (pool_view disk_pages b bp)" by (rule o)+
qed

subsection \<open>A table file and its index\<close>

text \<open>A heap file and an index file of one pool, both well formed and with no page changed behind the pool's back.\<close>

definition table_pool :: "FileID \<Rightarrow> FileID \<Rightarrow> nat \<Rightarrow> (int64 \<rightharpoonup> TID) \<Rightarrow> DiskManager BufferPool \<Rightarrow> bool" where
  "table_pool hf xf h m bp \<longleftrightarrow> hf \<noteq> xf \<and> pool_ok disk_pages disk_inv hf bp \<and> pool_ok disk_pages disk_inv xf bp \<and>
     heap_ok (fpages (pool_view disk_pages hf bp)) \<and> index_map default_caps (fpages (pool_view disk_pages xf bp)) h m \<and>
     (\<forall>pid. \<not> unsaved (pool_view disk_pages hf bp) pid \<and> \<not> unsaved (pool_view disk_pages xf bp) pid)"

abbreviation heap_rows :: "FileID \<Rightarrow> DiskManager BufferPool \<Rightarrow> TID \<rightharpoonup> byte list" where
  "heap_rows hf bp \<equiv> row_at (fpages (pool_view disk_pages hf bp))"

text \<open>Storing a tuple in the heap changes the heap only.\<close>

lemma table_heap_result:
  assumes t: "table_pool hf xf h m bp" and i: "heap_Insert (FileHandle disk_manager hf) bp data = Some (r, bp')"
  shows "table_pool hf xf h m bp'" "case r of Inl _ \<Rightarrow> heap_rows hf bp' = heap_rows hf bp
    | Inr tid \<Rightarrow> heap_rows hf bp tid = None \<and> heap_rows hf bp' = (heap_rows hf bp)(tid \<mapsto> data)"
proof -
  have p: "pool_ok disk_pages disk_inv hf bp" "heap_ok (fpages (pool_view disk_pages hf bp))" "\<And>pid. \<not> unsaved (pool_view disk_pages hf bp) pid"
    and x: "pool_ok disk_pages disk_inv xf bp" "xf \<noteq> hf" using t by (auto simp: table_pool_def)
  obtain ps' where s: "pool_ok disk_pages disk_inv hf bp'" "pool_view disk_pages hf bp' = pool_view disk_pages hf bp\<lparr>fpages := ps'\<rparr>"
    "heap_inserted (fpages (pool_view disk_pages hf bp)) data r ps'"
    using disk.handle.heap_Insert_spec[OF p, of data] i by auto
  show "case r of Inl _ \<Rightarrow> heap_rows hf bp' = heap_rows hf bp
    | Inr tid \<Rightarrow> heap_rows hf bp tid = None \<and> heap_rows hf bp' = (heap_rows hf bp)(tid \<mapsto> data)"
    using s(2,3) by (auto simp: heap_inserted_def split: sum.splits)
  show "table_pool hf xf h m bp'"
    using t s other_file[OF s(1,2) x] by (auto simp: table_pool_def heap_inserted_def)
qed

lemmas table_heap_Insert = table_heap_result[where r = "Inr tid" for tid, simplified]

text \<open>Entering a key into the index changes the index only.\<close>

lemma table_index_Insert:
  assumes t: "table_pool hf xf h m bp" and i: "Insert (FileHandle disk_manager xf) default_caps bp key tid = Some (Inr (), bp')"
  shows "\<exists>h'. table_pool hf xf h' (m(key \<mapsto> tid)) bp'" "heap_rows hf bp' = heap_rows hf bp" "m key = None"
proof -
  have p: "pool_ok disk_pages disk_inv xf bp" "\<And>pid. \<not> unsaved (pool_view disk_pages xf bp) pid"
    "index_map default_caps (fpages (pool_view disk_pages xf bp)) h m"
    and x: "pool_ok disk_pages disk_inv hf bp" "hf \<noteq> xf" using t by (auto simp: table_pool_def)
  obtain ps' h' where s: "pool_ok disk_pages disk_inv xf bp'" "pool_view disk_pages xf bp' = pool_view disk_pages xf bp\<lparr>fpages := ps'\<rparr>"
    "m key = None" "index_map default_caps ps' h' (m(key \<mapsto> tid))"
    using index.Insert_map[OF p, of key tid] i by auto
  note o = other_file[OF s(1,2) x]
  show "heap_rows hf bp' = heap_rows hf bp" "m key = None" using o s(3) by simp_all
  show "\<exists>h'. table_pool hf xf h' (m(key \<mapsto> tid)) bp'"
    using t s o by (intro exI[of _ h']) (simp add: table_pool_def)
qed

text \<open>A search of the index followed by a read of the heap.\<close>

lemma table_lookup:
  assumes t: "table_pool hf xf h m bp" and q: "all_quiet disk_quiet bp" "0 < room bp" and k: "m key = Some tid" "heap_rows hf bp tid = Some data"
  shows "\<exists>bp' bp''. Search (FileHandle disk_manager xf) default_caps bp key = Some (Inr (tid, True), bp') \<and>
    heap_Get (FileHandle disk_manager hf) bp' tid = Some (Inr data, bp'')"
proof -
  have p: "pool_ok disk_pages disk_inv xf bp" "index_map default_caps (fpages (pool_view disk_pages xf bp)) h m"
    and x: "pool_ok disk_pages disk_inv hf bp" "hf \<noteq> xf" using t by (auto simp: table_pool_def)
  obtain bp' where s: "Search (FileHandle disk_manager xf) default_caps bp key = Some (Inr (tid, True), bp')"
    "pool_ok disk_pages disk_inv xf bp'" "pool_view disk_pages xf bp' = pool_view disk_pages xf bp" "all_quiet disk_quiet bp'"
    using index.Search_map[OF p, of key] q k(1) by auto
  have o: "pool_ok disk_pages disk_inv hf bp'" "fpages (pool_view disk_pages hf bp') = fpages (pool_view disk_pages hf bp)"
    using other_file[OF s(2) _ x, of "fpages (pool_view disk_pages xf bp)"] s(3) by simp_all
  have "room bp' = room bp" by (rule disk.handle.room_eq[OF p(1) s(2)]) (simp_all add: s(3))
  then show ?thesis using disk.handle.heap_Get_spec[OF o(1), of tid] o(2) t q(2) k(2) s(1,4) by (auto simp: table_pool_def)
qed

subsection \<open>A client of the table\<close>

text \<open>What a client of the two files does, one call at a time: it stores tuples and remembers the ids it gets, enters keys for ids it has got,
  searches, reads and scans, and flushes and syncs the pool. Any call may fail. An insertion into the index that fails with anything but
  \<^verbatim>\<open>ErrDuplicateKey\<close> may leave the index broken (\<open>failed_growth_hides_keys\<close>), so the client leaves the index alone from then on and goes on with the heap; the last
  component of its state says whether it still uses the index.\<close>

type_synonym client = "DiskManager BufferPool \<times> TID set \<times> bool"

inductive table_step :: "FileID \<Rightarrow> FileID \<Rightarrow> client \<Rightarrow> client \<Rightarrow> bool" for hf xf where
  ts_store: "heap_Insert (FileHandle disk_manager hf) bp data = Some (r, bp') \<Longrightarrow>
     table_step hf xf (bp, T, x) (bp', case r of Inl _ \<Rightarrow> T | Inr tid \<Rightarrow> insert tid T, x)"
| ts_index: "tid \<in> T \<Longrightarrow> Insert (FileHandle disk_manager xf) default_caps bp key tid = Some (r, bp') \<Longrightarrow>
     table_step hf xf (bp, T, True) (bp', T, r = Inr () \<or> r = Inl ErrDuplicateKey)"
| ts_get: "heap_Get (FileHandle disk_manager hf) bp tid = Some (g, bp') \<Longrightarrow> table_step hf xf (bp, T, x) (bp', T, x)"
| ts_search: "Search (FileHandle disk_manager xf) default_caps bp key = Some (a, bp') \<Longrightarrow> table_step hf xf (bp, T, True) (bp', T, True)"
| ts_heap_scan: "heap_Scan (FileHandle disk_manager hf) bp fn (acc :: (TID \<times> byte list) list) = Some (u, bp', acc') \<Longrightarrow> table_step hf xf (bp, T, x) (bp', T, x)"
| ts_scan: "Scan (FileHandle disk_manager xf) default_caps bp lo hi fk (kacc :: (int64 \<times> TID) list) = Some (u, bp', kacc') \<Longrightarrow>
     table_step hf xf (bp, T, True) (bp', T, True)"
| ts_flush: "FlushAll disk_manager ks bp = Some (u, bp') \<Longrightarrow> table_step hf xf (bp, T, x) (bp', T, x)"
| ts_sync: "bp_Sync disk_manager bp = (u, bp') \<Longrightarrow> table_step hf xf (bp, T, x) (bp', T, x)"

text \<open>The table holds the tuples \<open>R\<close>, and, while the index is used, the keys \<open>m\<close>; every id the client has got, and every id a key is bound to, is that of
  a tuple.\<close>

definition heap_file :: "FileID \<Rightarrow> DiskManager BufferPool \<Rightarrow> bool" where
  "heap_file hf bp \<longleftrightarrow> pool_ok disk_pages disk_inv hf bp \<and> heap_ok (fpages (pool_view disk_pages hf bp)) \<and> (\<forall>pid. \<not> unsaved (pool_view disk_pages hf bp) pid)"

definition table_state :: "FileID \<Rightarrow> FileID \<Rightarrow> (TID \<rightharpoonup> byte list) \<Rightarrow> (int64 \<rightharpoonup> TID) \<Rightarrow> client \<Rightarrow> bool" where
  "table_state hf xf R m s \<longleftrightarrow> (case s of (bp, T, x) \<Rightarrow>
     heap_file hf bp \<and> (x \<longrightarrow> (\<exists>h. table_pool hf xf h m bp)) \<and> R = heap_rows hf bp \<and> ran m \<union> T \<subseteq> dom R)"

lemma table_pool_heap: "table_pool hf xf h m bp \<Longrightarrow> heap_file hf bp"
  by (simp add: table_pool_def heap_file_def)

text \<open>The calls that do not touch the index, whether or not it is well formed.\<close>

lemma heap_view:
  assumes "heap_file hf bp" "pool_ok disk_pages disk_inv hf bp'" "pool_view disk_pages hf bp' = pool_view disk_pages hf bp"
  shows "heap_file hf bp' \<and> heap_rows hf bp' = heap_rows hf bp"
  using assms by (simp add: heap_file_def)

lemma heap_calls:
  assumes h: "heap_file hf bp"
  shows "heap_Insert (FileHandle disk_manager hf) bp data = Some (r, bp') \<Longrightarrow> heap_file hf bp' \<and> heap_inserted (fpages (pool_view disk_pages hf bp)) data r (fpages (pool_view disk_pages hf bp'))"
    "heap_Get (FileHandle disk_manager hf) bp tid = Some (g, bp') \<Longrightarrow> heap_file hf bp' \<and> heap_rows hf bp' = heap_rows hf bp"
    "heap_Scan (FileHandle disk_manager hf) bp fn acc = Some (u, bp', acc') \<Longrightarrow> heap_file hf bp' \<and> heap_rows hf bp' = heap_rows hf bp"
    "pool_inv disk_pages disk_inv bp' \<and> same_view disk_pages bp bp' \<Longrightarrow> heap_file hf bp' \<and> heap_rows hf bp' = heap_rows hf bp"
proof -
  have p: "pool_ok disk_pages disk_inv hf bp" "heap_ok (fpages (pool_view disk_pages hf bp))" "\<And>pid. \<not> unsaved (pool_view disk_pages hf bp) pid"
    using h by (auto simp: heap_file_def)
  show "heap_file hf bp' \<and> heap_inserted (fpages (pool_view disk_pages hf bp)) data r (fpages (pool_view disk_pages hf bp'))"
    if i: "heap_Insert (FileHandle disk_manager hf) bp data = Some (r, bp')"
  proof -
    obtain ps' where s: "pool_ok disk_pages disk_inv hf bp'" "pool_view disk_pages hf bp' = pool_view disk_pages hf bp\<lparr>fpages := ps'\<rparr>"
      "heap_inserted (fpages (pool_view disk_pages hf bp)) data r ps'"
      using disk.handle.heap_Insert_spec[OF p, of data] i by auto
    moreover have "heap_ok ps'" using s(3) by (simp add: heap_inserted_def)
    ultimately show ?thesis using p(3) by (simp add: heap_file_def)
  qed
  show "heap_file hf bp' \<and> heap_rows hf bp' = heap_rows hf bp" if "heap_Get (FileHandle disk_manager hf) bp tid = Some (g, bp')"
    using disk.handle.heap_Get_spec[OF p(1,2), of tid] that by (intro heap_view[OF h]) auto
  show "heap_file hf bp' \<and> heap_rows hf bp' = heap_rows hf bp" if "heap_Scan (FileHandle disk_manager hf) bp fn acc = Some (u, bp', acc')"
    using disk.handle.heap_scan_from_spec[OF p(1) refl p(2), of 0 fn acc] that by (intro heap_view[OF h]) (auto simp: heap_Scan_def)
  show "heap_file hf bp' \<and> heap_rows hf bp' = heap_rows hf bp" if "pool_inv disk_pages disk_inv bp' \<and> same_view disk_pages bp bp'"
    using that p(1) by (intro heap_view[OF h] disk.view_same) (auto simp: pool_ok_def same_view_def)
qed

lemma table_view:
  assumes t: "table_pool hf xf h m bp" and p: "pool_ok disk_pages disk_inv a bp'" "pool_view disk_pages a bp' = pool_view disk_pages a bp"
    and a: "a = hf \<or> a = xf"
  shows "table_pool hf xf h m bp'" "heap_rows hf bp' = heap_rows hf bp"
proof -
  have x: "pool_ok disk_pages disk_inv hf bp" "pool_ok disk_pages disk_inv xf bp" "hf \<noteq> xf" using t by (auto simp: table_pool_def)
  have p': "pool_view disk_pages a bp' = pool_view disk_pages a bp\<lparr>fpages := fpages (pool_view disk_pages a bp)\<rparr>" using p(2) by simp
  have v: "pool_ok disk_pages disk_inv b bp' \<and> fpages (pool_view disk_pages b bp') = fpages (pool_view disk_pages b bp) \<and>
    unsaved (pool_view disk_pages b bp') = unsaved (pool_view disk_pages b bp)" if "b = hf \<or> b = xf" for b
    using other_file[OF p(1) p', of b] that x p by (cases "b = a") auto
  show "heap_rows hf bp' = heap_rows hf bp" using v[of hf] by simp
  show "table_pool hf xf h m bp'" using t v[of hf] v[of xf] by (simp add: table_pool_def)
qed

lemma table_same_view:
  assumes "table_pool hf xf h m bp" "pool_inv disk_pages disk_inv bp' \<and> same_view disk_pages bp bp'"
  shows "table_pool hf xf h m bp'" "heap_rows hf bp' = heap_rows hf bp"
proof -
  have v: "pool_view disk_pages hf bp' = pool_view disk_pages hf bp" by (rule disk.view_same) (use assms(2) in auto)
  have "pool_ok disk_pages disk_inv hf bp'" using assms by (auto simp: table_pool_def pool_ok_def same_view_def)
  from table_view[OF assms(1) this v] show "table_pool hf xf h m bp'" "heap_rows hf bp' = heap_rows hf bp" by simp_all
qed

lemma table_index_duplicate:
  assumes t: "table_pool hf xf h m bp" and i: "Insert (FileHandle disk_manager xf) default_caps bp key tid = Some (Inl ErrDuplicateKey, bp')"
  shows "table_pool hf xf h m bp'" "heap_rows hf bp' = heap_rows hf bp"
proof -
  have p: "pool_ok disk_pages disk_inv xf bp" "\<And>pid. \<not> unsaved (pool_view disk_pages xf bp) pid"
    "index_map default_caps (fpages (pool_view disk_pages xf bp)) h m" using t by (auto simp: table_pool_def)
  have s: "pool_ok disk_pages disk_inv xf bp'" "pool_view disk_pages xf bp' = pool_view disk_pages xf bp"
    using index.Insert_map[OF p, of key tid] i by auto
  show "table_pool hf xf h m bp'" "heap_rows hf bp' = heap_rows hf bp" by (rule table_view[OF t s]; simp)+
qed

text \<open>Whatever an insertion into the index returns, the heap is as it was.\<close>

lemma table_index_heap:
  assumes t: "table_pool hf xf h m bp" and i: "Insert (FileHandle disk_manager xf) default_caps bp key tid = Some (r, bp')"
  shows "heap_file hf bp'" "heap_rows hf bp' = heap_rows hf bp"
proof -
  have p: "pool_ok disk_pages disk_inv xf bp" "\<And>pid. \<not> unsaved (pool_view disk_pages xf bp) pid"
    "index_map default_caps (fpages (pool_view disk_pages xf bp)) h m" and x: "pool_ok disk_pages disk_inv hf bp" "hf \<noteq> xf"
    using t by (auto simp: table_pool_def)
  obtain ps' where s: "pool_ok disk_pages disk_inv xf bp'" "pool_view disk_pages xf bp' = pool_view disk_pages xf bp\<lparr>fpages := ps'\<rparr>"
    using index.Insert_map[OF p, of key tid] i by auto
  note o = other_file[OF s x]
  show "heap_file hf bp'" "heap_rows hf bp' = heap_rows hf bp" using o table_pool_heap[OF t] by (simp_all add: heap_file_def)
qed

text \<open>The calls that only read leave the view of their file as it was.\<close>

lemma table_reads:
  assumes t: "table_pool hf xf h m bp"
  shows "heap_Get (FileHandle disk_manager hf) bp tid = Some (g, bp') \<Longrightarrow> table_pool hf xf h m bp' \<and> heap_rows hf bp' = heap_rows hf bp"
    "Search (FileHandle disk_manager xf) default_caps bp key = Some (a, bp') \<Longrightarrow> table_pool hf xf h m bp' \<and> heap_rows hf bp' = heap_rows hf bp"
    "heap_Scan (FileHandle disk_manager hf) bp fn acc = Some (u, bp', acc') \<Longrightarrow> table_pool hf xf h m bp' \<and> heap_rows hf bp' = heap_rows hf bp"
    "Scan (FileHandle disk_manager xf) default_caps bp lo hi fk kacc = Some (u, bp', kacc') \<Longrightarrow>
      table_pool hf xf h m bp' \<and> heap_rows hf bp' = heap_rows hf bp"
proof -
  have p: "pool_ok disk_pages disk_inv hf bp" "heap_ok (fpages (pool_view disk_pages hf bp))" and x: "pool_ok disk_pages disk_inv xf bp"
    "index_map default_caps (fpages (pool_view disk_pages xf bp)) h m" using t by (auto simp: table_pool_def)
  note v = table_view[OF t, of _ bp']
  show "table_pool hf xf h m bp' \<and> heap_rows hf bp' = heap_rows hf bp"
    if "heap_Get (FileHandle disk_manager hf) bp tid = Some (g, bp')" using disk.handle.heap_Get_spec[OF p, of tid] that v[of hf] by auto
  show "table_pool hf xf h m bp' \<and> heap_rows hf bp' = heap_rows hf bp"
    if "Search (FileHandle disk_manager xf) default_caps bp key = Some (a, bp')" using index.Search_map[OF x, of key] that v[of xf] by auto
  show "table_pool hf xf h m bp' \<and> heap_rows hf bp' = heap_rows hf bp"
    if "heap_Scan (FileHandle disk_manager hf) bp fn acc = Some (u, bp', acc')"
    using disk.handle.heap_scan_from_spec[OF p(1) refl p(2), of 0 fn acc] that v[of hf] by (auto simp: heap_Scan_def)
  show "table_pool hf xf h m bp' \<and> heap_rows hf bp' = heap_rows hf bp"
    if "Scan (FileHandle disk_manager xf) default_caps bp lo hi fk kacc = Some (u, bp', kacc')"
    using index.Scan_map[OF x, of lo hi fk kacc] that v[of xf] by auto
qed

text \<open>One step: the heap grows or stays, and the index, while it is used, grows or stays.\<close>

lemma table_state_store:
  assumes s: "table_state hf xf R m (bp, T, x)" and i: "heap_Insert (FileHandle disk_manager hf) bp data = Some (r, bp')"
  shows "\<exists>R'. table_state hf xf R' m (bp', case r of Inl _ \<Rightarrow> T | Inr tid \<Rightarrow> insert tid T, x) \<and> R \<subseteq>\<^sub>m R'"
proof -
  have h: "heap_file hf bp" and R: "R = heap_rows hf bp" "ran m \<union> T \<subseteq> dom R" using s by (auto simp: table_state_def)
  note c = heap_calls(1)[OF h i]
  have "R \<subseteq>\<^sub>m heap_rows hf bp'" "ran m \<union> (case r of Inl _ \<Rightarrow> T | Inr tid \<Rightarrow> insert tid T) \<subseteq> dom (heap_rows hf bp')"
    using c R by (auto simp: heap_inserted_def map_le_def split: sum.splits)
  moreover have "\<exists>h. table_pool hf xf h m bp'" if x using s that table_heap_result(1)[OF _ i] by (auto simp: table_state_def)
  ultimately show ?thesis using c by (intro exI[of _ "heap_rows hf bp'"]) (auto simp: table_state_def)
qed

lemma table_state_index:
  assumes s: "table_state hf xf R m (bp, T, True)" and tid: "tid \<in> T" and i: "Insert (FileHandle disk_manager xf) default_caps bp key tid = Some (r, bp')"
  shows "\<exists>m'. table_state hf xf R m' (bp', T, r = Inr () \<or> r = Inl ErrDuplicateKey) \<and> m \<subseteq>\<^sub>m m'"
proof -
  obtain h where t: "table_pool hf xf h m bp" and R: "R = heap_rows hf bp" "ran m \<union> T \<subseteq> dom R" using s by (auto simp: table_state_def)
  note heap = table_index_heap[OF t i]
  show ?thesis
  proof (cases "r = Inr ()")
    case True
    note k = table_index_Insert[OF t i[unfolded True]]
    have "table_state hf xf R (m(key \<mapsto> tid)) (bp', T, True)" "m \<subseteq>\<^sub>m m(key \<mapsto> tid)"
      using k heap R tid by (auto simp: table_state_def map_le_def dom_def ran_def)
    then show ?thesis using True by auto
  next
    case False
    have "\<exists>h. table_pool hf xf h m bp'" if "r = Inl ErrDuplicateKey" using table_index_duplicate[OF t i[unfolded that]] by blast
    then have "table_state hf xf R m (bp', T, r = Inr () \<or> r = Inl ErrDuplicateKey)" using False heap R by (auto simp: table_state_def)
    then show ?thesis by (blast intro: map_le_refl)
  qed
qed

lemma table_state_keep:
  assumes "table_state hf xf R m (bp, T, x)" "heap_file hf bp' \<and> heap_rows hf bp' = heap_rows hf bp"
    and "\<And>h. x \<Longrightarrow> table_pool hf xf h m bp \<Longrightarrow> table_pool hf xf h m bp'"
  shows "table_state hf xf R m (bp', T, x)"
  using assms by (auto simp: table_state_def)

lemma table_step_state:
  assumes "table_step hf xf s s'" "table_state hf xf R m s"
  shows "\<exists>R' m'. table_state hf xf R' m' s' \<and> R \<subseteq>\<^sub>m R' \<and> m \<subseteq>\<^sub>m m'"
proof -
  have keep: ?thesis if "table_state hf xf R m s'" using that by (intro exI[of _ R] exI[of _ m]) simp
  have inv: "pool_inv disk_pages disk_inv bp" "heap_file hf bp" if "s = (bp, T, x)" for bp T x
    using assms(2) that by (auto simp: table_state_def heap_file_def pool_ok_def)
  from assms(1) show ?thesis
  proof cases
    case (ts_store bp data r bp' T x)
    then show ?thesis using table_state_store[of hf xf R m bp T x data r bp'] assms(2) by (blast intro: map_le_refl)
  next
    case (ts_index tid T bp key r bp')
    then show ?thesis using table_state_index[of hf xf R m bp T tid key r bp'] assms(2) by (blast intro: map_le_refl)
  next
    case (ts_flush ks bp u bp' T x)
    note v = disk.FlushAll_spec[OF inv(1)[OF ts_flush(1)] ts_flush(3)]
    have "table_state hf xf R m (bp', T, x)"
      by (rule table_state_keep[OF assms(2)[unfolded ts_flush(1)]]) (use v heap_calls(4)[OF inv(2)[OF ts_flush(1)]] table_same_view(1) in auto)
    then show ?thesis using keep ts_flush(2) by simp
  next
    case (ts_sync bp u bp' T x)
    note v = disk.bp_Sync_view[OF inv(1)[OF ts_sync(1)] ts_sync(3)]
    have "table_state hf xf R m (bp', T, x)"
      by (rule table_state_keep[OF assms(2)[unfolded ts_sync(1)]]) (use v heap_calls(4)[OF inv(2)[OF ts_sync(1)]] table_same_view(1) in auto)
    then show ?thesis using keep ts_sync(2) by simp
  next
    case (ts_get bp tid g bp' T x)
    have "table_state hf xf R m (bp', T, x)"
      by (rule table_state_keep[OF assms(2)[unfolded ts_get(1)] heap_calls(2)[OF inv(2)[OF ts_get(1)] ts_get(3)]]) (use table_reads(1) ts_get(3) in blast)
    then show ?thesis using keep ts_get(2) by simp
  next
    case (ts_heap_scan bp fn acc u bp' acc' T x)
    have "table_state hf xf R m (bp', T, x)"
      by (rule table_state_keep[OF assms(2)[unfolded ts_heap_scan(1)] heap_calls(3)[OF inv(2)[OF ts_heap_scan(1)] ts_heap_scan(3)]])
        (rule table_reads(3)[OF _ ts_heap_scan(3), THEN conjunct1])
    then show ?thesis using keep ts_heap_scan(2) by simp
  next
    case (ts_search bp key a bp' T)
    then have "table_state hf xf R m s'" using assms(2) table_reads(2)[of hf xf _ m bp key a bp'] by (fastforce simp: table_state_def table_pool_heap)
    then show ?thesis by (rule keep)
  next
    case (ts_scan bp lo hi fk kacc u bp' kacc' T)
    then have "table_state hf xf R m s'" using assms(2) table_reads(4)[of hf xf _ m bp lo hi fk kacc u bp' kacc'] by (fastforce simp: table_state_def table_pool_heap)
    then show ?thesis by (rule keep)
  qed
qed

lemma table_run_state:
  assumes "(table_step hf xf)\<^sup>*\<^sup>* s s'" "table_state hf xf R m s"
  shows "\<exists>R' m'. table_state hf xf R' m' s' \<and> R \<subseteq>\<^sub>m R' \<and> m \<subseteq>\<^sub>m m'"
  using assms(1)
proof (induction rule: rtranclp_induct)
  case base
  show ?case using assms(2) by (intro exI[of _ R] exI[of _ m]) simp
next
  case (step s1 s2)
  obtain R1 m1 where 1: "table_state hf xf R1 m1 s1" "R \<subseteq>\<^sub>m R1" "m \<subseteq>\<^sub>m m1" using step.IH by blast
  obtain R2 m2 where 2: "table_state hf xf R2 m2 s2" "R1 \<subseteq>\<^sub>m R2" "m1 \<subseteq>\<^sub>m m2" using table_step_state[OF step(2) 1(1)] by blast
  show ?case using 2(1) map_le_trans[OF 1(2) 2(2)] map_le_trans[OF 1(3) 2(3)] by blast
qed

subsection \<open>A concrete table\<close>

definition two_files :: "DiskManager BufferPool" where
  \<comment> \<open>three frames and two empty files\<close>
  "two_files = snd (Register (fresh_pool 3) empty_file)"

definition demo_table :: "DiskManager BufferPool" where
  \<comment> \<open>the second file is laid out as an index\<close>
  "demo_table = snd (the (NewBTree (FileHandle disk_manager 1) two_files))"

lemma two_files:
  "pool_inv disk_pages disk_inv two_files" "length (files two_files) = 2" "all_quiet disk_quiet two_files" "room two_files = 3"
  "fid = 0 \<or> fid = 1 \<Longrightarrow> fpages (pool_view disk_pages fid two_files) = []" "\<not> unsaved (pool_view disk_pages fid two_files) pid"
proof -
  note f = fresh_pool[of 3, simplified]
  have e: "disk_inv empty_file" "disk_quiet empty_file" "disk_pages empty_file = []"
    by (simp_all add: empty_file_def disk_inv_def disk_quiet_def disk_pages_def)
  note o = pool_over[OF _ e(1,2), of 3, simplified]
  have inv: "pool_inv disk_pages disk_inv (fresh_pool 3)" using f(1) by (simp add: pool_ok_def)
  have t: "two_files = (fresh_pool 3)\<lparr>files := [empty_file, empty_file]\<rparr>" by (simp add: two_files_def Register_def o(7))
  have r: "Register (fresh_pool 3) empty_file = (1, two_files)" by (simp add: two_files_def Register_def o(7))
  note v = Register_view[OF inv e(1) _ r, unfolded o(7), simplified]
  show "pool_inv disk_pages disk_inv two_files" by (rule v(1))
  show "length (files two_files) = 2" "all_quiet disk_quiet two_files" using e(2) by (simp_all add: t all_quiet_def)
  show "room two_files = 3" using o(4) v(6) by (simp add: room_def) (simp add: t)
  have tab: "pageTable two_files = Map.empty" using o(6) by (simp add: t)
  then show "\<not> unsaved (pool_view disk_pages fid two_files) pid" by (simp add: pool_view_def mk_view_def at_risk_def)
  have "npages disk_pages two_files fid = 0" if "fid = 0 \<or> fid = 1" using that by (auto simp: npages_def t empty_file_def)
  then show "fid = 0 \<or> fid = 1 \<Longrightarrow> fpages (pool_view disk_pages fid two_files) = []" by (simp add: pool_view_def mk_view_def)
qed

lemma demo_table:
  "table_pool 0 1 0 Map.empty demo_table" "all_quiet disk_quiet demo_table" "room demo_table = 3"
  "fpages (pool_view disk_pages 0 demo_table) = []" "length (fpages (pool_view disk_pages 1 demo_table)) = 2"
proof -
  have ok: "pool_ok disk_pages disk_inv 0 two_files" "pool_ok disk_pages disk_inv 1 two_files" using two_files(1,2) by (simp_all add: pool_ok_def)
  obtain ps where n: "pool_ok disk_pages disk_inv 1 demo_table" "pool_view disk_pages 1 demo_table = pool_view disk_pages 1 two_files\<lparr>fpages := ps\<rparr>"
    "length ps = 2" "index_tree default_caps ps 0 (Leaf 1 [] invalidPID)" "all_quiet disk_quiet demo_table"
    using index.NewBTree_spec[OF ok(2)] two_files(3-5) by (auto simp: demo_table_def)
  note o = other_file[OF n(1,2) ok(1)]
  have m: "index_map default_caps ps 0 Map.empty" using n(4) by (auto simp: index_map_def intro!: exI[of _ "Leaf 1 [] invalidPID"])
  show "table_pool 0 1 0 Map.empty demo_table"
    using n(1,2) o two_files(5,6) m by (simp add: table_pool_def heap_ok_def)
  show "all_quiet disk_quiet demo_table" by (rule n(5))
  show "fpages (pool_view disk_pages 0 demo_table) = []" "length (fpages (pool_view disk_pages 1 demo_table)) = 2"
    using o(2) two_files(5) n(2,3) by simp_all
  show "room demo_table = 3" using disk.handle.room_eq[OF ok(2) n(1)] n(2) two_files(4) by simp
qed

lemma demo_row:
  assumes "length data \<le> 8164"
  obtains tid bp1 bp2 where "heap_Insert (FileHandle disk_manager 0) demo_table data = Some (Inr tid, bp1)"
    "Insert (FileHandle disk_manager 1) default_caps bp1 key tid = Some (Inr (), bp2)" "all_quiet disk_quiet bp2" "room bp2 = 3"
proof -
  have t: "pool_ok disk_pages disk_inv 0 demo_table" "heap_ok (fpages (pool_view disk_pages 0 demo_table))"
    "\<And>pid. \<not> unsaved (pool_view disk_pages 0 demo_table) pid" "pool_ok disk_pages disk_inv 1 demo_table"
    using demo_table(1) by (auto simp: table_pool_def)
  obtain tid bp1 ps1 where h: "heap_Insert (FileHandle disk_manager 0) demo_table data = Some (Inr tid, bp1)"
    "pool_ok disk_pages disk_inv 0 bp1" "pool_view disk_pages 0 bp1 = pool_view disk_pages 0 demo_table\<lparr>fpages := ps1\<rparr>" "all_quiet disk_quiet bp1"
    using disk.handle.heap_Insert_spec[OF t(1-3), of data] assms demo_table(2-4) by auto
  have r1: "room bp1 = 3" using disk.handle.room_eq[OF t(1) h(2)] h(3) demo_table(3) by simp
  have l1: "length (fpages (pool_view disk_pages 1 bp1)) = 2" using other_file(2)[OF h(2,3) t(4)] demo_table(5) by simp
  have x: "pool_ok disk_pages disk_inv 1 bp1" "\<And>pid. \<not> unsaved (pool_view disk_pages 1 bp1) pid"
    "index_map default_caps (fpages (pool_view disk_pages 1 bp1)) 0 Map.empty"
    using table_heap_Insert(1)[OF demo_table(1) h(1)] by (auto simp: table_pool_def)
  obtain bp2 ps2 where i: "Insert (FileHandle disk_manager 1) default_caps bp1 key tid = Some (Inr (), bp2)" "pool_ok disk_pages disk_inv 1 bp2"
    "pool_view disk_pages 1 bp2 = pool_view disk_pages 1 bp1\<lparr>fpages := ps2\<rparr>" "all_quiet disk_quiet bp2"
    using index.Insert_map[OF x, of key tid] h(4) r1 l1 by auto
  have "room bp2 = 3" using disk.handle.room_eq[OF x(1) i(2)] i(3) r1 by simp
  then show thesis using that[OF h(1) i(1,4)] by simp
qed

subsection \<open>Properties\<close>

text \<open>C15. A stored row is found by its key: when a row that matches the schema was encoded, its tuple inserted into the heap file and
  its TID entered under a key into the index file of the same pool, then, without a further I/O failure and with a frame to pin, a search
  of the key yields the TID, reading the TID yields the tuple, and decoding it gives the row. Every key that was bound to a tuple
  before still leads to it.\<close>

theorem row_found_by_key:
  assumes "table_pool hf xf h m bp" "row_ok s row" "length (Columns s) \<le> 1023"
    and "Encode s row = Some (Inr data)"
    and "heap_Insert (FileHandle disk_manager hf) bp data = Some (Inr tid, bp1)"
    and "Insert (FileHandle disk_manager xf) default_caps bp1 key tid = Some (Inr (), bp2)"
    and "all_quiet disk_quiet bp2" "0 < room bp2"
  shows "\<exists>bp3 bp4. Search (FileHandle disk_manager xf) default_caps bp2 key = Some (Inr (tid, True), bp3) \<and>
    heap_Get (FileHandle disk_manager hf) bp3 tid = Some (Inr data, bp4) \<and> Decode s data = Some (Inr row) \<and>
    (\<forall>k t d. m k = Some t \<and> heap_rows hf bp t = Some d \<longrightarrow>
      (\<exists>bp3 bp4. Search (FileHandle disk_manager xf) default_caps bp2 k = Some (Inr (t, True), bp3) \<and>
         heap_Get (FileHandle disk_manager hf) bp3 t = Some (Inr d, bp4)))"
proof -
  note h = table_heap_Insert[OF assms(1,5)]
  note x = table_index_Insert[OF h(1) assms(6)]
  obtain h' where t: "table_pool hf xf h' (m(key \<mapsto> tid)) bp2" using x(1) by blast
  note look = table_lookup[OF t assms(7,8)]
  have old: "(m(key \<mapsto> tid)) k = Some t \<and> heap_rows hf bp2 t = Some d" if "m k = Some t" "heap_rows hf bp t = Some d" for k t d
    using that x(2,3) h(2) by auto
  have new: "(m(key \<mapsto> tid)) key = Some tid" "heap_rows hf bp2 tid = Some data" using x(2) h(2) by simp_all
  have "Decode s data = Some (Inr row)" using Encode_decodes[OF assms(2,3), of "[]"] assms(4) by auto
  with look[OF new] show ?thesis using look old by blast
qed

theorem row_found_by_key_witness:
  "\<exists>data tid bp1 bp2 bp3 bp4. Encode demo_schema [VInt 7, VNil] = Some (Inr data) \<and>
    heap_Insert (FileHandle disk_manager 0) demo_table data = Some (Inr tid, bp1) \<and>
    Insert (FileHandle disk_manager 1) default_caps bp1 7 tid = Some (Inr (), bp2) \<and>
    Search (FileHandle disk_manager 1) default_caps bp2 7 = Some (Inr (tid, True), bp3) \<and>
    heap_Get (FileHandle disk_manager 0) bp3 tid = Some (Inr data, bp4) \<and> Decode demo_schema data = Some (Inr [VInt 7, VNil])"
proof -
  have row: "row_ok demo_schema [VInt 7, VNil]" "length (Columns demo_schema) \<le> 1023" by (simp_all add: row_ok_def col_ok_def demo_schema_def)
  obtain data where d: "Encode demo_schema [VInt 7, VNil] = Some (Inr data)" "length data = 21"
    using Encode_decodes[OF row, of "[]"] by auto
  obtain tid bp1 bp2 where i: "heap_Insert (FileHandle disk_manager 0) demo_table data = Some (Inr tid, bp1)"
    "Insert (FileHandle disk_manager 1) default_caps bp1 7 tid = Some (Inr (), bp2)" "all_quiet disk_quiet bp2" "room bp2 = 3"
    by (rule demo_row[of data 7]) (use d(2) in simp)
  show ?thesis using row_found_by_key[OF demo_table(1) row d(1) i(1-3)] d(1) i by auto
qed

text \<open>C16. Whatever a client does with a table, one call after the other and under any I/O failures, no tuple it was told is stored gets lost: in every later state all
  tuples of the first state are still there, and, with no I/O failure pending and a frame to pin, reading an id returns its tuple. Keys are kept too as long as
  no insertion into the index has failed with anything but \<^verbatim>\<open>ErrDuplicateKey\<close> (the client leaves the index alone after such a failure): all keys of the first
  state are there, every key is bound to the id of a stored tuple, and a search of a bound key finds the id and reading the id returns its tuple.\<close>

theorem table_keeps_rows:
  assumes "table_state hf xf R m s" "(table_step hf xf)\<^sup>*\<^sup>* s (bp, T, intact)"
  shows "\<exists>R' m'. table_state hf xf R' m' (bp, T, intact) \<and> R \<subseteq>\<^sub>m R' \<and> m \<subseteq>\<^sub>m m' \<and>
    (\<forall>tid data. all_quiet disk_quiet bp \<and> 0 < room bp \<and> R' tid = Some data \<longrightarrow>
      (\<exists>bp1. heap_Get (FileHandle disk_manager hf) bp tid = Some (Inr data, bp1))) \<and>
    (\<forall>key tid. intact \<and> all_quiet disk_quiet bp \<and> 0 < room bp \<and> m' key = Some tid \<longrightarrow>
      (\<exists>data bp1 bp2. R' tid = Some data \<and> Search (FileHandle disk_manager xf) default_caps bp key = Some (Inr (tid, True), bp1) \<and>
         heap_Get (FileHandle disk_manager hf) bp1 tid = Some (Inr data, bp2)))"
proof -
  obtain R' m' where t: "table_state hf xf R' m' (bp, T, intact)" "R \<subseteq>\<^sub>m R'" "m \<subseteq>\<^sub>m m'" using table_run_state[OF assms(2,1)] by blast
  have h: "heap_file hf bp" "R' = heap_rows hf bp" "ran m' \<subseteq> dom R'" using t(1) by (auto simp: table_state_def)
  have "\<exists>bp1. heap_Get (FileHandle disk_manager hf) bp tid = Some (Inr data, bp1)"
    if "all_quiet disk_quiet bp \<and> 0 < room bp \<and> R' tid = Some data" for tid data
    using disk.handle.heap_Get_spec[of hf bp tid] h(1,2) that by (auto simp: heap_file_def)
  moreover have "\<exists>data bp1 bp2. R' tid = Some data \<and> Search (FileHandle disk_manager xf) default_caps bp key = Some (Inr (tid, True), bp1) \<and>
      heap_Get (FileHandle disk_manager hf) bp1 tid = Some (Inr data, bp2)"
    if q: "intact \<and> all_quiet disk_quiet bp \<and> 0 < room bp \<and> m' key = Some tid" for key tid
  proof -
    obtain k where k: "table_pool hf xf k m' bp" using t(1) q by (auto simp: table_state_def)
    obtain data where "R' tid = Some data" using h(3) q by (auto simp: ran_def)
    then show ?thesis using table_lookup[OF k, of key tid data] q h(2) by auto
  qed
  ultimately show ?thesis using t by blast
qed

theorem table_keeps_rows_witness:
  "\<exists>bp tid R m. (table_step 0 1)\<^sup>*\<^sup>* (demo_table, {}, True) (bp, {tid}, True) \<and> table_state 0 1 R m (bp, {tid}, True) \<and> tid \<in> dom R \<and>
     all_quiet disk_quiet bp \<and> room bp = 3"
proof -
  obtain tid bp1 bp where i: "heap_Insert (FileHandle disk_manager 0) demo_table [1, 2, 3] = Some (Inr tid, bp1)"
    "Insert (FileHandle disk_manager 1) default_caps bp1 7 tid = Some (Inr (), bp)" "all_quiet disk_quiet bp" "room bp = 3"
    by (rule demo_row[of "[1, 2, 3]" 7]) simp
  have "table_step 0 1 (demo_table, {}, True) (bp1, {tid}, True)" using table_step.ts_store[OF i(1), of 1 "{}"] by simp
  moreover have "table_step 0 1 (bp1, {tid}, True) (bp, {tid}, True)" using table_step.ts_index[OF _ i(2), of "{tid}" 0] by simp
  ultimately have r: "(table_step 0 1)\<^sup>*\<^sup>* (demo_table, {}, True) (bp, {tid}, True)" by (meson converse_rtranclp_into_rtranclp rtranclp.rtrancl_refl)
  have "table_state 0 1 (heap_rows 0 demo_table) Map.empty (demo_table, {}, True)" using demo_table(1) table_pool_heap by (auto simp: table_state_def)
  from table_keeps_rows[OF this r] show ?thesis using r i(3,4) by (fastforce simp: table_state_def)
qed

end
