(* ===== verification/Shared_Pool.thy ===== *)
theory Shared_Pool
  imports Pool_Threads Row_Storage
begin

text \<open>
  The access methods when other goroutines use the same pool. The tree and the heap do no locking of their own: they call the pool, and between two
  of their calls any other goroutine may call it too. \<open>others_step\<close> is what those may do while this goroutine is at work on one file: anything
  to the other files, and on this file everything a reader does (fetch pages, release clean the pins it holds) and every flush and sync. \<open>SharedHandle\<close>
  is the \<^verbatim>\<open>FileHandle\<close> of this goroutine with such steps before and after each call, chosen by a schedule that is arbitrary but polite. It keeps the
  same contract \<open>page_cache\<close> as the handle of a goroutine alone, with the pins this goroutine holds in place of the pins of the pool, so every theorem proved from
  the contract holds for it.
\<close>

subsection \<open>The other goroutines\<close>

inductive others_step :: "'d diskManager \<Rightarrow> ('d \<Rightarrow> page list) \<Rightarrow> ('d \<Rightarrow> bool) \<Rightarrow> FileID \<Rightarrow> (PageID \<Rightarrow> nat) \<Rightarrow>
    'd BufferPool \<Rightarrow> 'd BufferPool \<Rightarrow> bool" for D pages ok fid m where
  others_register: "\<lbrakk>ok d; length (files bp) < 2 ^ 32; Register bp d = (i, bp')\<rbrakk> \<Longrightarrow> others_step D pages ok fid m bp bp'"
| others_fetch: "\<lbrakk>unat i < length (files bp); fetch D bp i pid = Some (r, bp')\<rbrakk> \<Longrightarrow> others_step D pages ok fid m bp bp'"
| others_newPage: "\<lbrakk>i \<noteq> fid; unat i < length (files bp); newPage D bp i = Some (r', bp')\<rbrakk> \<Longrightarrow> others_step D pages ok fid m bp bp'"
| others_unpin: "\<lbrakk>i = fid \<Longrightarrow> m pid < pins bp (PageKey i pid) \<and> \<not> d'; pins bp (PageKey i pid) = 1 \<longrightarrow> d' \<or> \<not> at_risk pages bp (PageKey i pid);
     unpin bp i pid d' = Some (u, bp')\<rbrakk> \<Longrightarrow> others_step D pages ok fid m bp bp'"
| others_write: "\<lbrakk>pk_file k \<noteq> fid; pageTable bp k = Some f; 0 < pins bp k; length b = 8192\<rbrakk> \<Longrightarrow>
     others_step D pages ok fid m bp (write_frame bp f b)"
| others_flush: "flushPage D bp i pid = Some (u, bp') \<Longrightarrow> others_step D pages ok fid m bp bp'"
| others_flushAll: "FlushAll D ks bp = Some (u, bp') \<Longrightarrow> others_step D pages ok fid m bp bp'"
| others_sync: "\<lbrakk>n < length (files bp); dmSync D (files bp ! n) = (u, dm)\<rbrakk> \<Longrightarrow>
     others_step D pages ok fid m bp (bp\<lparr>files := (files bp)[n := dm]\<rparr>)"

text \<open>The pins \<open>m\<close> of this goroutine are among the pins of the pool, and a change that is not reported yet is its own.\<close>

definition owns :: "('d \<Rightarrow> page list) \<Rightarrow> ('d \<Rightarrow> bool) \<Rightarrow> FileID \<Rightarrow> (PageID \<Rightarrow> nat) \<Rightarrow> 'd BufferPool \<Rightarrow> bool" where
  "owns pages ok fid m bp \<longleftrightarrow> pool_ok pages ok fid bp \<and>
     (\<forall>q. m q \<le> pins bp (PageKey fid q) \<and> (at_risk pages bp (PageKey fid q) \<longrightarrow> 0 < m q))"

definition undisturbed :: "('d \<Rightarrow> page list) \<Rightarrow> FileID \<Rightarrow> (PageID \<Rightarrow> nat) \<Rightarrow> 'd BufferPool \<Rightarrow> 'd BufferPool \<Rightarrow> bool" where
  "undisturbed pages fid m bp bp' \<longleftrightarrow> length (frames bp') = length (frames bp) \<and>
     fpages (pool_view pages fid bp') = fpages (pool_view pages fid bp) \<and> unsaved (pool_view pages fid bp') = unsaved (pool_view pages fid bp) \<and>
     (\<forall>q. 0 < m q \<longrightarrow> pool_ptr fid bp' q = pool_ptr fid bp q)"

lemma undisturbed_refl: "undisturbed pages fid m bp bp"
  by (simp add: undisturbed_def)

lemma undisturbed_trans: "undisturbed pages fid m bp bp1 \<Longrightarrow> undisturbed pages fid m bp1 bp2 \<Longrightarrow> undisturbed pages fid m bp bp2"
  by (simp add: undisturbed_def)

context page_store
begin

lemma owns_moves:
  assumes o: "owns pages ok fid m bp" and inv: "pool_inv pages ok bp'" and mv: "moves pages bp bp' N C P R"
    and N: "N fid = npages pages bp fid" and C: "\<And>q. C (PageKey fid q) = page_of pages bp (PageKey fid q)"
    and R: "\<And>q. R (PageKey fid q) = at_risk pages bp (PageKey fid q)" and P: "\<And>q. m q \<le> P (PageKey fid q)"
  shows "owns pages ok fid m bp' \<and> undisturbed pages fid m bp bp'"
proof -
  have eqs: "length (files bp') = length (files bp)" "length (frames bp') = length (frames bp)" "pins bp' = P" "at_risk pages bp' = R"
    "\<And>k. 0 < pins bp k \<Longrightarrow> 0 < P k \<Longrightarrow> pageTable bp' k = pageTable bp k"
    using mv by (auto simp: moves_def)
  have v: "pool_view pages fid bp' = mk_view fid (length (files bp)) (length (frames bp)) N C P R" by (rule moves_mk_view[OF inv mv])
  have ptr: "pageTable bp' (PageKey fid q) = pageTable bp (PageKey fid q)" if "0 < m q" for q
    using o P[of q] that by (intro eqs(5)) (auto simp: owns_def intro: less_le_trans)
  show ?thesis using o inv eqs P R ptr
    by (auto simp: owns_def undisturbed_def pool_ok_def pool_ptr_def v) (auto simp: mk_view_def pool_view_def N C R)
qed

lemma owns_same:
  assumes "owns pages ok fid m bp" "pool_inv pages ok bp'" "same_view pages bp bp'"
  shows "owns pages ok fid m bp' \<and> undisturbed pages fid m bp bp'"
  by (rule owns_moves[OF assms(1,2) assms(3)[unfolded same_view_moves]]) (use assms(1) in \<open>auto simp: owns_def\<close>)

lemma owns_Register:
  assumes o: "owns pages ok fid m bp" and d: "ok d" "length (files bp) < 2 ^ 32" "Register bp d = (i, bp')"
  shows "owns pages ok fid m bp' \<and> undisturbed pages fid m bp bp'"
proof -
  have p: "pool_inv pages ok bp" "unat fid < length (files bp)" using o by (auto simp: owns_def pool_ok_def)
  note reg = Register_view[OF p(1) d]
  have f: "files bp' = files bp @ [d]" "pageTable bp' = pageTable bp" "frames bp' = frames bp" "meta bp' = meta bp"
    using d(3) by (auto simp: Register_def)
  have disk: "disk_of pages bp' (PageKey fid q) = disk_of pages bp (PageKey fid q)" for q using p(2) f(1) by (simp add: disk_of_def nth_append)
  have "page_of pages bp' (PageKey fid q) = page_of pages bp (PageKey fid q)" "at_risk pages bp' (PageKey fid q) = at_risk pages bp (PageKey fid q)"
    "npages pages bp' fid = npages pages bp fid" for q
    using p(2) f by (auto simp: page_of_def at_risk_def disk npages_def nth_append split: option.splits)
  then show ?thesis using o reg(1,6) f by (auto simp: owns_def undisturbed_def pool_ok_def pool_ptr_def pool_view_def mk_view_def)
qed

lemma owns_fetch:
  assumes o: "owns pages ok fid m bp" and f: "unat i < length (files bp)" "fetch D bp i pid = Some (r, bp')"
  shows "owns pages ok fid m bp' \<and> undisturbed pages fid m bp bp'"
proof -
  have inv: "pool_inv pages ok bp" and m: "m q \<le> pins bp (PageKey fid q)" for q using o by (auto simp: owns_def pool_ok_def)
  from inv f(1) show ?thesis
  proof (cases rule: fetch_cases[where pid = pid])
    case (ok g bp1)
    then have "bp' = bp1" using f(2) by simp
    moreover have "m q \<le> ((pins bp)(PageKey i pid := Suc (pins bp (PageKey i pid)))) (PageKey fid q)" for q using m[of q] by auto
    ultimately show ?thesis using owns_moves[OF o ok(2,6)] by simp
  next
    case (err e bp1)
    then show ?thesis using owns_same[OF o err(2,3)] f(2) by simp
  qed
qed

lemma owns_newPage:
  assumes o: "owns pages ok fid m bp" and f: "i \<noteq> fid" "unat i < length (files bp)" "newPage D bp i = Some (r, bp')"
  shows "owns pages ok fid m bp' \<and> undisturbed pages fid m bp bp'"
proof -
  have inv: "pool_inv pages ok bp" and m: "m q \<le> pins bp (PageKey fid q)" for q using o by (auto simp: owns_def pool_ok_def)
  from inv f(2) show ?thesis
  proof (cases rule: newPage_cases)
    case (ok g pid bp1)
    then have "bp' = bp1" using f(3) by simp
    then show ?thesis using owns_moves[OF o ok(2,6)] m f(1) by simp
  next
    case (err e bp1)
    then show ?thesis using owns_same[OF o err(2,3)] f(3) by simp
  qed
qed

lemma owns_unpin:
  assumes o: "owns pages ok fid m bp" and f: "i = fid \<Longrightarrow> m pid < pins bp (PageKey i pid) \<and> \<not> d"
    "pins bp (PageKey i pid) = 1 \<longrightarrow> d \<or> \<not> at_risk pages bp (PageKey i pid)" "unpin bp i pid d = Some (u, bp')"
  shows "owns pages ok fid m bp' \<and> undisturbed pages fid m bp bp'"
proof -
  have inv: "pool_inv pages ok bp" and m: "m q \<le> pins bp (PageKey fid q)" for q using o by (auto simp: owns_def pool_ok_def)
  from inv f(2) show ?thesis
  proof (cases rule: unpin_cases)
    case (ok bp1)
    then have "bp' = bp1" using f(3) by simp
    moreover have "m q \<le> ((pins bp)(PageKey i pid := pins bp (PageKey i pid) - 1)) (PageKey fid q)" for q using f(1) m[of q] by auto
    ultimately show ?thesis using owns_moves[OF o ok(2,5)] f(1) by simp
  next
    case (err e)
    then show ?thesis using f(3) o undisturbed_refl by simp
  qed
qed

lemma others_step_keeps:
  assumes step: "others_step D pages ok fid m bp bp'" and o: "owns pages ok fid m bp"
  shows "owns pages ok fid m bp' \<and> undisturbed pages fid m bp bp'"
proof -
  have inv: "pool_inv pages ok bp" and m: "m q \<le> pins bp (PageKey fid q)" for q using o by (auto simp: owns_def pool_ok_def)
  from step show ?thesis
  proof cases
    case (others_unpin i pid d u)
    then show ?thesis using owns_unpin[OF o, of i pid d u bp'] by blast
  next
    case (others_write k f b)
    note wp = write_pinned[OF inv[unfolded pool_inv_def] others_write(3-5)]
    show ?thesis unfolding others_write(1)
      by (rule owns_moves[OF o wp(1)[folded pool_inv_def] wp(2)]) (use others_write(2) m in auto)
  next
    case (others_flush i pid u)
    then show ?thesis using flushPage_view[OF inv, of i pid] owns_same[OF o] by auto
  next
    case (others_flushAll ks u)
    then show ?thesis using FlushAll_spec[OF inv] owns_same[OF o] by blast
  next
    case (others_sync n u dm)
    have "ok (files bp ! n)" using inv others_sync(2) by (simp add: pool_inv_def pool_wf_def)
    from sync_keeps[OF this others_sync(3)] have "pages dm = pages (files bp ! n)" "ok dm" by auto
    from file_same[OF inv[unfolded pool_inv_def] this others_sync(2)] show ?thesis
      using owns_same[OF o] others_sync(1) by (simp add: pool_inv_def)
  qed (use owns_Register[OF o] owns_fetch[OF o] owns_newPage[OF o] in blast)+
qed

lemma others_run_keeps:
  assumes "(others_step D pages ok fid m)\<^sup>*\<^sup>* bp bp'" "owns pages ok fid m bp"
  shows "owns pages ok fid m bp' \<and> undisturbed pages fid m bp bp'"
  using assms
proof (induction rule: rtranclp_induct)
  case (step bp1 bp2)
  then show ?case using others_step_keeps[OF step(2)] undisturbed_trans by blast
qed (simp add: undisturbed_refl)

end

subsection \<open>A handle among goroutines\<close>

text \<open>The state of one goroutine: the pool, the pins it holds in its file, and the number of times it has let the others run.\<close>

record 'd turn =
  tpool :: "'d BufferPool"
  mine :: "PageID \<Rightarrow> nat"
  clock :: nat

type_synonym 'd schedule = "nat \<Rightarrow> (PageID \<Rightarrow> nat) \<Rightarrow> 'd BufferPool \<Rightarrow> 'd BufferPool"

definition polite :: "'d diskManager \<Rightarrow> ('d \<Rightarrow> page list) \<Rightarrow> ('d \<Rightarrow> bool) \<Rightarrow> FileID \<Rightarrow> 'd schedule \<Rightarrow> bool" where
  "polite D pages ok fid E \<longleftrightarrow> (\<forall>n m bp. owns pages ok fid m bp \<longrightarrow> (others_step D pages ok fid m)\<^sup>*\<^sup>* bp (E n m bp))"

definition yield :: "'d schedule \<Rightarrow> 'd turn \<Rightarrow> 'd turn" where
  "yield E s = s\<lparr>tpool := E (clock s) (mine s) (tpool s), clock := Suc (clock s)\<rparr>"

definition amid :: "'d schedule \<Rightarrow> ('d BufferPool \<Rightarrow> ('a \<times> 'd BufferPool) option) \<Rightarrow> ('a \<Rightarrow> (PageID \<Rightarrow> nat) \<Rightarrow> PageID \<Rightarrow> nat) \<Rightarrow>
    'd turn \<Rightarrow> ('a \<times> 'd turn) option" where
  "amid E call pinned s = do {
     let s = yield E s;
     (r, bp) \<leftarrow> call (tpool s);
     Some (r, yield E (s\<lparr>tpool := bp, mine := pinned r (mine s)\<rparr>))
   }"

fun pin_fetched :: "PageID \<Rightarrow> err + frameID \<Rightarrow> (PageID \<Rightarrow> nat) \<Rightarrow> PageID \<Rightarrow> nat" where
  "pin_fetched pid (Inl _) m = m"
| "pin_fetched pid (Inr _) m = m(pid := Suc (m pid))"

fun pin_new :: "err + frameID \<times> PageID \<Rightarrow> (PageID \<Rightarrow> nat) \<Rightarrow> PageID \<Rightarrow> nat" where
  "pin_new (Inl _) m = m"
| "pin_new (Inr (_, pid)) m = m(pid := Suc (m pid))"

fun pin_released :: "PageID \<Rightarrow> err + unit \<Rightarrow> (PageID \<Rightarrow> nat) \<Rightarrow> PageID \<Rightarrow> nat" where
  "pin_released pid (Inl _) m = m"
| "pin_released pid (Inr _) m = m(pid := m pid - 1)"

definition SharedHandle :: "'d diskManager \<Rightarrow> 'd schedule \<Rightarrow> FileID \<Rightarrow> 'd turn pager" where
  "SharedHandle D E fid =
     \<lparr>FetchPage = (\<lambda>s pid. amid E (\<lambda>bp. FetchPage (FileHandle D fid) bp pid) (pin_fetched pid) s),
      NewPage = (\<lambda>s. amid E (NewPage (FileHandle D fid)) pin_new s),
      UnpinPage = (\<lambda>s pid d. amid E (\<lambda>bp. UnpinPage (FileHandle D fid) bp pid d) (pin_released pid) s),
      NumPages = (\<lambda>s. NumPages (FileHandle D fid) (tpool s)),
      load = (\<lambda>s f. load (FileHandle D fid) (tpool s) f),
      store = (\<lambda>s f b. s\<lparr>tpool := store (FileHandle D fid) (tpool s) f b\<rparr>)\<rparr>"

definition shared_view :: "('d \<Rightarrow> page list) \<Rightarrow> FileID \<Rightarrow> 'd turn \<Rightarrow> nat file_view" where
  "shared_view pages fid s = \<lparr>fpages = fpages (pool_view pages fid (tpool s)), held = mine s,
     unsaved = unsaved (pool_view pages fid (tpool s)), others = length (frames (tpool s))\<rparr>"

abbreviation shared_ptr :: "FileID \<Rightarrow> 'd turn \<Rightarrow> PageID \<Rightarrow> frameID option" where
  "shared_ptr fid s \<equiv> pool_ptr fid (tpool s)"

abbreviation shared_ok :: "('d \<Rightarrow> page list) \<Rightarrow> ('d \<Rightarrow> bool) \<Rightarrow> FileID \<Rightarrow> 'd turn \<Rightarrow> bool" where
  "shared_ok pages ok fid s \<equiv> owns pages ok fid (mine s) (tpool s)"

definition spare :: "'d turn \<Rightarrow> nat" where
  "spare s = length (frames (tpool s)) - card {pid. 0 < mine s pid}"

lemma pool_view_sel [simp]:
  "held (pool_view pages fid bp) q = pins bp (PageKey fid q)" "unsaved (pool_view pages fid bp) q = at_risk pages bp (PageKey fid q)"
  by (simp_all add: pool_view_def mk_view_def)

lemma shared_view_sel [simp]:
  "fpages (shared_view pages fid s) = fpages (pool_view pages fid (tpool s))" "held (shared_view pages fid s) = mine s"
  "unsaved (shared_view pages fid s) = unsaved (pool_view pages fid (tpool s))" "others (shared_view pages fid s) = length (frames (tpool s))"
  by (simp_all add: shared_view_def)

lemma shared_view_back:
  assumes "shared_view pages fid s' = shared_view pages fid s\<lparr>fpages := ps\<rparr>"
  shows "mine s' = mine s" "fpages (pool_view pages fid (tpool s')) = ps"
    "at_risk pages (tpool s') (PageKey fid q) = at_risk pages (tpool s) (PageKey fid q)"
proof -
  have "unsaved (pool_view pages fid (tpool s')) = unsaved (pool_view pages fid (tpool s))" using assms by (simp add: shared_view_def)
  from fun_cong[OF this, of q] show "at_risk pages (tpool s') (PageKey fid q) = at_risk pages (tpool s) (PageKey fid q)" by simp
qed (use assms in \<open>simp_all add: shared_view_def\<close>)

lemma yield_sel [simp]: "mine (yield E s) = mine s" "tpool (yield E s) = E (clock s) (mine s) (tpool s)"
  by (simp_all add: yield_def)

context page_store
begin

lemma polite_keeps:
  assumes "polite D pages ok fid E" "owns pages ok fid m bp"
  shows "owns pages ok fid m (E n m bp)" "undisturbed pages fid m bp (E n m bp)"
  using others_run_keeps[of fid m bp "E n m bp"] assms by (auto simp: polite_def)

lemma room_mine:
  assumes "owns pages ok fid m bp" shows "finite {pid. 0 < m pid}" "card {pid. 0 < m pid} \<le> length (frames bp)"
proof -
  have sub: "PageKey fid ` {pid. 0 < m pid} \<subseteq> {k. 0 < pins bp k}" and inv: "pool_inv pages ok bp"
    using assms by (auto simp: owns_def pool_ok_def intro: less_le_trans)
  have fin: "finite {k. 0 < pins bp k}" using pinned_frames[OF inv] finite_subset by blast
  have inj: "inj_on (PageKey fid) A" for A by (simp add: inj_on_def)
  show "finite {pid. 0 < m pid}" using finite_subset[OF sub fin] by (rule finite_imageD) (rule inj)
  show "card {pid. 0 < m pid} \<le> length (frames bp)"
    using card_mono[OF fin sub] card_image[OF inj, of "{pid. 0 < m pid}"] card_pinned(1)[OF inv] by simp
qed

lemma spare_upd:
  assumes "shared_ok pages ok fid s" "shared_ok pages ok fid s'" "length (frames (tpool s')) = length (frames (tpool s))" "mine s' = (mine s)(pid := n)"
  shows "spare s' + (if 0 < n then 1 else 0) = spare s + (if 0 < mine s pid then 1 else 0)"
proof -
  note r = room_mine[OF assms(1)] and r' = room_mine[OF assms(2)]
  obtain A where A: "finite A" "pid \<notin> A" "{q. 0 < mine s q} = (if 0 < mine s pid then insert pid A else A)"
    "{q. 0 < mine s' q} = (if 0 < n then insert pid A else A)"
    by (rule that[of "{q. 0 < mine s q} - {pid}"]) (use r(1) assms(4) in auto)
  have "card {q. 0 < mine s q} = card A + (if 0 < mine s pid then 1 else 0)" "card {q. 0 < mine s' q} = card A + (if 0 < n then 1 else 0)"
    unfolding A(3,4) using A(1,2) by simp_all
  then show ?thesis using r(2) r'(2) assms(3) by (simp add: spare_def)
qed

text \<open>A call among the others: the pool it meets and leaves shows this goroutine what it saw before, and what it sees after.\<close>

lemma amid_cases:
  assumes p: "polite D pages ok fid E" "shared_ok pages ok fid s" and c: "amid E call pinned s = Some (r, s')"
  obtains bp bp' where "call bp = Some (r, bp')" "owns pages ok fid (mine s) bp" "pool_ok pages ok fid bp" "mine s' = pinned r (mine s)"
    "fpages (pool_view pages fid bp) = fpages (shared_view pages fid s)" "unsaved (pool_view pages fid bp) = unsaved (shared_view pages fid s)"
    "\<And>ps H U. \<lbrakk>pool_ok pages ok fid bp'; pool_view pages fid bp' = pool_view pages fid bp\<lparr>fpages := ps, held := H, unsaved := U\<rparr>;
       \<And>q. mine s' q \<le> H q \<and> (U q \<longrightarrow> 0 < mine s' q);
       \<And>q. 0 < mine s q \<Longrightarrow> 0 < mine s' q \<Longrightarrow> pool_ptr fid bp' q = pool_ptr fid bp q\<rbrakk> \<Longrightarrow>
       shared_ok pages ok fid s' \<and> shared_view pages fid s' = shared_view pages fid s\<lparr>fpages := ps, held := mine s', unsaved := U\<rparr> \<and>
       (\<forall>q. 0 < mine s' q \<longrightarrow> shared_ptr fid s' q = pool_ptr fid bp' q) \<and>
       (\<forall>q. 0 < mine s q \<and> 0 < mine s' q \<longrightarrow> shared_ptr fid s' q = shared_ptr fid s q)"
proof -
  let ?s = "yield E s"
  obtain bp' where b: "call (tpool ?s) = Some (r, bp')" "s' = yield E (?s\<lparr>tpool := bp', mine := pinned r (mine s)\<rparr>)"
    using c by (auto simp: amid_def bind_eq_Some_conv)
  note before = polite_keeps[OF p, of "clock s"]
  show thesis
  proof (rule that[OF b(1)])
    fix ps H U
    assume a: "pool_ok pages ok fid bp'" "pool_view pages fid bp' = pool_view pages fid (tpool ?s)\<lparr>fpages := ps, held := H, unsaved := U\<rparr>"
      "\<And>q. mine s' q \<le> H q \<and> (U q \<longrightarrow> 0 < mine s' q)"
      "\<And>q. 0 < mine s q \<Longrightarrow> 0 < mine s' q \<Longrightarrow> pool_ptr fid bp' q = pool_ptr fid (tpool ?s) q"
    have "held (pool_view pages fid bp') = H" "unsaved (pool_view pages fid bp') = U" using a(2) by simp_all
    then have "owns pages ok fid (mine s') bp'" using a(1,3) by (auto simp: owns_def fun_eq_iff)
    note after = polite_keeps[OF p(1) this, of "clock ?s"]
    have s': "tpool s' = E (clock ?s) (mine s') bp'" by (simp add: b(2))
    have fr: "length (frames bp') = length (frames (tpool ?s))" using arg_cong[OF a(2), of others] by (simp add: pool_view_def mk_view_def)
    have "shared_view pages fid s' = shared_view pages fid s\<lparr>fpages := ps, held := mine s', unsaved := U\<rparr>"
      using after(2) before(2) a(2) fr by (simp add: undisturbed_def shared_view_def s')
    moreover have "shared_ptr fid s' q = shared_ptr fid s q" if "0 < mine s q" "0 < mine s' q" for q
      using after(2) before(2) a(4)[OF that] that by (simp add: undisturbed_def s')
    ultimately show "shared_ok pages ok fid s' \<and> shared_view pages fid s' = shared_view pages fid s\<lparr>fpages := ps, held := mine s', unsaved := U\<rparr> \<and>
       (\<forall>q. 0 < mine s' q \<longrightarrow> shared_ptr fid s' q = pool_ptr fid bp' q) \<and>
       (\<forall>q. 0 < mine s q \<and> 0 < mine s' q \<longrightarrow> shared_ptr fid s' q = shared_ptr fid s q)"
      using after by (simp add: undisturbed_def s')
  qed (use before in \<open>auto simp: b(2) owns_def undisturbed_def\<close>)
qed

end

context page_store
begin

lemma shared_fetch:
  assumes p: "polite D pages ok fid E" "shared_ok pages ok fid s" and c: "FetchPage (SharedHandle D E fid) s pid = Some (r, s')"
  shows "shared_ok pages ok fid s' \<and> (\<forall>q. 0 < mine s q \<longrightarrow> shared_ptr fid s' q = shared_ptr fid s q) \<and>
    shared_view pages fid s' = shared_view pages fid s\<lparr>held := pin_fetched pid r (mine s)\<rparr> \<and>
    (\<forall>f. r = Inr f \<longrightarrow> unat pid < length (fpages (shared_view pages fid s)) \<and> shared_ptr fid s' pid = Some f)"
proof -
  have "amid E (\<lambda>bp. FetchPage (FileHandle D fid) bp pid) (pin_fetched pid) s = Some (r, s')" using c by (simp add: SharedHandle_def)
  from p this show ?thesis
  proof (cases rule: amid_cases)
    case (1 bp bp')
    let ?v = "pool_view pages fid bp"
    have "fetch D bp fid pid = Some (r, bp')" using 1(1) by (simp add: FileHandle_def)
    note h = handle_fetch[OF 1(3) this]
    have v: "pool_view pages fid bp' = ?v\<lparr>fpages := fpages ?v, held := pin_fetched pid r (held ?v), unsaved := unsaved ?v\<rparr>"
      using h by (cases r) simp_all
    have m: "mine s q \<le> held ?v q" "unsaved ?v q \<Longrightarrow> 0 < mine s q" for q using 1(2) by (simp_all add: owns_def)
    have le: "mine s' q \<le> pin_fetched pid r (held ?v) q \<and> (unsaved ?v q \<longrightarrow> 0 < mine s' q)" for q
      using m[of q] 1(4) by (cases r) (auto simp del: pool_view_sel)
    have "0 < mine s q \<Longrightarrow> pool_ptr fid bp' q = pool_ptr fid bp q" for q using h m(1)[of q] by auto
    note k = 1(7)[OF conjunct1[OF h] v le this]
    have "0 < mine s q \<Longrightarrow> 0 < mine s' q" for q using 1(4) by (cases r) auto
    then show ?thesis using k h 1(4-6) by (auto simp: shared_view_def)
  qed
qed

end

context page_store
begin

lemma shared_new:
  assumes p: "polite D pages ok fid E" "shared_ok pages ok fid s" and c: "NewPage (SharedHandle D E fid) s = Some (r, s')"
  shows "shared_ok pages ok fid s' \<and> (\<forall>q. 0 < mine s q \<longrightarrow> shared_ptr fid s' q = shared_ptr fid s q) \<and>
    (case r of Inl _ \<Rightarrow> shared_view pages fid s' = shared_view pages fid s
     | Inr (f, pid) \<Rightarrow> unat pid = length (fpages (shared_view pages fid s)) \<and> shared_ptr fid s' pid = Some f \<and>
        shared_view pages fid s' = shared_view pages fid s
          \<lparr>fpages := fpages (shared_view pages fid s) @ [NewPage_frame], held := (mine s)(pid := 1)\<rparr>)"
proof -
  have "amid E (NewPage (FileHandle D fid)) pin_new s = Some (r, s')" using c by (simp add: SharedHandle_def)
  from p this show ?thesis
  proof (cases rule: amid_cases)
    case (1 bp bp')
    let ?v = "pool_view pages fid bp"
    have "newPage D bp fid = Some (r, bp')" using 1(1) by (simp add: FileHandle_def)
    note h = handle_newPage[OF 1(3) this]
    have m: "mine s q \<le> held ?v q" "unsaved ?v q \<Longrightarrow> 0 < mine s q" for q using 1(2) by (simp_all add: owns_def)
    have ptr: "0 < mine s q \<Longrightarrow> pool_ptr fid bp' q = pool_ptr fid bp q" for q using h m(1)[of q] by auto
    show ?thesis
    proof (cases r)
      case (Inl e)
      have v: "pool_view pages fid bp' = ?v\<lparr>fpages := fpages ?v, held := held ?v, unsaved := unsaved ?v\<rparr>" using h Inl by simp
      have "mine s' q \<le> held ?v q \<and> (unsaved ?v q \<longrightarrow> 0 < mine s' q)" for q using m[of q] 1(4) Inl by auto
      note k = 1(7)[OF conjunct1[OF h] v this ptr]
      then show ?thesis using Inl 1(4-6) by (auto simp: shared_view_def)
    next
      case (Inr x)
      obtain f pid where x: "x = (f, pid)" by (cases x)
      have v: "pool_view pages fid bp' = ?v\<lparr>fpages := fpages ?v @ [NewPage_frame], held := (held ?v)(pid := 1), unsaved := unsaved ?v\<rparr>"
        and pid: "unat pid = length (fpages ?v)" "pool_ptr fid bp' pid = Some f" using h Inr x by simp_all
      have "held ?v pid = 0" using handle.held_page[OF 1(3), of pid] pid(1) by auto
      then have m0: "mine s pid = 0" "mine s' = (mine s)(pid := 1)" using m(1)[of pid] 1(4) Inr x by simp_all
      have "mine s' q \<le> ((held ?v)(pid := 1)) q \<and> (unsaved ?v q \<longrightarrow> 0 < mine s' q)" for q
        using m[of q] m0 by (auto simp del: pool_view_sel)
      note k = 1(7)[OF conjunct1[OF h] v this ptr]
      then show ?thesis using Inr x 1(5,6) pid m0 by (auto simp: shared_view_def)
    qed
  qed
qed

lemma shared_unpin:
  assumes p: "polite D pages ok fid E" "shared_ok pages ok fid s" and m: "0 < mine s pid"
    and safe: "mine s pid = 1 \<Longrightarrow> d \<or> \<not> unsaved (shared_view pages fid s) pid"
  shows "\<exists>s'. UnpinPage (SharedHandle D E fid) s pid d = Some (Inr (), s') \<and> shared_ok pages ok fid s' \<and>
    shared_view pages fid s' = shared_view pages fid s\<lparr>held := (mine s)(pid := mine s pid - 1),
      unsaved := (unsaved (shared_view pages fid s))(pid := unsaved (shared_view pages fid s) pid \<and> \<not> d)\<rparr> \<and>
    (\<forall>q. 0 < mine s q \<longrightarrow> q \<noteq> pid \<or> 1 < mine s q \<longrightarrow> shared_ptr fid s' q = shared_ptr fid s q)"
proof -
  have call: "\<exists>bp'. unpin bp fid pid d = Some (Inr (), bp') \<and> pool_ok pages ok fid bp' \<and>
      pool_view pages fid bp' = pool_view pages fid bp\<lparr>fpages := fpages (pool_view pages fid bp),
        held := (held (pool_view pages fid bp))(pid := held (pool_view pages fid bp) pid - 1),
        unsaved := (unsaved (pool_view pages fid bp))(pid := unsaved (pool_view pages fid bp) pid \<and> \<not> d)\<rparr> \<and>
      (\<forall>q. 0 < held (pool_view pages fid bp) q \<longrightarrow> q \<noteq> pid \<or> 1 < held (pool_view pages fid bp) q \<longrightarrow> pool_ptr fid bp' q = pool_ptr fid bp q)"
    if o: "owns pages ok fid (mine s) bp" "unsaved (pool_view pages fid bp) = unsaved (shared_view pages fid s)" for bp
  proof -
    have "mine s pid \<le> pins bp (PageKey fid pid)" "pool_ok pages ok fid bp" using o(1) by (simp_all add: owns_def)
    then show ?thesis using handle_unpin[of fid bp pid d] m safe o(2) by (auto simp: fun_eq_iff)
  qed
  have "owns pages ok fid (mine s) (tpool (yield E s))" "unsaved (pool_view pages fid (tpool (yield E s))) = unsaved (shared_view pages fid s)"
    using polite_keeps[OF p] by (simp_all add: undisturbed_def)
  from call[OF this] obtain s' where c: "amid E (\<lambda>bp. UnpinPage (FileHandle D fid) bp pid d) (pin_released pid) s = Some (Inr (), s')"
    by (auto simp: amid_def FileHandle_def)
  from p this have "shared_ok pages ok fid s' \<and>
    shared_view pages fid s' = shared_view pages fid s\<lparr>held := (mine s)(pid := mine s pid - 1),
      unsaved := (unsaved (shared_view pages fid s))(pid := unsaved (shared_view pages fid s) pid \<and> \<not> d)\<rparr> \<and>
    (\<forall>q. 0 < mine s q \<longrightarrow> q \<noteq> pid \<or> 1 < mine s q \<longrightarrow> shared_ptr fid s' q = shared_ptr fid s q)"
  proof (cases rule: amid_cases)
    case (1 bp bp')
    let ?v = "pool_view pages fid bp"
    have b: "pool_ok pages ok fid bp'" "pool_view pages fid bp' = ?v\<lparr>fpages := fpages ?v,
        held := (held ?v)(pid := held ?v pid - 1), unsaved := (unsaved ?v)(pid := unsaved ?v pid \<and> \<not> d)\<rparr>"
      "\<forall>q. 0 < held ?v q \<longrightarrow> q \<noteq> pid \<or> 1 < held ?v q \<longrightarrow> pool_ptr fid bp' q = pool_ptr fid bp q"
      using call[OF 1(2,6)] 1(1) by (auto simp: FileHandle_def)
    have l: "mine s q \<le> held ?v q" "unsaved ?v q \<Longrightarrow> 0 < mine s q" for q using 1(2) by (simp_all add: owns_def)
    have le: "mine s' q \<le> ((held ?v)(pid := held ?v pid - 1)) q \<and> (((unsaved ?v)(pid := unsaved ?v pid \<and> \<not> d)) q \<longrightarrow> 0 < mine s' q)" for q
      using l[of q] 1(4,6) safe m by (auto simp del: pool_view_sel simp: diff_le_mono intro!: Suc_lessI)
    have "pool_ptr fid bp' q = pool_ptr fid bp q" if "0 < mine s q" "0 < mine s' q" for q
      using b(3) l(1)[of q] that 1(4) by (cases "q = pid") auto
    note k = 1(7)[OF b(1,2) le this]
    have "0 < mine s' q" if "0 < mine s q" "q \<noteq> pid \<or> 1 < mine s q" for q using that 1(4) by auto
    then show ?thesis using k 1(4-6) by (auto simp: shared_view_def)
  qed
  then show ?thesis using c by (auto simp: SharedHandle_def)
qed

end

context page_store
begin

lemma shared_store:
  assumes s: "shared_ok pages ok fid s" "shared_ptr fid s pid = Some p" "0 < mine s pid" and b: "length b = 8192"
  shows "shared_ok pages ok fid (store (SharedHandle D E fid) s p b)" "shared_ptr fid (store (SharedHandle D E fid) s p b) = shared_ptr fid s"
    "\<exists>u. shared_view pages fid (store (SharedHandle D E fid) s p b) = shared_view pages fid s
      \<lparr>fpages := (fpages (shared_view pages fid s))[unat pid := b], unsaved := (unsaved (shared_view pages fid s))(pid := u)\<rparr>"
proof -
  let ?bp = "store (FileHandle D fid) (tpool s) p b"
  have ok: "pool_ok pages ok fid (tpool s)" "0 < pins (tpool s) (PageKey fid pid)" using s(1,3) by (auto simp: owns_def intro: less_le_trans)
  from handle.store_ptr[OF ok(1) s(2) _ b] ok(2) obtain u where st: "pool_ok pages ok fid ?bp" "pool_ptr fid ?bp = shared_ptr fid s"
    and v: "pool_view pages fid ?bp = pool_view pages fid (tpool s)
      \<lparr>fpages := (fpages (pool_view pages fid (tpool s)))[unat pid := b], unsaved := (unsaved (pool_view pages fid (tpool s)))(pid := u)\<rparr>" by auto
  from arg_cong[OF v, of held] arg_cong[OF v, of unsaved] s(1,3) st(1) have "owns pages ok fid (mine s) ?bp" by (auto simp: owns_def fun_eq_iff)
  then show "shared_ok pages ok fid (store (SharedHandle D E fid) s p b)" by (simp add: SharedHandle_def)
  show "shared_ptr fid (store (SharedHandle D E fid) s p b) = shared_ptr fid s" using st(2) by (simp add: SharedHandle_def)
  from arg_cong[OF v, of others] have "length (frames ?bp) = length (frames (tpool s))" by (simp add: pool_view_def mk_view_def)
  then show "\<exists>u. shared_view pages fid (store (SharedHandle D E fid) s p b) = shared_view pages fid s
      \<lparr>fpages := (fpages (shared_view pages fid s))[unat pid := b], unsaved := (unsaved (shared_view pages fid s))(pid := u)\<rparr>"
    using v by (auto simp: SharedHandle_def shared_view_def)
qed

text \<open>The contract of the pager, kept among goroutines. How many frames are free is not under this goroutine's control, so no call is promised to
  succeed.\<close>

lemma shared_page_cache:
  assumes pol: "polite D pages ok fid E"
  shows "page_cache (SharedHandle D E fid) (shared_view pages fid) (shared_ptr fid) (shared_ok pages ok fid) (\<lambda>_. False) spare"
proof
  fix s assume s: "shared_ok pages ok fid s"
  have ok: "pool_ok pages ok fid (tpool s)" and m: "mine s q \<le> pins (tpool s) (PageKey fid q)" for q using s by (auto simp: owns_def)
  have y: "pool_ok pages ok fid (E (clock s) (mine s) (tpool s))" using polite_keeps(1)[OF pol s] by (simp add: owns_def)
  show "\<exists>n. NumPages (SharedHandle D E fid) s = Some n \<and> unat n = length (fpages (shared_view pages fid s))"
    using handle.num_pages_ok[OF ok] by (simp add: SharedHandle_def)
  show "length b = 8192" if "b \<in> set (fpages (shared_view pages fid s))" for b using handle.page_size[OF ok] that by simp
  show "unat pid < length (fpages (shared_view pages fid s))" if "0 < held (shared_view pages fid s) pid" for pid
    using handle.held_page[OF ok, of pid] that m[of pid] by simp
  show "0 < held (shared_view pages fid s) pid" if "unsaved (shared_view pages fid s) pid" for pid using s that by (simp add: owns_def)
  show "\<exists>r s'. FetchPage (SharedHandle D E fid) s pid = Some (r, s')" for pid
    using handle.fetch_total[OF y, of pid] by (auto simp: SharedHandle_def amid_def)
  show "\<exists>r s'. NewPage (SharedHandle D E fid) s = Some (r, s')"
    using handle.new_total[OF y] by (auto simp: SharedHandle_def amid_def)
next
  fix s pid p assume s: "shared_ok pages ok fid s" "shared_ptr fid s pid = Some p" "0 < held (shared_view pages fid s) pid"
  have ok: "pool_ok pages ok fid (tpool s)" "0 < pins (tpool s) (PageKey fid pid)" using s(1,3) by (auto simp: owns_def intro: less_le_trans)
  show "load (SharedHandle D E fid) s p = Some (fpages (shared_view pages fid s) ! unat pid)"
    using handle.load_ptr[OF ok(1) s(2)] ok(2) by (simp add: SharedHandle_def)
  show "store (SharedHandle D E fid) s p (fpages (shared_view pages fid s) ! unat pid) = s"
    using handle.store_same[OF ok(1) s(2)] ok(2) by (simp add: SharedHandle_def)
  show "shared_ok pages ok fid (store (SharedHandle D E fid) s p b) \<and> shared_ptr fid (store (SharedHandle D E fid) s p b) = shared_ptr fid s \<and>
      (\<exists>u. shared_view pages fid (store (SharedHandle D E fid) s p b) = shared_view pages fid s
        \<lparr>fpages := (fpages (shared_view pages fid s))[unat pid := b], unsaved := (unsaved (shared_view pages fid s))(pid := u)\<rparr>) \<and>
      (False \<longrightarrow> False)" if "length b = 8192" for b
    using shared_store[OF s(1,2) _ that] s(3) by simp
next
  fix s pid d assume "shared_ok pages ok fid s" "0 < held (shared_view pages fid s) pid"
    "held (shared_view pages fid s) pid = 1 \<Longrightarrow> d \<or> \<not> unsaved (shared_view pages fid s) pid"
  then show "\<exists>s'. UnpinPage (SharedHandle D E fid) s pid d = Some (Inr (), s') \<and> shared_ok pages ok fid s' \<and>
      shared_view pages fid s' = shared_view pages fid s\<lparr>held := (held (shared_view pages fid s))(pid := held (shared_view pages fid s) pid - 1),
        unsaved := (unsaved (shared_view pages fid s))(pid := unsaved (shared_view pages fid s) pid \<and> \<not> d)\<rparr> \<and>
      (\<forall>q. 0 < held (shared_view pages fid s) q \<longrightarrow> q \<noteq> pid \<or> 1 < held (shared_view pages fid s) q \<longrightarrow> shared_ptr fid s' q = shared_ptr fid s q) \<and>
      (False \<longrightarrow> False)"
    using shared_unpin[OF pol, of s pid d] by simp
next
  fix s s' pid n assume "shared_ok pages ok fid s" "shared_ok pages ok fid s'" "others (shared_view pages fid s') = others (shared_view pages fid s)"
    "held (shared_view pages fid s') = (held (shared_view pages fid s))(pid := n)"
  then show "spare s' + (if 0 < n then 1 else 0) = spare s + (if 0 < held (shared_view pages fid s) pid then 1 else 0)"
    using spare_upd[of fid s s' pid n] by simp
next
  fix s pid p s' assume "shared_ok pages ok fid s" "FetchPage (SharedHandle D E fid) s pid = Some (Inr p, s')"
  from shared_fetch[OF pol this] show "shared_ok pages ok fid s' \<and> unat pid < length (fpages (shared_view pages fid s)) \<and> shared_ptr fid s' pid = Some p \<and>
      shared_view pages fid s' = shared_view pages fid s\<lparr>held := (held (shared_view pages fid s))(pid := Suc (held (shared_view pages fid s) pid))\<rparr>"
    by simp
next
  fix s pid e s' assume "shared_ok pages ok fid s" "FetchPage (SharedHandle D E fid) s pid = Some (Inl e, s')"
  from shared_fetch[OF pol this] show "shared_ok pages ok fid s' \<and> shared_view pages fid s' = shared_view pages fid s" by (auto simp: shared_view_def)
next
  fix s pid r s' q assume "shared_ok pages ok fid s" "FetchPage (SharedHandle D E fid) s pid = Some (r, s')" "0 < held (shared_view pages fid s) q"
  then show "shared_ptr fid s' q = shared_ptr fid s q" using shared_fetch[OF pol, of s pid r s'] by simp
next
  fix s p pid s' assume "shared_ok pages ok fid s" "NewPage (SharedHandle D E fid) s = Some (Inr (p, pid), s')"
  from shared_new[OF pol this] show "shared_ok pages ok fid s' \<and> unat pid = length (fpages (shared_view pages fid s)) \<and> shared_ptr fid s' pid = Some p \<and>
      shared_view pages fid s' = shared_view pages fid s\<lparr>fpages := fpages (shared_view pages fid s) @ [NewPage_frame],
        held := (held (shared_view pages fid s))(pid := 1)\<rparr>" by simp
next
  fix s e s' assume "shared_ok pages ok fid s" "NewPage (SharedHandle D E fid) s = Some (Inl e, s')"
  from shared_new[OF pol this] show "shared_ok pages ok fid s' \<and> shared_view pages fid s' = shared_view pages fid s" by simp
next
  fix s r' s' q assume "shared_ok pages ok fid s" "NewPage (SharedHandle D E fid) s = Some (r', s')" "0 < held (shared_view pages fid s) q"
  then show "shared_ptr fid s' q = shared_ptr fid s q" using shared_new[OF pol, of s r' s'] by simp
qed simp_all

end

subsection \<open>What this goroutine is to the others\<close>

context page_store
begin

lemma other_file_cache:
  assumes "j \<noteq> fid"
  shows "page_cache (FileHandle D j) (pool_view pages j) (pool_ptr j) (\<lambda>bp. pool_ok pages ok j bp \<and> (others_step D pages ok fid m)\<^sup>*\<^sup>* bp0 bp)
    (all_quiet quiet) room"
proof (rule handle.traced)
  show "others_step D pages ok fid m bp bp'" if "pool_ok pages ok j bp" "FetchPage (FileHandle D j) bp pid = Some (r, bp')" for bp pid r bp'
    using that others_fetch[of j bp D pid r bp'] by (simp add: pool_ok_def FileHandle_def)
  show "others_step D pages ok fid m bp bp'" if "pool_ok pages ok j bp" "NewPage (FileHandle D j) bp = Some (r, bp')" for bp r bp'
    using that others_newPage[OF assms, of bp D r bp'] by (simp add: pool_ok_def FileHandle_def)
  show "others_step D pages ok fid m bp bp'" if "0 < held (pool_view pages j bp) pid"
      "held (pool_view pages j bp) pid = 1 \<Longrightarrow> d \<or> \<not> unsaved (pool_view pages j bp) pid" "UnpinPage (FileHandle D j) bp pid d = Some (Inr (), bp')"
    for bp pid d bp'
    by (rule others_unpin[where i = j and d' = d]) (use that assms in \<open>auto simp: FileHandle_def\<close>)
  show "others_step D pages ok fid m bp (store (FileHandle D j) bp p b)" if "pool_ptr j bp pid = Some p" "0 < held (pool_view pages j bp) pid" "length b = 8192"
    for bp pid p b
    using others_write[of "PageKey j pid" fid bp p b D pages ok m] that assms by (simp add: FileHandle_def pool_ptr_def)
qed

end

subsection \<open>A polite schedule\<close>

text \<open>A goroutine that keeps reading page 0 of the same file and flushing it.\<close>

definition patrol :: "'d diskManager \<Rightarrow> FileID \<Rightarrow> 'd schedule" where
  "patrol D fid n m bp =
     (case fetch D bp fid 0 of
        Some (Inr f, bp1) \<Rightarrow> (let bp2 = snd (the (unpin bp1 fid 0 False)) in snd (the (flushPage D bp2 fid 0)))
      | Some (Inl e, bp1) \<Rightarrow> bp1
      | None \<Rightarrow> bp)"

context page_store
begin

lemma patrol_polite: "polite D pages ok fid (patrol D fid)"
  unfolding polite_def
proof (intro allI impI)
  fix n m bp assume o: "owns pages ok fid m bp"
  let ?S = "others_step D pages ok fid m" and ?k = "PageKey fid 0"
  have ok: "pool_ok pages ok fid bp" and fl: "unat fid < length (files bp)" using o by (auto simp: owns_def pool_ok_def)
  obtain r bp1 where f: "fetch D bp fid 0 = Some (r, bp1)" using handle.fetch_total[OF ok, of 0] by (auto simp: FileHandle_def)
  have s1: "?S bp bp1" by (rule others_fetch[OF fl f])
  show "?S\<^sup>*\<^sup>* bp (patrol D fid n m bp)"
  proof (cases r)
    case (Inl e)
    then show ?thesis using f s1 by (simp add: patrol_def r_into_rtranclp)
  next
    case (Inr x)
    note h = handle_fetch[OF ok f]
    have v: "pool_view pages fid bp1 = pool_view pages fid bp\<lparr>held := (held (pool_view pages fid bp))(0 := Suc (pins bp ?k))\<rparr>"
      using h Inr by simp
    from arg_cong[OF v, of held] arg_cong[OF v, of unsaved]
    have p1: "pins bp1 ?k = Suc (pins bp ?k)" "at_risk pages bp1 ?k = at_risk pages bp ?k" by (simp_all add: fun_eq_iff)
    have m: "m 0 \<le> pins bp ?k" "at_risk pages bp ?k \<Longrightarrow> 0 < m 0" using o by (simp_all add: owns_def)
    have safe: "\<not> at_risk pages bp1 ?k" if "pins bp1 ?k = 1" using that p1 m by auto
    have inv1: "pool_ok pages ok fid bp1" using h by simp
    obtain bp2 where u: "unpin bp1 fid 0 False = Some (Inr (), bp2)" "pool_ok pages ok fid bp2"
      using handle_unpin[OF inv1, of 0 False] p1(1) safe by auto
    have s2: "?S bp1 bp2" by (rule others_unpin[OF _ _ u(1)]) (use p1 m safe in auto)
    have "pool_inv pages ok bp2" using u(2) by (simp add: pool_ok_def)
    from flushPage_view[OF this, of fid 0] obtain w bp3 where w: "flushPage D bp2 fid 0 = Some (w, bp3)" by blast
    have s3: "?S bp2 bp3" by (rule others_flush[OF w])
    have "patrol D fid n m bp = bp3" using f Inr u(1) w by (simp add: patrol_def)
    then show ?thesis using s1 s2 s3 by (auto intro: rtranclp.rtrancl_into_rtrancl)
  qed
qed

lemma owns_none:
  assumes "pool_ok pages ok fid bp" "\<And>pid. \<not> unsaved (pool_view pages fid bp) pid" shows "owns pages ok fid (\<lambda>_. 0) bp"
  using assms by (simp add: owns_def)

end

definition alone :: "'d BufferPool \<Rightarrow> 'd turn" where
  "alone bp = \<lparr>tpool = bp, mine = (\<lambda>_. 0), clock = 0\<rparr>"

subsection \<open>Properties\<close>

text \<open>C12. The index under interference: while other goroutines work on other files of the pool, read this one, flush and sync, between any two pool calls
  of this goroutine and in any number, its \<^verbatim>\<open>Insert\<close> and \<^verbatim>\<open>Search\<close> still return and refine the map the index file represents, and they end with the pins
  they started with.\<close>

theorem concurrent_index_refines:
  assumes "polite disk_manager disk_pages disk_inv fid E" "owns disk_pages disk_inv fid (mine s) (tpool s)"
    and "\<And>pid. \<not> unsaved (pool_view disk_pages fid (tpool s)) pid" "index_map default_caps (fpages (pool_view disk_pages fid (tpool s))) h m"
  shows "(\<exists>r s'. Insert (SharedHandle disk_manager E fid) default_caps s key tid = Some (r, s') \<and> mine s' = mine s \<and>
      owns disk_pages disk_inv fid (mine s') (tpool s') \<and> (\<forall>pid. \<not> unsaved (pool_view disk_pages fid (tpool s')) pid) \<and>
      (r = Inr () \<longrightarrow> m key = None \<and>
        (\<exists>h'. h' \<le> Suc h \<and> index_map default_caps (fpages (pool_view disk_pages fid (tpool s'))) h' (m(key \<mapsto> tid)))) \<and>
      (r = Inl ErrDuplicateKey \<longrightarrow> m key \<noteq> None \<and> fpages (pool_view disk_pages fid (tpool s')) = fpages (pool_view disk_pages fid (tpool s)))) \<and>
    (\<exists>r s'. Search (SharedHandle disk_manager E fid) default_caps s key = Some (r, s') \<and> mine s' = mine s \<and>
      owns disk_pages disk_inv fid (mine s') (tpool s') \<and> fpages (pool_view disk_pages fid (tpool s')) = fpages (pool_view disk_pages fid (tpool s)) \<and>
      (\<forall>x. r = Inr x \<longrightarrow> x = (case m key of None \<Rightarrow> (TID 0 0, False) | Some tid \<Rightarrow> (tid, True))))"
    (is "?insert \<and> ?search")
proof
  note idx = btree_index.intro[OF disk.shared_page_cache[OF assms(1)] production.btree_caps_axioms]
  have u: "\<not> unsaved (shared_view disk_pages fid s) pid" for pid using assms(3) by simp
  have i: "index_map default_caps (fpages (shared_view disk_pages fid s)) h m" using assms(4) by simp
  obtain r s' ps' where I: "Insert (SharedHandle disk_manager E fid) default_caps s key tid = Some (r, s')"
    "owns disk_pages disk_inv fid (mine s') (tpool s')" "shared_view disk_pages fid s' = shared_view disk_pages fid s\<lparr>fpages := ps'\<rparr>"
    "r = Inr () \<longrightarrow> m key = None \<and> (\<exists>h'. h' \<le> Suc h \<and> index_map default_caps ps' h' (m(key \<mapsto> tid)))"
    "r = Inl ErrDuplicateKey \<longrightarrow> m key \<noteq> None \<and> ps' = fpages (shared_view disk_pages fid s)"
    using btree_index.Insert_map[OF idx assms(2) u i, of key tid] by blast
  then show ?insert using shared_view_back[OF I(3)] assms(3) by auto
  show ?search using btree_index.Search_map[OF idx assms(2) i, of key] by (fastforce simp: shared_view_def)
qed

theorem concurrent_index_refines_witness:
  "\<exists>r s'. Insert (SharedHandle disk_manager (patrol disk_manager 0) 0) default_caps (alone index_pool) 7 (TID 1 2) = Some (r, s') \<and>
    mine s' = (\<lambda>_. 0) \<and> (r = Inr () \<longrightarrow> (\<exists>h'. index_map default_caps (fpages (pool_view disk_pages 0 (tpool s'))) h' [7 \<mapsto> TID 1 2]))"
proof -
  have o: "owns disk_pages disk_inv 0 (mine (alone index_pool)) (tpool (alone index_pool))"
    using disk.owns_none[OF index_pool(1,2)] by (simp add: alone_def)
  show ?thesis using concurrent_index_refines[OF disk.patrol_polite o, of 0 Map.empty 7 "TID 1 2"] index_pool(2,3)
    by (fastforce simp: alone_def)
qed

text \<open>C13. The heap file under interference: with the same company, an insert of a heap file refines the insertion into its map from tuple ids to tuples, and
  what \<^verbatim>\<open>Get\<close> returns is what the map has.\<close>

theorem concurrent_heap_refines:
  assumes "polite disk_manager disk_pages disk_inv fid E" "owns disk_pages disk_inv fid (mine s) (tpool s)"
    and "\<And>pid. \<not> unsaved (pool_view disk_pages fid (tpool s)) pid" "heap_ok (fpages (pool_view disk_pages fid (tpool s)))"
  shows "(\<exists>r s'. heap_Insert (SharedHandle disk_manager E fid) s data = Some (r, s') \<and> mine s' = mine s \<and>
      owns disk_pages disk_inv fid (mine s') (tpool s') \<and> (\<forall>pid. \<not> unsaved (pool_view disk_pages fid (tpool s')) pid) \<and>
      heap_inserted (fpages (pool_view disk_pages fid (tpool s))) data r (fpages (pool_view disk_pages fid (tpool s')))) \<and>
    (\<exists>r s'. heap_Get (SharedHandle disk_manager E fid) s tid = Some (r, s') \<and> mine s' = mine s \<and>
      owns disk_pages disk_inv fid (mine s') (tpool s') \<and> fpages (pool_view disk_pages fid (tpool s')) = fpages (pool_view disk_pages fid (tpool s)) \<and>
      (\<forall>d. r = Inr d \<longrightarrow> row_at (fpages (pool_view disk_pages fid (tpool s))) tid = Some d))"
    (is "?insert \<and> ?get")
proof
  note cache = disk.shared_page_cache[OF assms(1)]
  have u: "\<not> unsaved (shared_view disk_pages fid s) pid" for pid using assms(3) by simp
  have h: "heap_ok (fpages (shared_view disk_pages fid s))" using assms(4) by simp
  obtain r s' ps' where I: "heap_Insert (SharedHandle disk_manager E fid) s data = Some (r, s')" "owns disk_pages disk_inv fid (mine s') (tpool s')"
    "shared_view disk_pages fid s' = shared_view disk_pages fid s\<lparr>fpages := ps'\<rparr>" "heap_inserted (fpages (shared_view disk_pages fid s)) data r ps'"
    using page_cache.heap_Insert_spec[OF cache assms(2) h u, of data] by blast
  then show ?insert using shared_view_back[OF I(3)] assms(3) by auto
  show ?get using page_cache.heap_Get_spec[OF cache assms(2) h, of tid] by (fastforce simp: shared_view_def)
qed

theorem concurrent_heap_refines_witness:
  "\<exists>r s'. heap_Insert (SharedHandle disk_manager (patrol disk_manager 0) 0) (alone blank_pool) [1, 2] = Some (r, s') \<and>
    mine s' = (\<lambda>_. 0) \<and> heap_inserted [] [1, 2] r (fpages (pool_view disk_pages 0 (tpool s')))"
proof -
  have o: "owns disk_pages disk_inv 0 (mine (alone blank_pool)) (tpool (alone blank_pool))"
    using disk.owns_none[OF blank_pool(1,5)] by (simp add: alone_def)
  show ?thesis using concurrent_heap_refines[OF disk.patrol_polite o, of "[1, 2]" "TID 0 0"] blank_pool(2,5)
    by (fastforce simp: alone_def heap_ok_def)
qed

text \<open>C14. The other side of the bargain: whatever a goroutine in the middle of its work on one file holds pinned and has not reported yet, a whole insertion of
  another goroutine into the index or heap of another file, failed or not, is a sequence of steps a polite schedule may take, and leaves the pages, the
  pointers and the pending changes of the first goroutine as they were.\<close>

theorem other_file_operations_polite:
  assumes "owns disk_pages disk_inv fid m bp" "j \<noteq> fid" "pool_ok disk_pages disk_inv j bp" "\<And>pid. \<not> unsaved (pool_view disk_pages j bp) pid"
    and "index_map default_caps (fpages (pool_view disk_pages j bp)) h f \<and> Insert (FileHandle disk_manager j) default_caps bp key tid = Some (r, bp') \<or>
      heap_ok (fpages (pool_view disk_pages j bp)) \<and> heap_Insert (FileHandle disk_manager j) bp data = Some (r', bp')"
  shows "(others_step disk_manager disk_pages disk_inv fid m)\<^sup>*\<^sup>* bp bp' \<and> owns disk_pages disk_inv fid m bp' \<and> undisturbed disk_pages fid m bp bp'"
proof -
  note cache = disk.other_file_cache[OF assms(2), of m bp]
  have ok: "pool_ok disk_pages disk_inv j bp \<and> (others_step disk_manager disk_pages disk_inv fid m)\<^sup>*\<^sup>* bp bp" using assms(3) by simp
  note idx = btree_index.intro[OF cache production.btree_caps_axioms]
  have "(others_step disk_manager disk_pages disk_inv fid m)\<^sup>*\<^sup>* bp bp'" using assms(5)
  proof
    assume i: "index_map default_caps (fpages (pool_view disk_pages j bp)) h f \<and> Insert (FileHandle disk_manager j) default_caps bp key tid = Some (r, bp')"
    show ?thesis using btree_index.Insert_map[OF idx ok assms(4) conjunct1[OF i], of key tid] i by auto
  next
    assume i: "heap_ok (fpages (pool_view disk_pages j bp)) \<and> heap_Insert (FileHandle disk_manager j) bp data = Some (r', bp')"
    show ?thesis using page_cache.heap_Insert_spec[OF cache ok conjunct1[OF i] assms(4), of data] i by auto
  qed
  then show ?thesis using disk.others_run_keeps[OF _ assms(1)] by blast
qed

theorem other_file_operations_polite_witness:
  "\<exists>f bp1 r bp'. fetch disk_manager demo_table 1 1 = Some (Inr f, bp1) \<and> heap_Insert (FileHandle disk_manager 0) bp1 [1, 2] = Some (r, bp') \<and>
    pageTable bp' (PageKey 1 1) = Some f \<and> fpages (pool_view disk_pages 1 bp') = fpages (pool_view disk_pages 1 bp1)"
proof -
  have t: "pool_ok disk_pages disk_inv 0 demo_table" "pool_ok disk_pages disk_inv 1 demo_table" "\<And>pid. \<not> unsaved (pool_view disk_pages 0 demo_table) pid"
    "\<And>pid. \<not> unsaved (pool_view disk_pages 1 demo_table) pid" using demo_table(1) by (auto simp: table_pool_def)
  obtain r bp1 where f: "FetchPage (FileHandle disk_manager 1) demo_table 1 = Some (r, bp1)" using disk.handle.fetch_total[OF t(2)] by blast
  then obtain p where r: "r = Inr p" using disk.handle.fetch_calm[OF t(2) demo_table(2) _ _ f] demo_table(3,5) by auto
  note f1 = disk.handle.fetch_ok[OF t(2) f[unfolded r]]
  have v: "held (pool_view disk_pages 1 bp1) = (held (pool_view disk_pages 1 demo_table))(1 := Suc (held (pool_view disk_pages 1 demo_table) 1))"
    "unsaved (pool_view disk_pages 1 bp1) = unsaved (pool_view disk_pages 1 demo_table)" using f1 by simp_all
  have o1: "owns disk_pages disk_inv 1 ((\<lambda>_. 0)(1 := 1)) bp1" using conjunct1[OF f1] fun_cong[OF v(1)] fun_cong[OF v(2)] t(4) by (auto simp: owns_def)
  have "others_step disk_manager disk_pages disk_inv 0 (\<lambda>_. 0) demo_table bp1"
    by (rule others_fetch[of 1 _ _ 1 r]) (use t(2) f in \<open>simp_all add: pool_ok_def FileHandle_def\<close>)
  from disk.others_step_keeps[OF this disk.owns_none[OF t(1,3)]]
  have o0: "pool_ok disk_pages disk_inv 0 bp1" "\<And>pid. \<not> unsaved (pool_view disk_pages 0 bp1) pid" "heap_ok (fpages (pool_view disk_pages 0 bp1))"
    using demo_table(4) t(3) by (auto simp: owns_def undisturbed_def heap_ok_def)
  obtain r2 bp' where h: "heap_Insert (FileHandle disk_manager 0) bp1 [1, 2] = Some (r2, bp')"
    using disk.handle.heap_Insert_spec[OF o0(1,3,2)] by blast
  have "undisturbed disk_pages 1 ((\<lambda>_. 0)(1 := 1)) bp1 bp'"
    using other_file_operations_polite[OF o1 _ o0(1,2), of 0 Map.empty 0 "TID 0 0" "Inr ()" bp' "[1, 2]" r2] o0(3) h by simp
  then show ?thesis using f r h f1 by (auto simp: undisturbed_def pool_ptr_def FileHandle_def)
qed

end
