(* ===== verification/BTree_Failure.thy ===== *)
theory BTree_Failure
  imports Restart Pool_Threads
begin

text \<open>
  What an insertion leaves behind when the root of the tree has split and the page for the new root cannot be allocated, and an index file in which that happens
  without any I/O failure: it has one page id left, and its root leaf is full but for one entry.
\<close>

subsection \<open>An index file with one page id left\<close>

lemma leaf_of_keys:
  assumes "n \<le> leafCap default_caps"
  shows "\<exists>p. leaf_page default_caps p (map (\<lambda>i. (int i, TID 0 0)) [0..<n]) 0"
  using assms
proof (induction n)
  case 0
  show ?case using production.initLeaf_page[OF length_NewPage_frame] by auto
next
  case (Suc n)
  obtain p where p: "leaf_page default_caps p (map (\<lambda>i. (int i, TID 0 0)) [0..<n]) 0" using Suc by auto
  have "sint (word_of_int (int n) :: int64) = int n"
    unfolding sint_sbintrunc' by (rule signed_take_bit_int_eq_self) (use Suc.prems in \<open>simp_all add: default_caps_def\<close>)
  then have n: "sint (of_nat n :: int64) = int n" by simp
  show ?case using production.insertLeafAt_spec[OF p, of n "of_nat n" "TID 0 0"] Suc.prems n by auto
qed

lemma index_leaf:
  assumes "length m = 8192" "leaf_page default_caps p es 0" "length es < leafCap default_caps" "sorted_wrt (<) (map fst es)"
    "\<forall>k \<in> fst ` set es. - (2 ^ 63) \<le> k \<and> k < 2 ^ 63"
  shows "index_tree default_caps (meta_setRoot (meta_setMagic m metaMagic) 1 # p # ps) 0 (Leaf 1 es invalidPID)"
proof -
  have "linked 1 [(1, es, invalidPID)] invalidPID" by simp
  then show ?thesis using meta_fields[of m] meta_fields[of "meta_setMagic m metaMagic"] assms by (auto simp: index_tree_def invalidPID_def)
qed

interpretation quiet: file_history disk_manager "\<lambda>d d'. disk_quiet d \<longrightarrow> disk_quiet d'"
  by unfold_locales (auto simp: disk_call_defs disk_quiet_def Let_def split: if_splits list.splits io_outcome.splits sum.splits prod.splits)

lemma newPage_quiet:
  assumes "pool_ok disk_pages disk_inv fid bp" "all_quiet disk_quiet bp" "NewPage (FileHandle disk_manager fid) bp = Some (r, bp')"
  shows "all_quiet disk_quiet bp'"
proof -
  have n: "newPage disk_manager bp fid = Some (r, bp')" using assms(3) by (simp add: FileHandle_def)
  have inv: "pool_inv disk_pages disk_inv bp" "unat fid < length (files bp)" using assms(1) by (auto simp: pool_ok_def)
  have "length (files bp') = length (files bp)"
    by (rule disk.newPage_cases[OF inv]) (use n in \<open>auto simp: moves_def same_view_def\<close>)
  then show ?thesis using quiet.newPage_files[OF n] assms(2) by (simp add: evolves_def all_quiet_def all_set_conv_all_nth)
qed

text \<open>In a tree of one leaf that has room for one entry less than a leaf may be left with, an insertion splits the root; one page id is used, and the
  separator is at most the largest key.\<close>

lemma leaf_splits:
  assumes o: "insert_outcome default_caps ps ps2 0 (- (2 ^ 63)) (2 ^ 63) (Leaf p es nx) key tid (Inr sp)"
    and n: "Suc (length es) = leafCap default_caps" and s: "sorted_wrt (<) (map fst es)" and l: "sint key < fst (last es)"
  obtains x where "sp = Some x" "length ps2 = Suc (length ps)" "sint (sepKey x) \<le> fst (last es)"
proof -
  have new: "sint key \<notin> fst ` set es" and len: "length ps2 \<le> Suc (length ps)" using o by (simp_all add: insert_outcome_def)
  obtain ts us where r: "regrown default_caps ps ps2 0 (- (2 ^ 63)) (2 ^ 63) [p] [(p, es, nx)] (ins_entry (sint key) tid es) ts us"
    "grown (Leaf p es nx) sp ts us (2 ^ 63)" using o by (auto simp: insert_outcome_def)
  have cnt: "length (ins_entry (sint key) tid es) = leafCap default_caps" using ins_entry_props(2)[OF s new, of tid] n by simp
  have short: "length (entries t) < leafCap default_caps" if "aligned default_caps 0 lo t hi" for t lo hi using that by (cases t) auto
  have ne: "es \<noteq> []" using n by (auto simp: default_caps_def)
  have lst: "last (ins_entry (sint key) tid es) = last es"
    using ne l by (cases es rule: rev_cases) (auto simp: ins_entry_def)
  show thesis
  proof (cases sp)
    case None
    then obtain a where a: "ts = [a]" "us = [2 ^ 63]" using r(2) by (auto simp: grown_def)
    then have "aligned default_caps 0 (- (2 ^ 63)) a (2 ^ 63)" "entries a = ins_entry (sint key) tid es" using r(1) by (simp_all add: regrown_def del: aligned.simps)
    then show thesis using short cnt by (metis less_irrefl)
  next
    case (Some x)
    obtain a b where ab: "ts = [a, b]" "us = [sint (sepKey x), 2 ^ 63]" "pid_of a = p" using r(2) Some by (auto simp: grown_def)
    have al: "aligned default_caps 0 (- (2 ^ 63)) a (sint (sepKey x))" "aligned default_caps 0 (sint (sepKey x)) b (2 ^ 63)" "stored default_caps ps2 b"
      "entries a @ entries b = ins_entry (sint key) tid es" "distinct (pids a @ pids b)" "\<forall>q \<in> set (pids b). q = p \<or> length ps \<le> unat q"
      using r(1) ab by (auto simp: regrown_def)
    have "entries b \<noteq> []" using short[OF al(1)] al(4) cnt by auto
    then have "last es \<in> set (entries b)" using lst al(4) by (metis last_appendR last_in_set)
    then have sep: "sint (sepKey x) \<le> fst (last es)" using al(2) by (cases b) auto
    have "length ps < length ps2" using al(1-3,5,6) ab(3) by (cases a; cases b) auto
    then show thesis using that[OF Some _ sep] len by simp
  qed
qed

definition last_entries :: "(int \<times> TID) list" where
  "last_entries = map (\<lambda>i. (int i, TID 0 0)) [0..<583]"

lemma last_entries:
  "Suc (length last_entries) = leafCap default_caps" "sorted_wrt (<) (map fst last_entries)" "last last_entries = (582, TID 0 0)"
  "fst ` set last_entries = {0..<583}" "map_of last_entries 582 = Some (TID 0 0)"
proof -
  show s: "sorted_wrt (<) (map fst last_entries)" by (simp add: last_entries_def comp_def sorted_wrt_map del: upt_rec_numeral)
  show l: "last last_entries = (582, TID 0 0)" by (simp add: last_entries_def last_map del: upt_rec_numeral)
  show "Suc (length last_entries) = leafCap default_caps" by (simp add: last_entries_def default_caps_def)
  have "fst ` set last_entries = int ` {0..<583}" by (simp add: last_entries_def image_image)
  then show "fst ` set last_entries = {0..<583}" by (simp add: image_int_atLeastLessThan)
  have "last_entries \<noteq> []" by (simp add: last_entries_def)
  then have "(582, TID 0 0) \<in> set last_entries" using last_in_set l by metis
  moreover have "distinct (map fst last_entries)" using s strict_sorted_iff by blast
  ultimately show "map_of last_entries 582 = Some (TID 0 0)" by (rule map_of_is_SomeI[rotated])
qed

lemma last_page:
  obtains bp m rt bp1 sp bp2 e bp3 where "pool_ok disk_pages disk_inv 0 bp" "\<And>pid. \<not> unsaved (pool_view disk_pages 0 bp) pid"
    "index_map default_caps (fpages (pool_view disk_pages 0 bp)) 0 m" "all_quiet disk_quiet bp" "room bp = 3"
    "root (FileHandle disk_manager 0) bp = Some (Inr rt, bp1)"
    "insertInto (FileHandle disk_manager 0) default_caps (- 1) (TID 1 2) rt bp1 = Some (Inr (Some sp), bp2)"
    "NewPage (FileHandle disk_manager 0) bp2 = Some (Inl e, bp3)" "all_quiet disk_quiet bp3" "room bp3 = 3"
    "m 582 = Some (TID 0 0)" "sint (sepKey sp) \<le> 582"
proof -
  let ?H = "FileHandle disk_manager 0" and ?v = "pool_view disk_pages 0" and ?t = "Leaf 1 last_entries invalidPID"
  obtain N :: nat where N: "N + 4 = 2 ^ 32" by (rule that[of "2 ^ 32 - 4"]) simp
  obtain p where p: "leaf_page default_caps p last_entries 0" unfolding last_entries_def using leaf_of_keys[of 583] by (auto simp: default_caps_def)
  define ps where "ps = meta_setRoot (meta_setMagic NewPage_frame metaMagic) 1 # p # replicate N NewPage_frame"
  define bp where "bp = pool_over 3 (file_of ps)"
  have i: "index_tree default_caps ps 0 ?t"
    unfolding ps_def by (rule index_leaf[OF length_NewPage_frame p]) (use last_entries(1,2,4) in \<open>auto simp: default_caps_def\<close>)
  have t: "aligned default_caps 0 (- (2 ^ 63)) ?t (2 ^ 63)" "stored default_caps ps ?t" "distinct (pids ?t)" "meta_root (ps ! 0) = 1" "ps \<noteq> []"
    using i by (auto simp: index_tree_def)
  have len: "\<And>q. q \<in> set ps \<Longrightarrow> length q = 8192" "length ps + 2 = 2 ^ 32" using i production.leaf_pageD(1)[OF p] N
    by (auto simp: ps_def index_tree_def)
  have "length ps < 2 ^ 32" using len(2) by simp
  note f = file_of[OF len(1) this, of 3]
  have b: "pool_ok disk_pages disk_inv 0 bp" "fpages (?v bp) = ps" "\<And>k. \<not> at_risk disk_pages bp k" "all_quiet disk_quiet bp" "room bp = 3"
    using f by (simp_all add: bp_def)
  have u: "\<not> unsaved (?v bp) pid" for pid using b(3) by (simp add: pool_view_def mk_view_def)
  have m: "index_map default_caps (fpages (?v bp)) 0 (\<lambda>k. map_of last_entries (sint k))"
    using i b(2) by (auto simp: index_map_def intro!: exI[of _ ?t])
  have "fpages (?v bp) \<noteq> []" using b(2) t(5) by simp
  with b(1) obtain bp1 where 1: "root ?H bp = Some (Inr 1, bp1)" "pool_ok disk_pages disk_inv 0 bp1" "?v bp1 = ?v bp" "room bp1 = 3" "all_quiet disk_quiet bp1"
    by (cases rule: disk.handle.root_cases) (use b t(4) in auto)
  have s1: "stored default_caps (fpages (?v bp1)) ?t" "\<And>pid. \<not> unsaved (?v bp1) pid" using 1(3) b(2) t(2) u by simp_all
  obtain r bp2 ps2 where 2: "insertInto ?H default_caps (- 1) (TID 1 2) 1 bp1 = Some (r, bp2)" "pool_ok disk_pages disk_inv 0 bp2" "?v bp2 = ?v bp\<lparr>fpages := ps2\<rparr>"
    "insert_outcome default_caps ps ps2 0 (- (2 ^ 63)) (2 ^ 63) ?t (- 1) (TID 1 2) r" "all_quiet disk_quiet bp2" "\<And>x. r = Inl x \<Longrightarrow> x = ErrDuplicateKey"
    using index.insertInto_spec[OF 1(2) s1(2) t(1) s1(1) t(3) int64_band(1)[of "- 1"] int64_band(2)[of "- 1"], of "TID 1 2"] 1 b(2) len(2)
    by (auto simp: index.inserts_def)
  have key: "sint (- 1 :: int64) = - 1" by simp
  obtain sp where r: "r = Inr sp" using 2(4,6) last_entries(4) key by (cases r) (auto simp: insert_outcome_def)
  obtain x where x: "sp = Some x" "length ps2 = Suc (length ps)" "sint (sepKey x) \<le> 582"
    using leaf_splits[OF 2(4)[unfolded r] last_entries(1,2)] last_entries(3) key by auto
  obtain r3 bp3 where 3: "NewPage ?H bp2 = Some (r3, bp3)" using disk.handle.new_total[OF 2(2)] by blast
  have "\<exists>e. r3 = Inl e"
  proof (rule ccontr)
    assume "\<not> (\<exists>e. r3 = Inl e)"
    then obtain q pid where "r3 = Inr (q, pid)" by (cases r3) auto
    with disk.handle.new_ok[OF 2(2)] 3 have "pool_ok disk_pages disk_inv 0 bp3" "length (fpages (?v bp3)) = 2 ^ 32" using 2(3) x(2) len(2) by simp_all
    then show False using disk.handle.pages_bound[of 0 bp3] by simp
  qed
  then obtain e where e: "r3 = Inl e" by blast
  have 4: "pool_ok disk_pages disk_inv 0 bp3" "?v bp3 = ?v bp2" using disk.handle.new_err[OF 2(2) 3[unfolded e]] by simp_all
  have "room bp3 = 3" using disk.handle.room_eq[OF b(1) 4(1)] 4(2) 2(3) b(5) by simp
  then show thesis using that[OF b(1) u m b(4,5) 1(1) _ _ newPage_quiet[OF 2(2,5) 3] _ _ x(3)] 2(1) r x(1) 3 e last_entries(5) by simp
qed

subsection \<open>Properties\<close>

text \<open>C11. A failure while the tree grows loses keys: when the root has split and \<^verbatim>\<open>NewPage\<close> for the new root fails, the insertion reports the error, and
  from then on every search of a key at or above the separator answers that there is none, although the key is bound; keys below it,
  the new one included, are found. It takes no I/O failure: an index file with one page id left is enough.\<close>

theorem failed_growth_hides_keys:
  assumes "pool_ok disk_pages disk_inv fid bp" "\<And>pid. \<not> unsaved (pool_view disk_pages fid bp) pid"
    and "index_map default_caps (fpages (pool_view disk_pages fid bp)) h m"
    and "root (FileHandle disk_manager fid) bp = Some (Inr rt, bp1)"
    and "insertInto (FileHandle disk_manager fid) default_caps key tid rt bp1 = Some (Inr (Some sp), bp2)"
    and "NewPage (FileHandle disk_manager fid) bp2 = Some (Inl e, bp3)" "all_quiet disk_quiet bp3" "0 < room bp3"
  shows "Insert (FileHandle disk_manager fid) default_caps bp key tid = Some (Inl (Wrap ''nbtree: new root'' e), bp3) \<and>
    (\<exists>bp4. Search (FileHandle disk_manager fid) default_caps bp3 k = Some (Inr (
       case if sint k < sint (sepKey sp) then (m(key \<mapsto> tid)) k else None of None \<Rightarrow> (TID 0 0, False) | Some t \<Rightarrow> (t, True)), bp4))"
  using index.failed_growth[OF assms(1-6)] assms(7,8) by blast

theorem failed_growth_hides_keys_witness:
  "\<exists>bp bp3 bp4 m e. index_map default_caps (fpages (pool_view disk_pages 0 bp)) 0 m \<and> all_quiet disk_quiet bp \<and> room bp = 3 \<and>
    Insert (FileHandle disk_manager 0) default_caps bp (- 1) (TID 1 2) = Some (Inl e, bp3) \<and>
    m 582 = Some (TID 0 0) \<and> Search (FileHandle disk_manager 0) default_caps bp3 582 = Some (Inr (TID 0 0, False), bp4)"
proof -
  obtain bp m rt bp1 sp bp2 e bp3 where l: "pool_ok disk_pages disk_inv 0 bp" "\<And>pid. \<not> unsaved (pool_view disk_pages 0 bp) pid"
    "index_map default_caps (fpages (pool_view disk_pages 0 bp)) 0 m" "all_quiet disk_quiet bp" "room bp = 3"
    "root (FileHandle disk_manager 0) bp = Some (Inr rt, bp1)"
    "insertInto (FileHandle disk_manager 0) default_caps (- 1) (TID 1 2) rt bp1 = Some (Inr (Some sp), bp2)"
    "NewPage (FileHandle disk_manager 0) bp2 = Some (Inl e, bp3)" "all_quiet disk_quiet bp3" "room bp3 = 3"
    "m 582 = Some (TID 0 0)" "sint (sepKey sp) \<le> 582" by (rule last_page) blast
  obtain bp4 where "Insert (FileHandle disk_manager 0) default_caps bp (- 1) (TID 1 2) = Some (Inl (Wrap ''nbtree: new root'' e), bp3)"
    "Search (FileHandle disk_manager 0) default_caps bp3 582 = Some (Inr (TID 0 0, False), bp4)"
    using failed_growth_hides_keys[OF l(1-3,6-9), of 582] l(10,12) by auto
  then show ?thesis using l(3-5,11) by blast
qed

end
