(* ===== verification/Disk_Threads.thy ===== *)
theory Disk_Threads
  imports Disk_Manager
begin

text \<open>
  The disk manager shared by goroutines. \<^verbatim>\<open>disk.go\<close> holds its mutex only around the page count, and over the whole of
  \<^verbatim>\<open>AllocatePage\<close>; the positioned reads and writes of \<^verbatim>\<open>ReadPage\<close> and \<^verbatim>\<open>WritePage\<close> run without it. Here every goroutine is
  somewhere inside one call, and a step moves one of them: taking or releasing the mutex, reading the count,
  or one \<^verbatim>\<open>pread\<close> or \<^verbatim>\<open>pwrite\<close> of the loops in \<^verbatim>\<open>File.ReadAt\<close> and \<^verbatim>\<open>File.WriteAt\<close>, which may transfer any part of what is
  left or fail. So a page can change under a read that is on its way, and the theorems say what the mutex is enough for.
\<close>

subsection \<open>Goroutines and their calls\<close>

datatype disk_result =
    ReadPage_ret "err + unit" "byte list"
  | WritePage_ret "err + unit"
  | AllocatePage_ret "err + PageID"
  | NumPages_ret PageID
  | Sync_ret "err + unit"

text \<open>Where a goroutine is in its call, with the arguments and the local variables that are live there. For the two I/O loops the number is
  that of the bytes transferred so far.\<close>

datatype disk_call =
    Idle
  | ReadPage_Lock PageID "byte list"
  | ReadPage_Count PageID "byte list"
  | ReadPage_Unlock PageID "byte list" PageID
  | ReadPage_IO PageID "byte list" nat
  | WritePage_Lock PageID "byte list"
  | WritePage_Count PageID "byte list"
  | WritePage_Unlock PageID "byte list" PageID
  | WritePage_IO PageID "byte list" nat
  | AllocatePage_Lock
  | AllocatePage_Check
  | AllocatePage_IO PageID nat
  | AllocatePage_Unlock "err + PageID"
  | NumPages_Lock
  | NumPages_Read
  | NumPages_Unlock PageID
  | Sync_Call
  | Returned disk_result

record threads =
  mgr :: DiskManager
  mu :: "nat option"
  calls :: "nat \<Rightarrow> disk_call"
  handed :: "PageID list"
  \<comment> \<open>a history variable: the ids \<^verbatim>\<open>AllocatePage\<close> has returned, in order\<close>

definition goto :: "nat \<Rightarrow> disk_call \<Rightarrow> threads \<Rightarrow> threads" where
  "goto t c s = s\<lparr>calls := (calls s)(t := c)\<rparr>"

definition at_rest :: "disk_call \<Rightarrow> bool" where
  "at_rest c \<longleftrightarrow> c = Idle \<or> (\<exists>r. c = Returned r)"

definition bytes_of :: "threads \<Rightarrow> byte list" where
  "bytes_of s = content (dm_file (mgr s))"

definition pwrite :: "threads \<Rightarrow> nat \<Rightarrow> byte list \<Rightarrow> threads" where
  "pwrite s off bs = s\<lparr>mgr := (mgr s)\<lparr>dm_file := (dm_file (mgr s))\<lparr>content := write_at off bs (bytes_of s)\<rparr>\<rparr>\<rparr>"

subsection \<open>The steps of each method\<close>

inductive ReadPage_step :: "nat \<Rightarrow> threads \<Rightarrow> threads \<Rightarrow> bool" for t s where
  r_call: "at_rest (calls s t) \<Longrightarrow> ReadPage_step t s (goto t
     (if length dst \<noteq> unat PageSize then Returned (ReadPage_ret (Inl (Errorf ''disk: read buffer size'')) dst)
      else ReadPage_Lock pid dst) s)"
| r_lock: "\<lbrakk>calls s t = ReadPage_Lock pid dst; mu s = None\<rbrakk> \<Longrightarrow>
     ReadPage_step t s (goto t (ReadPage_Count pid dst) (s\<lparr>mu := Some t\<rparr>))"
| r_count: "calls s t = ReadPage_Count pid dst \<Longrightarrow>
     ReadPage_step t s (goto t (ReadPage_Unlock pid dst (numPages (mgr s))) s)"
| r_unlock: "calls s t = ReadPage_Unlock pid dst n \<Longrightarrow> ReadPage_step t s (goto t
     (if pid \<ge> n then Returned (ReadPage_ret (Inl (Errorf ''disk: read page out of range'')) dst)
      else ReadPage_IO pid dst 0) (s\<lparr>mu := None\<rparr>))"
| r_pread: "\<lbrakk>calls s t = ReadPage_IO pid dst i; 0 < k; i + k \<le> length dst;
     bs = subslice (unat pid * unat PageSize + i) (unat pid * unat PageSize + i + k) (bytes_of s); length bs = k\<rbrakk> \<Longrightarrow>
     ReadPage_step t s (goto t (ReadPage_IO pid (overwrite i bs dst) (i + k)) s)"
| r_eof: "\<lbrakk>calls s t = ReadPage_IO pid dst i; i < length dst; length (bytes_of s) \<le> unat pid * unat PageSize + i\<rbrakk> \<Longrightarrow>
     ReadPage_step t s (goto t (Returned (ReadPage_ret (Inl (Wrap ''disk: read page'' EOF)) dst)) s)"
| r_fail: "\<lbrakk>calls s t = ReadPage_IO pid dst i; i < length dst\<rbrakk> \<Longrightarrow>
     ReadPage_step t s (goto t (Returned (ReadPage_ret (Inl (Wrap ''disk: read page'' EIO)) dst)) s)"
| r_done: "\<lbrakk>calls s t = ReadPage_IO pid dst i; i = length dst\<rbrakk> \<Longrightarrow>
     ReadPage_step t s (goto t (Returned (ReadPage_ret (Inr ()) dst)) s)"

inductive WritePage_step :: "nat \<Rightarrow> threads \<Rightarrow> threads \<Rightarrow> bool" for t s where
  w_call: "at_rest (calls s t) \<Longrightarrow> WritePage_step t s (goto t
     (if length src \<noteq> unat PageSize then Returned (WritePage_ret (Inl (Errorf ''disk: write buffer size'')))
      else WritePage_Lock pid src) s)"
| w_lock: "\<lbrakk>calls s t = WritePage_Lock pid src; mu s = None\<rbrakk> \<Longrightarrow>
     WritePage_step t s (goto t (WritePage_Count pid src) (s\<lparr>mu := Some t\<rparr>))"
| w_count: "calls s t = WritePage_Count pid src \<Longrightarrow>
     WritePage_step t s (goto t (WritePage_Unlock pid src (numPages (mgr s))) s)"
| w_unlock: "calls s t = WritePage_Unlock pid src n \<Longrightarrow> WritePage_step t s (goto t
     (if pid \<ge> n then Returned (WritePage_ret (Inl (Errorf ''disk: write page out of range'')))
      else WritePage_IO pid src 0) (s\<lparr>mu := None\<rparr>))"
| w_pwrite: "\<lbrakk>calls s t = WritePage_IO pid src i; 0 < k; i + k \<le> length src\<rbrakk> \<Longrightarrow>
     WritePage_step t s (goto t (WritePage_IO pid src (i + k)) (pwrite s (unat pid * unat PageSize + i) (subslice i (i + k) src)))"
| w_fail: "\<lbrakk>calls s t = WritePage_IO pid src i; i < length src\<rbrakk> \<Longrightarrow>
     WritePage_step t s (goto t (Returned (WritePage_ret (Inl (Wrap ''disk: write page'' EIO)))) s)"
| w_done: "\<lbrakk>calls s t = WritePage_IO pid src i; i = length src\<rbrakk> \<Longrightarrow>
     WritePage_step t s (goto t (Returned (WritePage_ret (Inr ()))) s)"

inductive AllocatePage_step :: "nat \<Rightarrow> threads \<Rightarrow> threads \<Rightarrow> bool" for t s where
  a_call: "at_rest (calls s t) \<Longrightarrow> AllocatePage_step t s (goto t AllocatePage_Lock s)"
| a_lock: "\<lbrakk>calls s t = AllocatePage_Lock; mu s = None\<rbrakk> \<Longrightarrow>
     AllocatePage_step t s (goto t AllocatePage_Check (s\<lparr>mu := Some t\<rparr>))"
| a_check: "calls s t = AllocatePage_Check \<Longrightarrow> AllocatePage_step t s (goto t
     (if numPages (mgr s) = MaxUint32 then AllocatePage_Unlock (Inl (Errorf ''disk: page limit reached''))
      else AllocatePage_IO (numPages (mgr s)) 0) s)"
| a_pwrite: "\<lbrakk>calls s t = AllocatePage_IO pid i; 0 < k; i + k \<le> unat PageSize\<rbrakk> \<Longrightarrow>
     AllocatePage_step t s (goto t (AllocatePage_IO pid (i + k)) (pwrite s (unat pid * unat PageSize + i) (replicate k 0)))"
| a_fail: "\<lbrakk>calls s t = AllocatePage_IO pid i; i < unat PageSize\<rbrakk> \<Longrightarrow>
     AllocatePage_step t s (goto t (AllocatePage_Unlock (Inl (Wrap ''disk: extend to page'' EIO))) s)"
| a_bump: "\<lbrakk>calls s t = AllocatePage_IO pid i; i = unat PageSize\<rbrakk> \<Longrightarrow>
     AllocatePage_step t s (goto t (AllocatePage_Unlock (Inr pid)) (s\<lparr>mgr := (mgr s)\<lparr>numPages := numPages (mgr s) + 1\<rparr>\<rparr>))"
| a_unlock: "calls s t = AllocatePage_Unlock r \<Longrightarrow> AllocatePage_step t s (goto t (Returned (AllocatePage_ret r))
     (s\<lparr>mu := None, handed := handed s @ (case r of Inl _ \<Rightarrow> [] | Inr pid \<Rightarrow> [pid])\<rparr>))"

inductive NumPages_step :: "nat \<Rightarrow> threads \<Rightarrow> threads \<Rightarrow> bool" for t s where
  n_call: "at_rest (calls s t) \<Longrightarrow> NumPages_step t s (goto t NumPages_Lock s)"
| n_lock: "\<lbrakk>calls s t = NumPages_Lock; mu s = None\<rbrakk> \<Longrightarrow> NumPages_step t s (goto t NumPages_Read (s\<lparr>mu := Some t\<rparr>))"
| n_read: "calls s t = NumPages_Read \<Longrightarrow> NumPages_step t s (goto t (NumPages_Unlock (numPages (mgr s))) s)"
| n_unlock: "calls s t = NumPages_Unlock n \<Longrightarrow> NumPages_step t s (goto t (Returned (NumPages_ret n)) (s\<lparr>mu := None\<rparr>))"

text \<open>An \<^verbatim>\<open>fsync\<close> takes effect at one moment here; it touches no page and no lock, and nothing below speaks of what is on the device. \<open>Pool_Threads\<close>
  has the bytes reach the device one by one while others write.\<close>

inductive Sync_step :: "nat \<Rightarrow> threads \<Rightarrow> threads \<Rightarrow> bool" for t s where
  s_call: "at_rest (calls s t) \<Longrightarrow> Sync_step t s (goto t Sync_Call s)"
| s_ok: "calls s t = Sync_Call \<Longrightarrow> Sync_step t s (goto t (Returned (Sync_ret (Inr ())))
     (s\<lparr>mgr := (mgr s)\<lparr>dm_file := (dm_file (mgr s))\<lparr>durable := bytes_of s\<rparr>\<rparr>\<rparr>))"
| s_fail: "calls s t = Sync_Call \<Longrightarrow> Sync_step t s (goto t (Returned (Sync_ret (Inl EIO))) s)"

inductive thread_step :: "nat \<Rightarrow> threads \<Rightarrow> threads \<Rightarrow> bool" for t s s' where
  t_read: "ReadPage_step t s s' \<Longrightarrow> thread_step t s s'"
| t_write: "WritePage_step t s s' \<Longrightarrow> thread_step t s s'"
| t_alloc: "AllocatePage_step t s s' \<Longrightarrow> thread_step t s s'"
| t_count: "NumPages_step t s s' \<Longrightarrow> thread_step t s s'"
| t_sync: "Sync_step t s s' \<Longrightarrow> thread_step t s s'"

definition disk_step :: "threads \<Rightarrow> threads \<Rightarrow> bool" where
  "disk_step s s' \<longleftrightarrow> (\<exists>t. thread_step t s s')"

inductive_cases thread_stepE: "thread_step t s s'"

definition start_threads :: "DiskManager \<Rightarrow> threads" where
  "start_threads d = \<lparr>mgr = d, mu = None, calls = (\<lambda>_. Idle), handed = []\<rparr>"

lemma goto_simps [simp]:
  "mgr (goto t c s) = mgr s" "mu (goto t c s) = mu s" "handed (goto t c s) = handed s" "calls (goto t c s) = (calls s)(t := c)"
  "bytes_of (goto t c s) = bytes_of s"
  by (simp_all add: goto_def bytes_of_def)

lemma pwrite_simps [simp]:
  "mu (pwrite s off bs) = mu s" "handed (pwrite s off bs) = handed s" "calls (pwrite s off bs) = calls s"
  "numPages (mgr (pwrite s off bs)) = numPages (mgr s)" "content (dm_file (mgr (pwrite s off bs))) = write_at off bs (bytes_of s)"
  by (simp_all add: pwrite_def)

subsection \<open>What holds in every state\<close>

fun holds_lock :: "disk_call \<Rightarrow> bool" where
  "holds_lock (ReadPage_Count _ _) = True"
| "holds_lock (ReadPage_Unlock _ _ _) = True"
| "holds_lock (WritePage_Count _ _) = True"
| "holds_lock (WritePage_Unlock _ _ _) = True"
| "holds_lock AllocatePage_Check = True"
| "holds_lock (AllocatePage_IO _ _) = True"
| "holds_lock (AllocatePage_Unlock _) = True"
| "holds_lock NumPages_Read = True"
| "holds_lock (NumPages_Unlock _) = True"
| "holds_lock _ = False"

text \<open>What a goroutine may rely on at each point: past the check its page lies inside the file, and an allocation has written
  zeros behind the last page.\<close>

fun call_ok :: "DiskManager \<Rightarrow> disk_call \<Rightarrow> bool" where
  "call_ok d (ReadPage_Lock pid dst) \<longleftrightarrow> length dst = 8192"
| "call_ok d (ReadPage_Count pid dst) \<longleftrightarrow> length dst = 8192"
| "call_ok d (ReadPage_Unlock pid dst n) \<longleftrightarrow> length dst = 8192 \<and> n \<le> numPages d"
| "call_ok d (ReadPage_IO pid dst i) \<longleftrightarrow> length dst = 8192 \<and> i \<le> 8192 \<and> pid < numPages d"
| "call_ok d (WritePage_Lock pid src) \<longleftrightarrow> length src = 8192"
| "call_ok d (WritePage_Count pid src) \<longleftrightarrow> length src = 8192"
| "call_ok d (WritePage_Unlock pid src n) \<longleftrightarrow> length src = 8192 \<and> n \<le> numPages d"
| "call_ok d (WritePage_IO pid src i) \<longleftrightarrow> length src = 8192 \<and> i \<le> 8192 \<and> pid < numPages d"
| "call_ok d (AllocatePage_IO pid i) \<longleftrightarrow> pid = numPages d \<and> pid \<noteq> MaxUint32 \<and> i \<le> 8192 \<and>
     subslice (unat pid * 8192) (unat pid * 8192 + i) (content (dm_file d)) = replicate i 0"
| "call_ok d (Returned (ReadPage_ret (Inl e) dst)) \<longleftrightarrow> e \<noteq> Wrap ''disk: read page'' EOF"
| "call_ok d _ \<longleftrightarrow> True"

text \<open>The id an allocation has published and is about to return.\<close>

fun published :: "disk_call \<Rightarrow> PageID list" where
  "published (AllocatePage_Unlock (Inr pid)) = [pid]"
| "published _ = []"

definition pending :: "threads \<Rightarrow> PageID list" where
  "pending s = (case mu s of None \<Rightarrow> [] | Some t \<Rightarrow> published (calls s t))"

definition threads_inv :: "nat \<Rightarrow> threads \<Rightarrow> bool" where
  "threads_inv n s \<longleftrightarrow> disk_inv (mgr s) \<and> (\<forall>t. holds_lock (calls s t) \<longleftrightarrow> mu s = Some t) \<and> (\<forall>t. call_ok (mgr s) (calls s t)) \<and>
     n \<le> unat (numPages (mgr s)) \<and> map unat (handed s @ pending s) = [n..<unat (numPages (mgr s))]"

lemma threads_invD:
  assumes "threads_inv n s"
  shows "disk_inv (mgr s)" "holds_lock (calls s t) \<longleftrightarrow> mu s = Some t" "call_ok (mgr s) (calls s t)"
    "map unat (handed s @ pending s) = [n..<unat (numPages (mgr s))]" "n \<le> unat (numPages (mgr s))"
  using assms unfolding threads_inv_def by blast+

lemma start_inv: "disk_inv d \<Longrightarrow> threads_inv (unat (numPages d)) (start_threads d)"
  by (simp add: threads_inv_def start_threads_def pending_def)

text \<open>A step of goroutine \<open>t\<close> to \<open>c\<close>, with what it did to the shared state.\<close>

lemma inv_move:
  assumes s: "threads_inv n s" and s1: "calls s1 = calls s" "disk_inv (mgr s1)" "\<And>u. u \<noteq> t \<Longrightarrow> mu s1 = Some u \<longleftrightarrow> mu s = Some u"
    and others: "\<And>u. u \<noteq> t \<Longrightarrow> call_ok (mgr s1) (calls s u)"
    and c: "call_ok (mgr s1) c" "holds_lock c \<longleftrightarrow> mu s1 = Some t"
    and ids: "n \<le> unat (numPages (mgr s1))" "map unat (handed s1 @ pending (goto t c s1)) = [n..<unat (numPages (mgr s1))]"
  shows "threads_inv n (goto t c s1)"
  using s1 others c ids threads_invD(2)[OF s] by (simp add: threads_inv_def)

text \<open>A step that leaves the manager and the list of ids alone.\<close>

lemma inv_goto:
  assumes s: "threads_inv n s" and c: "call_ok (mgr s) c" "holds_lock c \<longleftrightarrow> m = Some t"
    and m: "m = mu s \<or> mu s = None \<and> m = Some t \<or> mu s = Some t \<and> m = None"
    and p: "published (calls s t) = []" "published c = []"
  shows "threads_inv n (goto t c (s\<lparr>mu := m\<rparr>))"
proof (rule inv_move[OF s])
  have "pending (goto t c (s\<lparr>mu := m\<rparr>)) = pending s" using m p by (auto simp: pending_def split: option.split)
  then   show "map unat (handed (s\<lparr>mu := m\<rparr>) @ pending (goto t c (s\<lparr>mu := m\<rparr>))) = [n..<unat (numPages (mgr (s\<lparr>mu := m\<rparr>)))]"
    using threads_invD(4)[OF s] by simp
qed (use s c m threads_invD[OF s] in auto)

lemma inv_goto_same:
  assumes "threads_inv n s" "call_ok (mgr s) c" "holds_lock c \<longleftrightarrow> mu s = Some t" "published (calls s t) = []" "published c = []"
  shows "threads_inv n (goto t c s)"
  using inv_goto[of n s c "mu s" t] assms by simp

text \<open>Writing inside an allocated page disturbs nobody.\<close>

lemma call_ok_pwrite:
  assumes ok: "call_ok (mgr s) c" and inv: "disk_inv (mgr s)" and pid: "pid < numPages (mgr s)" and i: "i + length bs \<le> 8192"
  shows "call_ok (mgr (pwrite s (unat pid * 8192 + i) bs)) c"
proof (cases "\<exists>q j. c = AllocatePage_IO q j")
  case True
  then obtain q j where c: "c = AllocatePage_IO q j" by blast
  have le: "unat (numPages (mgr s)) * 8192 \<le> length (bytes_of s)" using inv by (simp add: disk_inv_def bytes_of_def)
  have q: "q = numPages (mgr s)" "j \<le> 8192" "q \<noteq> MaxUint32" "subslice (unat q * 8192) (unat q * 8192 + j) (bytes_of s) = replicate j 0"
    using ok c by (auto simp: bytes_of_def)
  have "Suc (unat pid) * 8192 \<le> unat q * 8192" using pid q(1) by (intro mult_right_mono) (simp_all add: word_less_nat_alt)
  then have sep: "unat pid * 8192 + i + length bs \<le> unat q * 8192" using i by simp
  have "length (subslice (unat q * 8192) (unat q * 8192 + j) (bytes_of s)) = j" using q(4) by simp
  then have j: "unat q * 8192 + j \<le> length (bytes_of s)" using le q(1) by (auto simp: subslice_def)
  have "subslice (unat q * 8192) (unat q * 8192 + j) (write_at (unat pid * 8192 + i) bs (bytes_of s)) = replicate j 0"
    using subslice_write_at_other[OF j, of "unat pid * 8192 + i" bs] sep q(4) by simp
  then show ?thesis using q c by simp
next
  case False
  then show ?thesis using ok by (induction "mgr s" c rule: call_ok.induct) auto
qed

lemma pages_pwrite:
  assumes inv: "disk_inv (mgr s)" and pid: "pid < numPages (mgr s)" and i: "i + length bs \<le> 8192"
  shows "disk_pages (mgr (pwrite s (unat pid * 8192 + i) bs)) = (disk_pages (mgr s))[unat pid := overwrite i bs (disk_page (mgr s) (unat pid))]"
    "disk_inv (mgr (pwrite s (unat pid * 8192 + i) bs))"
proof -
  let ?d = "mgr s" and ?d' = "mgr (pwrite s (unat pid * 8192 + i) bs)" and ?a = "unat pid * 8192"
  have u: "unat pid < unat (numPages ?d)" using pid by (simp add: word_less_nat_alt)
  have le: "?a + 8192 \<le> length (bytes_of s)" using disk_inv_page[OF inv u] by (simp add: bytes_of_def)
  have c: "content (dm_file ?d') = overwrite (?a + i) bs (bytes_of s)" using le i by (simp add: write_at_def)
  show "disk_inv ?d'" by (rule disk_inv_write[OF inv]) (simp_all add: bytes_of_def)
  show "disk_pages ?d' = (disk_pages ?d)[unat pid := overwrite i bs (disk_page ?d (unat pid))]"
  proof (rule nth_equalityI)
    fix j assume "j < length (disk_pages ?d')"
    then have j: "j < unat (numPages ?d)" by simp
    have lej: "j * 8192 + 8192 \<le> length (bytes_of s)" using disk_inv_page[OF inv j] by (simp add: bytes_of_def)
    show "disk_pages ?d' ! j = (disk_pages ?d)[unat pid := overwrite i bs (disk_page ?d (unat pid))] ! j"
    proof (cases "j = unat pid")
      case True
      have "disk_page ?d' (unat pid) = overwrite i bs (disk_page ?d (unat pid))"
        using subslice_overwrite_within[of "?a + i" bs "bytes_of s" ?a "?a + 8192"] le i unfolding disk_page_def c
        by (simp add: bytes_of_def)
      then show ?thesis using True j by simp
    next
      case False
      then consider "Suc j \<le> unat pid" | "Suc (unat pid) \<le> j" by linarith
      then have "j * 8192 + 8192 \<le> ?a + i \<or> ?a + i + length bs \<le> j * 8192" using i by cases auto
      from subslice_write_at_other[OF lej this] show ?thesis using False j by (simp add: disk_page_def) (simp add: bytes_of_def)
    qed
  qed simp
qed

text \<open>An allocation writes behind the pages, where no other goroutine writes.\<close>

lemma pages_extend:
  assumes inv: "disk_inv (mgr s)" and ok: "call_ok (mgr s) (AllocatePage_IO pid i)" and k: "i + k \<le> 8192"
  shows "disk_pages (mgr (pwrite s (unat pid * 8192 + i) (replicate k 0))) = disk_pages (mgr s)"
    "disk_inv (mgr (pwrite s (unat pid * 8192 + i) (replicate k 0)))"
    "call_ok (mgr (pwrite s (unat pid * 8192 + i) (replicate k 0))) (AllocatePage_IO pid (i + k))"
proof -
  let ?d = "mgr s" and ?d' = "mgr (pwrite s (unat pid * 8192 + i) (replicate k 0))" and ?a = "unat pid * 8192"
  have pid: "pid = numPages ?d" "pid \<noteq> MaxUint32" and z: "subslice ?a (?a + i) (bytes_of s) = replicate i 0"
    using ok by (auto simp: bytes_of_def)
  have "?a \<le> length (bytes_of s)" using inv pid by (simp add: disk_inv_def bytes_of_def)
  moreover have "length (subslice ?a (?a + i) (bytes_of s)) = i" using z by simp
  ultimately have le: "?a + i \<le> length (bytes_of s)" by (auto simp: subslice_def)
  have c: "content (dm_file ?d') = take (?a + i) (bytes_of s) @ replicate k 0 @ drop (?a + i + k) (bytes_of s)"
    using le by (simp add: write_at_def overwrite_def)
  have "take i (drop ?a (bytes_of s)) = replicate i 0" using z by (simp add: subslice_def)
  then have "subslice ?a (?a + (i + k)) (content (dm_file ?d')) = replicate (i + k) 0"
    using le by (simp add: c subslice_def drop_take replicate_add del: pwrite_simps)
  then show "call_ok ?d' (AllocatePage_IO pid (i + k))" using pid k by simp
  show "disk_inv ?d'" by (rule disk_inv_write[OF inv]) (simp_all add: bytes_of_def)
  show "disk_pages ?d' = disk_pages ?d"
  proof (rule nth_equalityI)
    fix j assume "j < length (disk_pages ?d')"
    then have j: "j < unat (numPages ?d)" by simp
    then have "Suc j * 8192 \<le> ?a" using pid(1) by (intro mult_right_mono) auto
    then have "j * 8192 + 8192 \<le> ?a + i" by simp
    moreover have "j * 8192 + 8192 \<le> length (bytes_of s)" using disk_inv_page[OF inv j] by (simp add: bytes_of_def)
    ultimately have "subslice (j * 8192) (j * 8192 + 8192) (write_at (?a + i) (replicate k 0) (bytes_of s)) =
        subslice (j * 8192) (j * 8192 + 8192) (bytes_of s)" by (intro subslice_write_at_other) auto
    then show "disk_pages ?d' ! j = disk_pages ?d ! j" using j by (simp add: disk_page_def) (simp add: bytes_of_def)
  qed simp
qed

lemma pages_bump:
  assumes inv: "disk_inv d" and ok: "call_ok d (AllocatePage_IO pid 8192)"
  shows "unat (numPages d + 1) = Suc (unat (numPages d))" "disk_inv (d\<lparr>numPages := numPages d + 1\<rparr>)"
    "disk_pages (d\<lparr>numPages := numPages d + 1\<rparr>) = disk_pages d @ [NewPage_frame]"
proof -
  have pid: "pid = numPages d" "pid \<noteq> MaxUint32" and z: "subslice (unat pid * 8192) (unat pid * 8192 + 8192) (content (dm_file d)) = replicate 8192 0"
    using ok by auto
  show u: "unat (numPages d + 1) = Suc (unat (numPages d))"
    using pid by (simp add: count_next)
  have "length (subslice (unat pid * 8192) (unat pid * 8192 + 8192) (content (dm_file d))) = 8192" using z by simp
  then show "disk_inv (d\<lparr>numPages := numPages d + 1\<rparr>)" using inv pid(1) by (auto simp: disk_inv_def u subslice_def)
  show "disk_pages (d\<lparr>numPages := numPages d + 1\<rparr>) = disk_pages d @ [NewPage_frame]"
    using z pid(1) by (simp add: disk_pages_def u disk_page_def NewPage_frame_def layout_simps)
qed

subsection \<open>Every step keeps it\<close>

lemma call_page_in_file:
  assumes "disk_inv d" "call_ok d (ReadPage_IO pid dst i) \<or> call_ok d (WritePage_IO pid dst i)"
  shows "unat pid * 8192 + 8192 \<le> length (content (dm_file d))"
  using disk_inv_page[OF assms(1), of "unat pid"] assms(2) by (auto simp: word_less_nat_alt)

lemma ReadPage_step_inv:
  assumes step: "ReadPage_step t s s'" and inv: "threads_inv n s"
  shows "threads_inv n s'" "mgr s' = mgr s"
proof -
  show "mgr s' = mgr s" using step by cases simp_all
  show "threads_inv n s'" using step
  proof cases
    case (r_eof pid dst i)
    then show ?thesis using call_page_in_file[OF threads_invD(1)[OF inv], of pid dst i] threads_invD(3)[OF inv, of t]
      by (simp add: bytes_of_def layout_simps)
  qed (use threads_invD(2,3)[OF inv, of t] in \<open>auto simp: at_rest_def layout_simps overwrite_def EIO_def EOF_def
      intro!: inv_goto[OF inv] inv_goto_same[OF inv]\<close>)
qed

text \<open>What a step may do to the pages: nothing, a part of a write in place, or one more blank page.\<close>

definition page_effect :: "threads \<Rightarrow> threads \<Rightarrow> bool" where
  "page_effect s s' \<longleftrightarrow> disk_pages (mgr s') = disk_pages (mgr s) \<or>
     (\<exists>t pid src i k. calls s t = WritePage_IO pid src i \<and> calls s' t = WritePage_IO pid src (i + k) \<and> unat pid < length (disk_pages (mgr s)) \<and>
        disk_pages (mgr s') = (disk_pages (mgr s))[unat pid := overwrite i (subslice i (i + k) src) (disk_pages (mgr s) ! unat pid)]) \<or>
     (\<exists>t. calls s' t = AllocatePage_Unlock (Inr (numPages (mgr s))) \<and> disk_pages (mgr s') = disk_pages (mgr s) @ [NewPage_frame])"

lemma page_effect_same: "mgr s' = mgr s \<Longrightarrow> page_effect s s'"
  by (simp add: page_effect_def)

lemma WritePage_step_inv:
  assumes step: "WritePage_step t s s'" and inv: "threads_inv n s"
  shows "threads_inv n s' \<and> page_effect s s'"
  using step
proof cases
  case (w_pwrite pid src i k)
  note d = threads_invD(1)[OF inv] and ok = threads_invD(3)[OF inv, of t, unfolded w_pwrite(2)]
  let ?bs = "subslice i (i + k) src"
  have free: "mu s \<noteq> Some t" using threads_invD(2)[OF inv, of t] w_pwrite(2) by simp
  have bs: "i + length ?bs \<le> 8192" "pid < numPages (mgr s)" using ok w_pwrite(4) by (auto simp: subslice_def)
  have "threads_inv n s'" unfolding w_pwrite(1) layout_simps
  proof (rule inv_move[OF inv])
    show "map unat (handed (pwrite s (unat pid * 8192 + i) ?bs) @ pending (goto t (WritePage_IO pid src (i + k)) (pwrite s (unat pid * 8192 + i) ?bs))) =
        [n..<unat (numPages (mgr (pwrite s (unat pid * 8192 + i) ?bs)))]"
      using threads_invD(4)[OF inv] free by (auto simp: pending_def split: option.splits)
  qed (use ok w_pwrite(4) free threads_invD(3,5)[OF inv] pages_pwrite(2)[OF d bs(2,1)] call_ok_pwrite[OF _ d bs(2,1)] w_pwrite(2) in auto)
  moreover have "page_effect s s'" unfolding page_effect_def
    using w_pwrite bs(2) pages_pwrite(1)[OF d bs(2,1)] by (auto simp: layout_simps word_less_nat_alt)
  ultimately show ?thesis by blast
qed (use threads_invD(2,3)[OF inv, of t] in \<open>auto simp: at_rest_def layout_simps
      intro!: inv_goto[OF inv] inv_goto_same[OF inv] page_effect_same\<close>)

text \<open>While one goroutine holds the mutex, what the others rely on is only that the count does not shrink.\<close>

lemma call_ok_grow:
  assumes "call_ok d c" "\<not> holds_lock c" "numPages d \<le> numPages d'"
  shows "call_ok d' c"
  using assms by (induction d c rule: call_ok.induct) auto

lemma AllocatePage_step_inv:
  assumes step: "AllocatePage_step t s s'" and inv: "threads_inv n s"
  shows "threads_inv n s' \<and> page_effect s s'"
  using step
proof cases
  note d = threads_invD(1)[OF inv] and ids = threads_invD(4,5)[OF inv]
  {
    case (a_pwrite pid i k)
    note ok = threads_invD(3)[OF inv, of t, unfolded a_pwrite(2)]
    have mine: "mu s = Some t" using threads_invD(2)[OF inv, of t] a_pwrite(2) by simp
    have k: "i + k \<le> 8192" using a_pwrite(4) by (simp add: layout_simps)
    note x = pages_extend[OF d ok k]
    have "threads_inv n s'" unfolding a_pwrite(1) layout_simps
    proof (rule inv_move[OF inv])
      show "call_ok (mgr (pwrite s (unat pid * 8192 + i) (replicate k 0))) (calls s u)" if "u \<noteq> t" for u
        by (rule call_ok_grow[OF threads_invD(3)[OF inv]]) (use that mine threads_invD(2)[OF inv, of u] in auto)
    qed (use x mine ids a_pwrite(2) in \<open>auto simp: pending_def\<close>)
    then show ?thesis using x(1) a_pwrite(1) by (simp add: page_effect_def layout_simps)
  next
    case (a_bump pid i)
    have ok: "call_ok (mgr s) (AllocatePage_IO pid 8192)" using threads_invD(3)[OF inv, of t] unfolding a_bump(2,3) layout_simps .
    have mine: "mu s = Some t" using threads_invD(2)[OF inv, of t] a_bump(2) by simp
    note b = pages_bump[OF d ok]
    have "threads_inv n s'" unfolding a_bump(1)
    proof (rule inv_move[OF inv])
      show "call_ok (mgr (s\<lparr>mgr := (mgr s)\<lparr>numPages := numPages (mgr s) + 1\<rparr>\<rparr>)) (calls s u)" if "u \<noteq> t" for u
        by (rule call_ok_grow[OF threads_invD(3)[OF inv]]) (use that mine threads_invD(2)[OF inv, of u] b(1) in \<open>auto simp: word_le_nat_alt\<close>)
    qed (use b(1,2) mine ids a_bump(2) ok in \<open>auto simp: pending_def\<close>)
    then show ?thesis using b(3) a_bump(1) ok by (auto simp: page_effect_def)
  next
    case (a_unlock r)
    have mine: "mu s = Some t" using threads_invD(2)[OF inv, of t] a_unlock(2) by simp
    have "threads_inv n s'" unfolding a_unlock(1)
      by (rule inv_move[OF inv]) (use d mine ids a_unlock(2) threads_invD(3)[OF inv] in \<open>auto simp: pending_def split: sum.splits\<close>)
    then show ?thesis by (simp add: a_unlock(1) page_effect_def)
  }
qed (use threads_invD(2,3)[OF inv, of t] in \<open>auto simp: at_rest_def layout_simps subslice_def
      intro!: inv_goto[OF inv] inv_goto_same[OF inv] page_effect_same\<close>)

lemma NumPages_step_inv:
  assumes step: "NumPages_step t s s'" and inv: "threads_inv n s"
  shows "threads_inv n s' \<and> page_effect s s'"
  using step
  by cases (use threads_invD(2)[OF inv, of t] in \<open>auto simp: at_rest_def intro!: inv_goto[OF inv] inv_goto_same[OF inv] page_effect_same\<close>)

lemma Sync_step_inv:
  assumes step: "Sync_step t s s'" and inv: "threads_inv n s"
  shows "threads_inv n s' \<and> page_effect s s'"
  using step
proof cases
  case s_ok
  let ?s = "s\<lparr>mgr := (mgr s)\<lparr>dm_file := (dm_file (mgr s))\<lparr>durable := bytes_of s\<rparr>\<rparr>\<rparr>"
  have same: "disk_pages (mgr ?s) = disk_pages (mgr s)" "disk_inv (mgr ?s) = disk_inv (mgr s)" by (rule disk_pages_content; simp)+
  have "call_ok (mgr ?s) c = call_ok (mgr s) c" for c by (induction "mgr s" c rule: call_ok.induct) auto
  moreover have "mu s \<noteq> Some t" using threads_invD(2)[OF inv, of t] s_ok(2) by simp
  ultimately have "threads_inv n s'" unfolding s_ok(1)
    by (intro inv_move[OF inv]) (use same threads_invD(1,3-5)[OF inv] in \<open>auto simp: pending_def split: option.splits\<close>)
  then show ?thesis using same(1) by (simp add: s_ok(1) page_effect_def)
qed (use threads_invD(2)[OF inv, of t] in \<open>auto simp: at_rest_def intro!: inv_goto_same[OF inv] page_effect_same\<close>)

lemma thread_step_inv:
  assumes "thread_step t s s'" "threads_inv n s"
  shows "threads_inv n s' \<and> page_effect s s'"
  using assms by cases (auto dest: ReadPage_step_inv WritePage_step_inv AllocatePage_step_inv NumPages_step_inv Sync_step_inv intro: page_effect_same)

lemma disk_step_inv:
  assumes "disk_step s s'" "threads_inv n s"
  shows "threads_inv n s'" "page_effect s s'"
  using assms thread_step_inv unfolding disk_step_def by blast+

lemma threads_reachable:
  assumes "disk_inv d" "disk_step\<^sup>*\<^sup>* (start_threads d) s"
  shows "threads_inv (unat (numPages d)) s"
  using assms(2)
proof (induction rule: rtranclp_induct)
  case base
  show ?case by (rule start_inv[OF assms(1)])
next
  case (step s1 s2)
  show ?case by (rule disk_step_inv(1)[OF step(2,3)])
qed

subsection \<open>A read on its way\<close>

text \<open>A step that leaves the bytes of the page alone, and in which goroutine \<open>t\<close> does not begin another call.\<close>

definition undisturbed :: "PageID \<Rightarrow> nat \<Rightarrow> threads \<Rightarrow> threads \<Rightarrow> bool" where
  "undisturbed pid t s s' \<longleftrightarrow> disk_step s s' \<and> disk_page (mgr s') (unat pid) = disk_page (mgr s) (unat pid) \<and>
     (at_rest (calls s t) \<longrightarrow> calls s' t = calls s t)"

text \<open>Goroutine \<open>t\<close> has not yet returned from a read of the page \<open>p\<close>, or it has, with all of it or with an error.\<close>

fun reading :: "PageID \<Rightarrow> page \<Rightarrow> disk_call \<Rightarrow> bool" where
  "reading pid p (ReadPage_IO q dst i) \<longleftrightarrow> q = pid \<and> length dst = 8192 \<and> i \<le> 8192 \<and> take i dst = take i p"
| "reading pid p (Returned (ReadPage_ret r dst)) \<longleftrightarrow> r = Inr () \<longrightarrow> dst = p"
| "reading pid p _ \<longleftrightarrow> False"

lemma pread_prefix:
  assumes "take i dst = take i p" "length dst = 8192" "length p = 8192" "i + k \<le> 8192"
  shows "take (i + k) (overwrite i (subslice i (i + k) p) dst) = take (i + k) p"
proof -
  have "overwrite i (subslice i (i + k) p) dst = take i p @ take k (drop i p) @ drop (i + k) dst"
    using assms by (simp add: overwrite_def subslice_def min_absorb2)
  then show ?thesis using assms by (simp add: take_add min_absorb2)
qed

lemma thread_step_others:
  assumes "thread_step t s s'" "u \<noteq> t" shows "calls s' u = calls s u"
  using assms by (auto elim!: thread_stepE ReadPage_step.cases WritePage_step.cases AllocatePage_step.cases NumPages_step.cases Sync_step.cases)

lemma reading_step:
  assumes step: "thread_step t s s'" and inv: "threads_inv n s" and r: "reading pid (disk_page (mgr s) (unat pid)) (calls s t)"
    and rest: "\<not> at_rest (calls s t)"
  shows "reading pid (disk_page (mgr s) (unat pid)) (calls s' t)"
proof -
  obtain dst i where c: "calls s t = ReadPage_IO pid dst i" "length dst = 8192" "i \<le> 8192" "take i dst = take i (disk_page (mgr s) (unat pid))"
    using r rest by (cases "(pid, disk_page (mgr s) (unat pid), calls s t)" rule: reading.cases) (auto simp: at_rest_def)
  have le: "unat pid * 8192 + 8192 \<le> length (bytes_of s)"
    using call_page_in_file[OF threads_invD(1)[OF inv], of pid dst i] threads_invD(3)[OF inv, of t] c(1) by (simp add: bytes_of_def)
  have p: "length (disk_page (mgr s) (unat pid)) = 8192" using le by (simp add: disk_page_def bytes_of_def slice_simps)
  have chunk: "subslice (unat pid * 8192 + i) (unat pid * 8192 + i + k) (bytes_of s) = subslice i (i + k) (disk_page (mgr s) (unat pid))"
    if "i + k \<le> 8192" for k
    using that by (simp add: disk_page_def bytes_of_def subslice_def drop_take min_absorb1 add.commute)
  have "ReadPage_step t s s'" using step rest c(1)
    by (auto elim!: thread_stepE WritePage_step.cases AllocatePage_step.cases NumPages_step.cases Sync_step.cases)
  then show ?thesis
  proof cases
    case (r_pread pid' dst' i' k bs)
    then have "i + k \<le> 8192" "pid' = pid" "dst' = dst" "i' = i" using c by auto
    moreover from this(1) have "take (i + k) (overwrite i (subslice i (i + k) (disk_page (mgr s) (unat pid))) dst) = take (i + k) (disk_page (mgr s) (unat pid))"
      "length (overwrite i (subslice i (i + k) (disk_page (mgr s) (unat pid))) dst) = 8192"
      using pread_prefix[OF c(4,2) p] c(2) p by (simp_all add: overwrite_def subslice_def)
    ultimately show ?thesis using r_pread(1,5) chunk[of k] by (simp add: layout_simps)
  next
    case (r_done pid' dst' i')
    then show ?thesis using c p by simp
  qed (use c rest in auto)
qed

lemma undisturbed_reading:
  assumes run: "(undisturbed pid t)\<^sup>*\<^sup>* s s'" and inv: "threads_inv n s" and r: "reading pid (disk_page (mgr s) (unat pid)) (calls s t)"
  shows "threads_inv n s' \<and> disk_page (mgr s') (unat pid) = disk_page (mgr s) (unat pid) \<and> reading pid (disk_page (mgr s) (unat pid)) (calls s' t)"
  using run
proof (induction rule: rtranclp_induct)
  case base
  show ?case using inv r by simp
next
  case (step s1 s2)
  have u: "disk_step s1 s2" "disk_page (mgr s2) (unat pid) = disk_page (mgr s1) (unat pid)" "at_rest (calls s1 t) \<longrightarrow> calls s2 t = calls s1 t"
    using step(2) by (auto simp: undisturbed_def)
  obtain t' where t': "thread_step t' s1 s2" using u(1) by (auto simp: disk_step_def)
  have "reading pid (disk_page (mgr s1) (unat pid)) (calls s2 t)"
    using step.IH thread_step_others[OF t', of t] u(3) reading_step[of t s1 s2 n pid] t' by (cases "t' = t") auto
  then show ?case using step.IH u(2) disk_step_inv(1)[OF u(1)] by auto
qed

subsection \<open>Progress\<close>

text \<open>A bound on the steps a goroutine has left in its call.\<close>

fun work :: "disk_call \<Rightarrow> nat" where
  "work (ReadPage_Lock _ _) = 8196"
| "work (ReadPage_Count _ _) = 8195"
| "work (ReadPage_Unlock _ _ _) = 8194"
| "work (ReadPage_IO _ _ i) = Suc (8192 - i)"
| "work (WritePage_Lock _ _) = 8196"
| "work (WritePage_Count _ _) = 8195"
| "work (WritePage_Unlock _ _ _) = 8194"
| "work (WritePage_IO _ _ i) = Suc (8192 - i)"
| "work AllocatePage_Lock = 8196"
| "work AllocatePage_Check = 8195"
| "work (AllocatePage_IO _ i) = 8194 - i"
| "work (AllocatePage_Unlock _) = 1"
| "work NumPages_Lock = 3"
| "work NumPages_Read = 2"
| "work (NumPages_Unlock _) = 1"
| "work Sync_Call = 1"
| "work _ = 0"

lemma work_decreases:
  assumes "thread_step t s s'" "threads_inv n s" "\<not> at_rest (calls s t)"
  shows "work (calls s' t) < work (calls s t)"
  using assms(1,3) threads_invD(3)[OF assms(2), of t]
  by (auto simp: at_rest_def layout_simps elim!: thread_stepE ReadPage_step.cases WritePage_step.cases AllocatePage_step.cases
      NumPages_step.cases Sync_step.cases)

lemma can_step:
  assumes inv: "threads_inv n s" and c: "\<not> at_rest (calls s t)" and m: "mu s = None \<or> mu s = Some t"
  shows "\<exists>s'. thread_step t s s'"
proof -
  note ok = threads_invD(3)[OF inv, of t] and lk = threads_invD(2)[OF inv, of t]
  have lock: "mu s = None" if "\<not> holds_lock (calls s t)" using that m lk by auto
  show ?thesis
  proof (cases "calls s t")
    case (ReadPage_IO pid dst i)
    then consider "i < length dst" | "i = length dst" using ok by fastforce
    then show ?thesis using ReadPage_IO by cases (blast intro: thread_step.intros ReadPage_step.intros)+
  next
    case (WritePage_IO pid src i)
    then consider "i < length src" | "i = length src" using ok by fastforce
    then show ?thesis using WritePage_IO by cases (blast intro: thread_step.intros WritePage_step.intros)+
  next
    case (AllocatePage_IO pid i)
    then consider "i < unat PageSize" | "i = unat PageSize" using ok by (fastforce simp: layout_simps)
    then show ?thesis using AllocatePage_IO by cases (blast intro: thread_step.intros AllocatePage_step.intros)+
  qed (use c lock in \<open>auto simp: at_rest_def intro: thread_step.intros ReadPage_step.intros WritePage_step.intros AllocatePage_step.intros
      NumPages_step.intros Sync_step.intros\<close>)
qed

subsection \<open>A goroutine on its own\<close>

lemma goto_goto [simp]:
  "goto t c (goto t c' s) = goto t c s" "(goto t c s)\<lparr>mu := m\<rparr> = goto t c (s\<lparr>mu := m\<rparr>)" "(goto t c s)\<lparr>mgr := d\<rparr> = goto t c (s\<lparr>mgr := d\<rparr>)"
  "pwrite (goto t c s) off bs = goto t c (pwrite s off bs)" "(s :: threads)\<lparr>mu := m, mu := m'\<rparr> = s\<lparr>mu := m'\<rparr>"
  "mu s = m \<Longrightarrow> s\<lparr>mu := m\<rparr> = s"
  by (simp_all add: goto_def pwrite_def bytes_of_def)

lemma solo_finish:
  "length src = 8192 \<Longrightarrow> thread_step t (goto t (WritePage_IO pid src 8192) s) (goto t (Returned (WritePage_ret (Inr ()))) s)"
  "thread_step t (goto t (AllocatePage_IO pid 8192) s) (goto t (AllocatePage_Unlock (Inr pid)) (s\<lparr>mgr := (mgr s)\<lparr>numPages := numPages (mgr s) + 1\<rparr>\<rparr>))"
proof -
  have w: "calls (goto t (WritePage_IO pid src 8192) s) t = WritePage_IO pid src 8192" by simp
  show "thread_step t (goto t (WritePage_IO pid src 8192) s) (goto t (Returned (WritePage_ret (Inr ()))) s)" if "length src = 8192"
    using thread_step.t_write[OF WritePage_step.w_done[OF w that[symmetric]]] unfolding goto_goto .
  have a: "calls (goto t (AllocatePage_IO pid 8192) s) t = AllocatePage_IO pid 8192" "8192 = unat PageSize" by (simp_all add: layout_simps)
  show "thread_step t (goto t (AllocatePage_IO pid 8192) s) (goto t (AllocatePage_Unlock (Inr pid)) (s\<lparr>mgr := (mgr s)\<lparr>numPages := numPages (mgr s) + 1\<rparr>\<rparr>))"
    using thread_step.t_alloc[OF AllocatePage_step.a_bump[OF a]] unfolding goto_goto goto_simps .
qed

lemma solo_read_check:
  assumes s: "at_rest (calls s t)" "mu s = None" and dst: "length dst = 8192"
  shows "(thread_step t)\<^sup>*\<^sup>* s (goto t (if pid \<ge> numPages (mgr s) then Returned (ReadPage_ret (Inl (Errorf ''disk: read page out of range'')) dst)
    else ReadPage_IO pid dst 0) s)"
proof -
  let ?s1 = "goto t (ReadPage_Lock pid dst) s" and ?s2 = "goto t (ReadPage_Count pid dst) (s\<lparr>mu := Some t\<rparr>)"
  let ?s3 = "goto t (ReadPage_Unlock pid dst (numPages (mgr s))) (s\<lparr>mu := Some t\<rparr>)"
  have "thread_step t s ?s1" using thread_step.t_read[OF ReadPage_step.r_call[OF s(1), of dst pid]] dst by (simp add: layout_simps)
  moreover have "thread_step t ?s1 ?s2" using thread_step.t_read[OF ReadPage_step.r_lock[of ?s1 t pid dst]] s(2) by simp
  moreover have "thread_step t ?s2 ?s3" using thread_step.t_read[OF ReadPage_step.r_count[of ?s2 t pid dst]] by simp
  moreover have "thread_step t ?s3 (goto t (if pid \<ge> numPages (mgr s) then Returned (ReadPage_ret (Inl (Errorf ''disk: read page out of range'')) dst)
    else ReadPage_IO pid dst 0) s)" using thread_step.t_read[OF ReadPage_step.r_unlock[of ?s3 t pid dst]] s(2) by simp
  ultimately show ?thesis by (meson converse_rtranclp_into_rtranclp rtranclp.rtrancl_refl)
qed

lemma solo_write_check:
  assumes s: "at_rest (calls s t)" "mu s = None" and src: "length src = 8192"
  shows "(thread_step t)\<^sup>*\<^sup>* s (goto t (if pid \<ge> numPages (mgr s) then Returned (WritePage_ret (Inl (Errorf ''disk: write page out of range'')))
    else WritePage_IO pid src 0) s)"
proof -
  let ?s1 = "goto t (WritePage_Lock pid src) s" and ?s2 = "goto t (WritePage_Count pid src) (s\<lparr>mu := Some t\<rparr>)"
  let ?s3 = "goto t (WritePage_Unlock pid src (numPages (mgr s))) (s\<lparr>mu := Some t\<rparr>)"
  have "thread_step t s ?s1" using thread_step.t_write[OF WritePage_step.w_call[OF s(1), of src pid]] src by (simp add: layout_simps)
  moreover have "thread_step t ?s1 ?s2" using thread_step.t_write[OF WritePage_step.w_lock[of ?s1 t pid src]] s(2) by simp
  moreover have "thread_step t ?s2 ?s3" using thread_step.t_write[OF WritePage_step.w_count[of ?s2 t pid src]] by simp
  moreover have "thread_step t ?s3 (goto t (if pid \<ge> numPages (mgr s) then Returned (WritePage_ret (Inl (Errorf ''disk: write page out of range'')))
    else WritePage_IO pid src 0) s)" using thread_step.t_write[OF WritePage_step.w_unlock[of ?s3 t pid src]] s(2) by simp
  ultimately show ?thesis by (meson converse_rtranclp_into_rtranclp rtranclp.rtrancl_refl)
qed

lemma solo_read_io:
  assumes inv: "disk_inv (mgr s)" and pid: "pid < numPages (mgr s)" and dst: "length dst = 8192"
  shows "thread_step t (goto t (ReadPage_IO pid dst 0) s) (goto t (ReadPage_IO pid (disk_page (mgr s) (unat pid)) 8192) s)"
    "thread_step t (goto t (ReadPage_IO pid (disk_page (mgr s) (unat pid)) 8192) s) (goto t (Returned (ReadPage_ret (Inr ()) (disk_page (mgr s) (unat pid)))) s)"
proof -
  let ?p = "disk_page (mgr s) (unat pid)"
  have len: "length ?p = 8192" using length_disk_page[OF inv, of "unat pid"] pid by (simp add: word_less_nat_alt)
  let ?s = "goto t (ReadPage_IO pid dst 0) s"
  have c: "calls ?s t = ReadPage_IO pid dst 0" "(0::nat) < 8192" "0 + 8192 \<le> length dst" using dst by simp_all
  have p: "?p = subslice (unat pid * unat PageSize + 0) (unat pid * unat PageSize + 0 + 8192) (bytes_of ?s)"
    by (simp add: layout_simps disk_page_def bytes_of_def)
  have q: "calls (goto t (ReadPage_IO pid ?p 8192) s) t = ReadPage_IO pid ?p 8192" by simp
  have o: "overwrite 0 ?p dst = ?p" using len dst by (simp add: overwrite_def)
  show "thread_step t (goto t (ReadPage_IO pid dst 0) s) (goto t (ReadPage_IO pid ?p 8192) s)"
    using thread_step.t_read[OF ReadPage_step.r_pread[OF c p len]] unfolding goto_goto o add_0 .
  show "thread_step t (goto t (ReadPage_IO pid ?p 8192) s) (goto t (Returned (ReadPage_ret (Inr ()) ?p)) s)"
    using thread_step.t_read[OF ReadPage_step.r_done[OF q len[symmetric]]] unfolding goto_goto .
qed

text \<open>Alone and with no I/O failure, a goroutine gets from its call what the sequential method gives.\<close>

lemma solo_ReadPage:
  assumes s: "at_rest (calls s t)" "mu s = None" "disk_inv (mgr s)" "disk_quiet (mgr s)"
    and r: "ReadPage (mgr s) pid dst = (r, dst', d')"
  shows "\<exists>s'. (thread_step t)\<^sup>*\<^sup>* s s' \<and> calls s' t = Returned (ReadPage_ret r dst') \<and> mgr s' = d'"
proof (cases "length dst = 8192")
  case False
  have "thread_step t s (goto t (Returned (ReadPage_ret (Inl (Errorf ''disk: read buffer size'')) dst)) s)"
    using thread_step.t_read[OF ReadPage_step.r_call[OF s(1), of dst pid]] False by (simp add: layout_simps)
  then show ?thesis using r False by (auto simp: ReadPage_def layout_simps)
next
  case dst: True
  note run = solo_read_check[OF s(1,2) dst, of pid]
  show ?thesis
  proof (cases "pid \<ge> numPages (mgr s)")
    case True
    then show ?thesis using run r dst by (intro exI) (auto simp: ReadPage_def layout_simps)
  next
    case False
    let ?p = "disk_page (mgr s) (unat pid)"
    have pid: "pid < numPages (mgr s)" using False by (simp add: not_le)
    note io = solo_read_io[where s = s and t = t, OF s(3) pid dst]
    have "(thread_step t)\<^sup>*\<^sup>* s (goto t (ReadPage_IO pid dst 0) s)" using run False by simp
    then have "(thread_step t)\<^sup>*\<^sup>* s (goto t (Returned (ReadPage_ret (Inr ()) ?p)) s)" using io by (meson rtranclp.rtrancl_into_rtrancl)
    moreover have "ReadPage (mgr s) pid dst = (Inr (), ?p, mgr s)"
      using False dst disk_inv_page[OF s(3), of "unat pid"] pid s(4)
      by (simp add: ReadPage_def layout_simps File_quiet disk_quiet_def disk_page_def word_less_nat_alt)
    ultimately show ?thesis using r by (intro exI[of _ "goto t (Returned (ReadPage_ret (Inr ()) ?p)) s"]) auto
  qed
qed

lemma solo_WritePage:
  assumes s: "at_rest (calls s t)" "mu s = None" "disk_quiet (mgr s)"
    and r: "WritePage (mgr s) pid src = (r, d')"
  shows "\<exists>s'. (thread_step t)\<^sup>*\<^sup>* s s' \<and> calls s' t = Returned (WritePage_ret r) \<and> mgr s' = d'"
proof (cases "length src = 8192")
  case False
  have "thread_step t s (goto t (Returned (WritePage_ret (Inl (Errorf ''disk: write buffer size'')))) s)"
    using thread_step.t_write[OF WritePage_step.w_call[OF s(1), of src pid]] False by (simp add: layout_simps)
  then show ?thesis using r False by (auto simp: WritePage_def layout_simps)
next
  case src: True
  note run = solo_write_check[OF s(1,2) src, of pid]
  show ?thesis
  proof (cases "pid \<ge> numPages (mgr s)")
    case True
    then show ?thesis using run r src by (intro exI) (auto simp: WritePage_def layout_simps)
  next
    case False
    let ?s1 = "goto t (WritePage_IO pid src 0) s" and ?s2 = "goto t (WritePage_IO pid src 8192) (pwrite s (unat pid * 8192) src)"
    let ?s3 = "goto t (Returned (WritePage_ret (Inr ()))) (pwrite s (unat pid * 8192) src)"
    have "thread_step t ?s1 ?s2"
      using thread_step.t_write[OF WritePage_step.w_pwrite[of ?s1 t pid src 0 8192]] src by (simp add: layout_simps subslice_def)
    moreover have "thread_step t ?s2 ?s3" by (rule solo_finish(1)[OF src])
    moreover have "(thread_step t)\<^sup>*\<^sup>* s ?s1" using run False by simp
    ultimately have "(thread_step t)\<^sup>*\<^sup>* s ?s3" by (meson rtranclp.rtrancl_into_rtrancl)
    moreover have "WritePage (mgr s) pid src = (Inr (), mgr ?s3)"
      using False src s(3) by (simp add: WritePage_def layout_simps File_quiet disk_quiet_def) (simp add: pwrite_def bytes_of_def)
    ultimately show ?thesis using r by (intro exI[of _ ?s3]) auto
  qed
qed

lemma solo_AllocatePage:
  assumes s: "at_rest (calls s t)" "mu s = None" "disk_quiet (mgr s)"
    and r: "AllocatePage (mgr s) = (r, d')"
  shows "\<exists>s'. (thread_step t)\<^sup>*\<^sup>* s s' \<and> calls s' t = Returned (AllocatePage_ret r) \<and> mgr s' = d'"
proof -
  let ?s1 = "goto t AllocatePage_Lock s" and ?s2 = "goto t AllocatePage_Check (s\<lparr>mu := Some t\<rparr>)"
  have "thread_step t s ?s1" by (rule thread_step.t_alloc[OF AllocatePage_step.a_call[OF s(1)]])
  moreover have "thread_step t ?s1 ?s2" using thread_step.t_alloc[OF AllocatePage_step.a_lock[of ?s1 t]] s(2) by simp
  ultimately have to2: "(thread_step t)\<^sup>*\<^sup>* s ?s2" by (meson converse_rtranclp_into_rtranclp rtranclp.rtrancl_refl)
  have check: "thread_step t ?s2 (goto t (if numPages (mgr s) = MaxUint32 then AllocatePage_Unlock (Inl (Errorf ''disk: page limit reached''))
      else AllocatePage_IO (numPages (mgr s)) 0) (s\<lparr>mu := Some t\<rparr>))"
    using thread_step.t_alloc[OF AllocatePage_step.a_check[of ?s2 t]] by (cases "numPages (mgr s) = MaxUint32") simp_all
  have unlock: "\<exists>s'. thread_step t (goto t (AllocatePage_Unlock x) w) s' \<and> calls s' t = Returned (AllocatePage_ret x) \<and> mgr s' = mgr w" for x w
    using thread_step.t_alloc[OF AllocatePage_step.a_unlock[of "goto t (AllocatePage_Unlock x) w" t x]]
    by (intro exI conjI) (assumption | simp)+
  show ?thesis
  proof (cases "numPages (mgr s) = MaxUint32")
    case True
    then show ?thesis using to2 check unlock[of "Inl (Errorf ''disk: page limit reached'')" "s\<lparr>mu := Some t\<rparr>"] r
      by (auto simp: AllocatePage_def intro: rtranclp.rtrancl_into_rtrancl)
  next
    case False
    let ?pid = "numPages (mgr s)" and ?w = "pwrite (s\<lparr>mu := Some t\<rparr>) (unat (numPages (mgr s)) * 8192) (replicate 8192 0)"
    let ?s3 = "goto t (AllocatePage_IO ?pid 0) (s\<lparr>mu := Some t\<rparr>)" and ?s4 = "goto t (AllocatePage_IO ?pid 8192) ?w"
    let ?x = "?w\<lparr>mgr := (mgr ?w)\<lparr>numPages := numPages (mgr ?w) + 1\<rparr>\<rparr>"
    have "(thread_step t)\<^sup>*\<^sup>* s ?s3" by (rule rtranclp.rtrancl_into_rtrancl[OF to2]) (use check False in simp)
    moreover have "thread_step t ?s3 ?s4" using thread_step.t_alloc[OF AllocatePage_step.a_pwrite[of ?s3 t ?pid 0 8192]] by (simp add: layout_simps)
    moreover have "thread_step t ?s4 (goto t (AllocatePage_Unlock (Inr ?pid)) ?x)" by (rule solo_finish(2))
    moreover obtain s' where s': "thread_step t (goto t (AllocatePage_Unlock (Inr ?pid)) ?x) s'"
      "calls s' t = Returned (AllocatePage_ret (Inr ?pid))" "mgr s' = mgr ?x" using unlock by blast
    ultimately have "(thread_step t)\<^sup>*\<^sup>* s s'" by (meson rtranclp.rtrancl_into_rtrancl)
    moreover have "AllocatePage (mgr s) = (Inr ?pid, mgr ?x)"
      using False s(3) by (simp add: AllocatePage_def layout_simps File_quiet disk_quiet_def) (simp add: pwrite_def bytes_of_def Let_def)
    ultimately show ?thesis using r s'(2,3) by (intro exI[of _ s']) simp
  qed
qed

lemma thread_run: "(thread_step t)\<^sup>*\<^sup>* s s' \<Longrightarrow> disk_step\<^sup>*\<^sup>* s s'"
  by (erule rtranclp_mono[THEN predicate2D, rotated]) (auto simp: disk_step_def)

subsection \<open>Properties\<close>

text \<open>C34. Whatever goroutines do at the same time, each step does one of three things to the pages of the file: nothing, a part of the write of
  one goroutine to an allocated page, in place, or the publication of one blank page behind the others. The file always has the bytes of every page
  the count promises.\<close>

theorem disk_steps_refine:
  assumes "disk_inv d" "disk_step\<^sup>*\<^sup>* (start_threads d) s" "disk_step s s'"
  shows "page_effect s s' \<and> disk_inv (mgr s')"
  using disk_step_inv[OF assms(3) threads_reachable[OF assms(1,2)]] threads_invD(1) by blast

theorem disk_steps_refine_witness:
  "page_effect (start_threads two_pages) (goto 0 AllocatePage_Lock (start_threads two_pages)) \<and> disk_inv (mgr (goto 0 AllocatePage_Lock (start_threads two_pages)))"
proof (rule disk_steps_refine[OF two_pages(1)])
  have "at_rest (calls (start_threads two_pages) 0)" by (simp add: start_threads_def at_rest_def)
  from thread_step.t_alloc[OF AllocatePage_step.a_call[OF this]]
  show "disk_step (start_threads two_pages) (goto 0 AllocatePage_Lock (start_threads two_pages))" by (auto simp: disk_step_def)
qed simp

text \<open>C35. Concurrent allocations never hand out the same id: the ids \<^verbatim>\<open>AllocatePage\<close> has returned are pairwise different, were not in the file
  at the start, and are below the count.\<close>

theorem allocated_ids_distinct:
  assumes "disk_inv d" "disk_step\<^sup>*\<^sup>* (start_threads d) s"
  shows "distinct (handed s) \<and> (\<forall>pid \<in> set (handed s). numPages d \<le> pid \<and> pid < numPages (mgr s))"
proof -
  have m: "map unat (handed s @ pending s) = [unat (numPages d)..<unat (numPages (mgr s))]"
    by (rule threads_invD(4)[OF threads_reachable[OF assms]])
  then have "distinct (map unat (handed s @ pending s))" by simp
  then have "distinct (handed s)" by (simp add: distinct_map)
  moreover have "unat pid \<in> {unat (numPages d)..<unat (numPages (mgr s))}" if "pid \<in> set (handed s)" for pid
    using arg_cong[OF m, of set] that by auto
  ultimately show ?thesis by (auto simp: word_le_nat_alt word_less_nat_alt)
qed

theorem allocated_ids_distinct_witness:
  "\<exists>s. disk_step\<^sup>*\<^sup>* (start_threads two_pages) s \<and> calls s 7 = Returned (AllocatePage_ret (Inr 2)) \<and> distinct (handed s)"
proof -
  have "\<exists>s'. (thread_step 7)\<^sup>*\<^sup>* (start_threads two_pages) s' \<and> calls s' 7 = Returned (AllocatePage_ret (Inr 2)) \<and>
      mgr s' = snd (AllocatePage two_pages)"
    by (rule solo_AllocatePage) (use two_pages(2) in \<open>simp_all add: start_threads_def at_rest_def AllocatePage_def two_pages_def Let_def MaxUint32_def
        File_WriteAt_def next_outcome_def\<close>)
  then show ?thesis using allocated_ids_distinct[OF two_pages(1)] thread_run by blast
qed

text \<open>C36. A read that no write to its page overlaps returns the page: if goroutine \<open>t\<close> has passed the check of \<^verbatim>\<open>ReadPage\<close> and, until it
  returns, the other goroutines do anything that leaves the bytes of that page alone, then a successful return has exactly the bytes the page had all
  the time. No return is ever an unexpected end of file.\<close>

theorem concurrent_read_returns_page:
  assumes d: "disk_inv d" "disk_step\<^sup>*\<^sup>* (start_threads d) s" and c: "calls s t = ReadPage_IO pid dst 0"
    and run: "(undisturbed pid t)\<^sup>*\<^sup>* s s'" and ret: "calls s' t = Returned (ReadPage_ret r dst')"
  shows "(r = Inr () \<longrightarrow> dst' = disk_pages (mgr s) ! unat pid) \<and>
    r \<noteq> Inl (Wrap ''disk: read page'' EOF)"
proof -
  note inv = threads_reachable[OF d]
  have ok: "length dst = 8192" "unat pid < unat (numPages (mgr s))" using threads_invD(3)[OF inv, of t] c by (simp_all add: word_less_nat_alt)
  have "reading pid (disk_page (mgr s) (unat pid)) (calls s t)" using c ok by simp
  from undisturbed_reading[OF run inv this]
  have u: "threads_inv (unat (numPages d)) s'" "r = Inr () \<longrightarrow> dst' = disk_page (mgr s) (unat pid)" using ret by auto
  have "r \<noteq> Inl (Wrap ''disk: read page'' EOF)" using threads_invD(3)[OF u(1), of t] ret by auto
  then show ?thesis using u ok by simp
qed

theorem concurrent_read_returns_page_witness:
  "\<exists>s s'. calls s 3 = ReadPage_IO 1 (replicate 8192 9) 0 \<and> (undisturbed 1 3)\<^sup>*\<^sup>* s s' \<and>
     calls s' 3 = Returned (ReadPage_ret (Inr ()) (disk_pages two_pages ! 1))"
proof -
  let ?init = "start_threads two_pages" and ?dst = "replicate 8192 9 :: byte list" and ?p = "disk_page two_pages 1"
  let ?s = "goto 3 (ReadPage_IO 1 ?dst 0) ?init" and ?s1 = "goto 3 (ReadPage_IO 1 ?p 8192) ?init" and ?s2 = "goto 3 (Returned (ReadPage_ret (Inr ()) ?p)) ?init"
  have m: "mgr ?init = two_pages" by (simp add: start_threads_def)
  have s0: "at_rest (calls ?init 3)" "mu ?init = None" by (simp_all add: start_threads_def at_rest_def)
  have d: "disk_inv (mgr ?init)" "1 < numPages (mgr ?init)" unfolding m by (rule two_pages(1)) (simp add: two_pages(3) word_less_nat_alt)
  have dst: "length ?dst = 8192" by simp
  have "(thread_step 3)\<^sup>*\<^sup>* ?init ?s" using solo_read_check[OF s0 dst, of 1] d(2) by (simp add: not_le[symmetric])
  then have reach: "disk_step\<^sup>*\<^sup>* ?init ?s" by (rule thread_run)
  have u: "thread_step 3 ?s ?s1" "thread_step 3 ?s1 ?s2" using solo_read_io[OF d dst, of 3] m by simp_all
  have "undisturbed 1 3 ?s ?s1" "undisturbed 1 3 ?s1 ?s2" using u by (auto simp: undisturbed_def disk_step_def at_rest_def)
  then have run: "(undisturbed 1 3)\<^sup>*\<^sup>* ?s ?s2" by (meson rtranclp.rtrancl_into_rtrancl rtranclp.rtrancl_refl)
  have c: "calls ?s 3 = ReadPage_IO 1 ?dst 0" "calls ?s2 3 = Returned (ReadPage_ret (Inr ()) ?p)" by simp_all
  from concurrent_read_returns_page[OF two_pages(1) reach c(1) run c(2)] c run m show ?thesis
    by (intro exI[of _ ?s] exI[of _ ?s2]) simp
qed

text \<open>C37. No call of the disk manager blocks for ever: a goroutine inside a call can take a step, or the mutex is held by another one that can;
  and every step a goroutine takes in a call brings it nearer to its return, by a measure that starts at 8196.\<close>

theorem disk_calls_progress:
  assumes "disk_inv d" "disk_step\<^sup>*\<^sup>* (start_threads d) s" "\<not> at_rest (calls s t)"
  shows "((\<exists>s'. thread_step t s s') \<or> (\<exists>u s'. u \<noteq> t \<and> mu s = Some u \<and> \<not> at_rest (calls s u) \<and> thread_step u s s')) \<and>
    work (calls s t) \<le> 8196 \<and> (\<forall>s'. thread_step t s s' \<longrightarrow> work (calls s' t) < work (calls s t))"
proof -
  note inv = threads_reachable[OF assms(1,2)]
  have "(\<exists>s'. thread_step t s s') \<or> (\<exists>u s'. u \<noteq> t \<and> mu s = Some u \<and> \<not> at_rest (calls s u) \<and> thread_step u s s')"
  proof (cases "mu s = None \<or> mu s = Some t")
    case True
    then show ?thesis using can_step[OF inv assms(3)] by blast
  next
    case False
    then obtain u where u: "mu s = Some u" "u \<noteq> t" by auto
    then have "\<not> at_rest (calls s u)" using threads_invD(2)[OF inv, of u] by (auto simp: at_rest_def)
    then show ?thesis using can_step[OF inv, of u] u by blast
  qed
  moreover have "work (calls s t) \<le> 8196" by (cases "calls s t") auto
  ultimately show ?thesis using work_decreases[OF _ inv assms(3)] by blast
qed

theorem disk_calls_progress_witness:
  "\<exists>s s'. calls s 0 = AllocatePage_Lock \<and> (thread_step 0 s s' \<or> (\<exists>u. u \<noteq> 0 \<and> mu s = Some u \<and> thread_step u s s'))"
proof -
  let ?s = "goto 0 AllocatePage_Lock (start_threads two_pages)"
  have "at_rest (calls (start_threads two_pages) 0)" by (simp add: start_threads_def at_rest_def)
  from thread_step.t_alloc[OF AllocatePage_step.a_call[OF this]]
  have "disk_step\<^sup>*\<^sup>* (start_threads two_pages) ?s" by (intro r_into_rtranclp) (auto simp: disk_step_def)
  from disk_calls_progress[OF two_pages(1) this, of 0]
  obtain s' where "thread_step 0 ?s s' \<or> (\<exists>u. u \<noteq> 0 \<and> mu ?s = Some u \<and> thread_step u ?s s')" by (auto simp: at_rest_def)
  then show ?thesis by (intro exI[of _ ?s] exI[of _ s']) simp
qed

text \<open>A goroutine that runs alone, while no I/O fails, gets from \<^verbatim>\<open>ReadPage\<close>, \<^verbatim>\<open>WritePage\<close> and \<^verbatim>\<open>AllocatePage\<close> what the sequential
  methods compute, and leaves the manager as they do.\<close>

theorem solo_calls_sequential:
  assumes "at_rest (calls s t)" "mu s = None" "disk_inv (mgr s)" "disk_quiet (mgr s)"
  shows "(case ReadPage (mgr s) pid buf of (r, dst', d') \<Rightarrow>
      \<exists>s'. (thread_step t)\<^sup>*\<^sup>* s s' \<and> calls s' t = Returned (ReadPage_ret r dst') \<and> mgr s' = d') \<and>
    (case WritePage (mgr s) pid buf of (r, d') \<Rightarrow>
      \<exists>s'. (thread_step t)\<^sup>*\<^sup>* s s' \<and> calls s' t = Returned (WritePage_ret r) \<and> mgr s' = d') \<and>
    (case AllocatePage (mgr s) of (r, d') \<Rightarrow>
      \<exists>s'. (thread_step t)\<^sup>*\<^sup>* s s' \<and> calls s' t = Returned (AllocatePage_ret r) \<and> mgr s' = d')"
  using solo_ReadPage[OF assms] solo_WritePage[OF assms(1,2,4)] solo_AllocatePage[OF assms(1,2,4)] by (auto split: prod.split)

theorem solo_calls_sequential_witness:
  "\<exists>s'. (thread_step 0)\<^sup>*\<^sup>* (start_threads two_pages) s' \<and>
     calls s' 0 = Returned (WritePage_ret (Inl (Errorf ''disk: write page out of range''))) \<and> mgr s' = two_pages"
proof -
  have "at_rest (calls (start_threads two_pages) 0)" "mu (start_threads two_pages) = None" "mgr (start_threads two_pages) = two_pages"
    by (simp_all add: start_threads_def at_rest_def)
  moreover have "WritePage two_pages 5 (replicate 8192 0) = (Inl (Errorf ''disk: write page out of range''), two_pages)"
    by (simp add: WritePage_def layout_simps two_pages_def)
  ultimately show ?thesis
    using solo_calls_sequential[of "start_threads two_pages" 0 5 "replicate 8192 0"] two_pages(1,2) by auto
qed

end
