(* ===== verification/Go_Json.thy ===== *)
theory Go_Json
  imports Db_Prelude "HOL-Library.Char_ord" "HOL-Library.List_Lexorder"
begin

text \<open>
  What the catalog uses of Go's \<^verbatim>\<open>encoding/json\<close>: the text \<^verbatim>\<open>MarshalIndent\<close> produces for a document, with the
  two-space indentation of the catalog, and the parser behind \<^verbatim>\<open>Unmarshal\<close>. A Go string and a byte slice of
  text are both the list of their bytes, \<^typ>\<open>string\<close>. The string literal code follows \<^verbatim>\<open>appendString\<close> and
  \<^verbatim>\<open>unquote\<close>: both work on UTF-8 and replace every byte that is not part of a character by U+FFFD.
  A document nested deeper than 10000 levels, or with any other syntax error, does not parse.
\<close>

subsection \<open>UTF-8\<close>

abbreviation code :: "char \<Rightarrow> nat" where "code \<equiv> of_char"

definition cont :: "nat \<Rightarrow> nat \<Rightarrow> char \<Rightarrow> bool" where
  "cont lo hi c \<longleftrightarrow> lo \<le> code c \<and> code c \<le> hi"

text \<open>The number of bytes of the character at the head of a string that starts with a byte of at least 0x80,
  as \<^verbatim>\<open>utf8.DecodeRune\<close> finds it.\<close>

fun wide :: "char \<Rightarrow> string \<Rightarrow> nat option" where
  "wide c cs = (let x = code c in
     if 0xC2 \<le> x \<and> x \<le> 0xDF then
       (case cs of a # _ \<Rightarrow> if cont 0x80 0xBF a then Some 2 else None | _ \<Rightarrow> None)
     else if 0xE0 \<le> x \<and> x \<le> 0xEF then
       (case cs of a # b # _ \<Rightarrow>
          if cont (if x = 0xE0 then 0xA0 else 0x80) (if x = 0xED then 0x9F else 0xBF) a \<and> cont 0x80 0xBF b
          then Some 3 else None
        | _ \<Rightarrow> None)
     else if 0xF0 \<le> x \<and> x \<le> 0xF4 then
       (case cs of a # b # d # _ \<Rightarrow>
          if cont (if x = 0xF0 then 0x90 else 0x80) (if x = 0xF4 then 0x8F else 0xBF) a \<and> cont 0x80 0xBF b \<and> cont 0x80 0xBF d
          then Some 4 else None
        | _ \<Rightarrow> None)
     else None)"

definition utf8_encode :: "nat \<Rightarrow> string" where
  "utf8_encode r = map char_of (
     if r < 0x80 then [r]
     else if r < 0x800 then [0xC0 + r div 64, 0x80 + r mod 64]
     else if r < 0x10000 then [0xE0 + r div 4096, 0x80 + r div 64 mod 64, 0x80 + r mod 64]
     else [0xF0 + r div 262144, 0x80 + r div 4096 mod 64, 0x80 + r div 64 mod 64, 0x80 + r mod 64])"

definition RuneError :: nat where "RuneError = 0xFFFD"

fun valid_utf8 :: "string \<Rightarrow> bool" where
  "valid_utf8 [] = True"
| "valid_utf8 (c # cs) = (if code c < 0x80 then valid_utf8 cs
     else case wide c cs of None \<Rightarrow> False | Some n \<Rightarrow> valid_utf8 (drop (n - 1) cs))"

text \<open>The string with every byte outside a character replaced.\<close>

fun to_valid :: "string \<Rightarrow> string" where
  "to_valid [] = []"
| "to_valid (c # cs) = (if code c < 0x80 then c # to_valid cs
     else case wide c cs of
       None \<Rightarrow> utf8_encode RuneError @ to_valid cs
     | Some n \<Rightarrow> c # take (n - 1) cs @ to_valid (drop (n - 1) cs))"

subsection \<open>String literals\<close>

definition hex_digit :: "nat \<Rightarrow> char" where
  "hex_digit n = (if n < 10 then char_of (0x30 + n) else char_of (0x57 + n))"

definition hex_value :: "char \<Rightarrow> nat option" where
  "hex_value c = (let x = code c in
     if 0x30 \<le> x \<and> x \<le> 0x39 then Some (x - 0x30)
     else if 0x61 \<le> x \<and> x \<le> 0x66 then Some (x - 0x57)
     else if 0x41 \<le> x \<and> x \<le> 0x46 then Some (x - 0x37)
     else None)"

definition escape :: "char \<Rightarrow> string" where
  "escape c = (
     if c = CHR 0x5C \<or> c = CHR 0x22 then [CHR 0x5C, c]
     else if c = CHR 0x08 then [CHR 0x5C, CHR ''b'']
     else if c = CHR 0x0C then [CHR 0x5C, CHR ''f'']
     else if c = CHR 0x0A then [CHR 0x5C, CHR ''n'']
     else if c = CHR 0x0D then [CHR 0x5C, CHR ''r'']
     else if c = CHR 0x09 then [CHR 0x5C, CHR ''t'']
     else if code c < 0x20 \<or> c = CHR ''<'' \<or> c = CHR ''>'' \<or> c = CHR ''&'' then
       [CHR 0x5C, CHR ''u'', CHR ''0'', CHR ''0'', hex_digit (code c div 16), hex_digit (code c mod 16)]
     else [c])"

definition escape_rune :: "nat \<Rightarrow> string" where
  "escape_rune r = [CHR 0x5C, CHR ''u'', hex_digit (r div 4096 mod 16), hex_digit (r div 256 mod 16),
     hex_digit (r div 16 mod 16), hex_digit (r mod 16)]"

fun quote_chars :: "string \<Rightarrow> string" where
  "quote_chars [] = []"
| "quote_chars (c # cs) = (
     if code c < 0x80 then escape c @ quote_chars cs
     else case wide c cs of
       None \<Rightarrow> escape_rune RuneError @ quote_chars cs
     | Some n \<Rightarrow>
         (if c # take (n - 1) cs = utf8_encode 0x2028 then escape_rune 0x2028
          else if c # take (n - 1) cs = utf8_encode 0x2029 then escape_rune 0x2029
          else c # take (n - 1) cs) @ quote_chars (drop (n - 1) cs))"

definition quote :: "string \<Rightarrow> string" where
  "quote s = CHR 0x22 # quote_chars s @ [CHR 0x22]"

fun getu4 :: "string \<Rightarrow> nat option" where
  "getu4 (a # b # c # d # _) =
     (case (hex_value a, hex_value b, hex_value c, hex_value d) of
        (Some w, Some x, Some y, Some z) \<Rightarrow> Some (((w * 16 + x) * 16 + y) * 16 + z)
      | _ \<Rightarrow> None)"
| "getu4 _ = None"

definition put_text :: "string \<Rightarrow> (string \<times> string) option \<Rightarrow> (string \<times> string) option" where
  "put_text p r = map_option (\<lambda>(s, rest). (p @ s, rest)) r"

definition simple_escape :: "char \<Rightarrow> char option" where
  "simple_escape e = map_of [(CHR 0x22, CHR 0x22), (CHR 0x5C, CHR 0x5C), (CHR ''/'', CHR ''/''), (CHR ''b'', CHR 0x08),
     (CHR ''f'', CHR 0x0C), (CHR ''n'', CHR 0x0A), (CHR ''r'', CHR 0x0D), (CHR ''t'', CHR 0x09)] e"

text \<open>The low half of a surrogate pair, when the text goes on with one.\<close>

definition low_surrogate :: "string \<Rightarrow> nat option" where
  "low_surrogate s = (case s of
      a # b # s' \<Rightarrow> if a = CHR 0x5C \<and> b = CHR ''u'' then
          (case getu4 s' of Some r \<Rightarrow> if 0xDC00 \<le> r \<and> r < 0xE000 then Some r else None | None \<Rightarrow> None)
        else None
    | _ \<Rightarrow> None)"

text \<open>The rest of a string literal after its opening quote: the string it stands for, and the text behind it.\<close>

function scan_string :: "string \<Rightarrow> (string \<times> string) option" where
  "scan_string [] = None"
| "scan_string (c # cs) = (
     if c = CHR 0x22 then Some ([], cs)
     else if c = CHR 0x5C then
       (case cs of
          [] \<Rightarrow> None
        | e # es \<Rightarrow>
            (case simple_escape e of
               Some x \<Rightarrow> put_text [x] (scan_string es)
             | None \<Rightarrow>
                 if e \<noteq> CHR ''u'' then None
                 else (case getu4 es of
                     None \<Rightarrow> None
                   | Some r \<Rightarrow>
                       if 0xD800 \<le> r \<and> r < 0xE000 then
                         (case low_surrogate (drop 4 es) of
                            Some r' \<Rightarrow>
                              if r < 0xDC00 then
                                put_text (utf8_encode ((r - 0xD800) * 1024 + (r' - 0xDC00) + 0x10000)) (scan_string (drop 10 es))
                              else put_text (utf8_encode RuneError) (scan_string (drop 4 es))
                          | None \<Rightarrow> put_text (utf8_encode RuneError) (scan_string (drop 4 es)))
                       else put_text (utf8_encode r) (scan_string (drop 4 es)))))
     else if code c < 0x20 then None
     else if code c < 0x80 then put_text [c] (scan_string cs)
     else (case wide c cs of
         None \<Rightarrow> put_text (utf8_encode RuneError) (scan_string cs)
       | Some n \<Rightarrow> put_text (c # take (n - 1) cs) (scan_string (drop (n - 1) cs))))"
  by pat_completeness auto
termination by (relation "measure length") auto

subsection \<open>Numbers\<close>

definition digit :: "nat \<Rightarrow> char" where "digit n = char_of (0x30 + n)"
definition is_digit :: "char \<Rightarrow> bool" where "is_digit c \<longleftrightarrow> cont 0x30 0x39 c"

fun dec_nat :: "nat \<Rightarrow> string" where
  "dec_nat n = (if n < 10 then [digit n] else dec_nat (n div 10) @ [digit (n mod 10)])"

definition dec_int :: "int \<Rightarrow> string" where
  "dec_int i = (if i < 0 then CHR ''-'' # dec_nat (nat (- i)) else dec_nat (nat i))"

definition nat_of_digits :: "string \<Rightarrow> nat" where
  "nat_of_digits s = foldl (\<lambda>n c. n * 10 + (code c - 0x30)) 0 s"

text \<open>\<^verbatim>\<open>strconv.ParseUint\<close> and \<^verbatim>\<open>strconv.ParseInt\<close> in base 10 on a number literal, before the range check.\<close>

definition ParseUint :: "string \<Rightarrow> nat option" where
  "ParseUint s = (if s \<noteq> [] \<and> list_all is_digit s then Some (nat_of_digits s) else None)"

definition ParseInt :: "string \<Rightarrow> int option" where
  "ParseInt s = (case s of
      [] \<Rightarrow> None
    | c # cs \<Rightarrow> if c = CHR ''-'' then map_option (\<lambda>n. - int n) (ParseUint cs) else map_option int (ParseUint s))"

definition scan_digits :: "string \<Rightarrow> (string \<times> string) option" where
  \<comment> \<open>one or more digits\<close>
  "scan_digits s = (let ds = takeWhile is_digit s in if ds = [] then None else Some (ds, drop (length ds) s))"

definition scan_fraction :: "string \<Rightarrow> (string \<times> string) option" where
  "scan_fraction s = (case s of
      c # cs \<Rightarrow> if c = CHR ''.'' then map_option (\<lambda>(ds, r). (c # ds, r)) (scan_digits cs) else Some ([], s)
    | [] \<Rightarrow> Some ([], s))"

definition scan_exponent :: "string \<Rightarrow> (string \<times> string) option" where
  "scan_exponent s = (case s of
      c # cs \<Rightarrow>
        if c = CHR ''e'' \<or> c = CHR ''E'' then
          (case cs of
             x # xs \<Rightarrow> if x = CHR ''+'' \<or> x = CHR ''-'' then map_option (\<lambda>(ds, r). (c # x # ds, r)) (scan_digits xs)
               else map_option (\<lambda>(ds, r). (c # ds, r)) (scan_digits cs)
           | [] \<Rightarrow> None)
        else Some ([], s)
    | [] \<Rightarrow> Some ([], s))"

definition scan_integer :: "string \<Rightarrow> (string \<times> string) option" where
  "scan_integer s = (case s of
      c # cs \<Rightarrow> if c = CHR ''0'' then Some ([c], cs) else scan_digits s
    | [] \<Rightarrow> None)"

definition scan_number :: "string \<Rightarrow> (string \<times> string) option" where
  "scan_number s =
     (let (sign, s) = (case s of c # cs \<Rightarrow> if c = CHR ''-'' then ([c], cs) else ([], s) | [] \<Rightarrow> ([], s)) in
      case scan_integer s of
        None \<Rightarrow> None
      | Some (i, s) \<Rightarrow>
          (case scan_fraction s of
             None \<Rightarrow> None
           | Some (f, s) \<Rightarrow> map_option (\<lambda>(e, s). (sign @ i @ f @ e, s)) (scan_exponent s)))"

subsection \<open>Documents\<close>

datatype json = JNull | JBool bool | JNum string | JStr string | JArr "json list" | JObj "(string \<times> json) list"

definition newline :: "nat \<Rightarrow> string" where
  "newline k = CHR 0x0A # replicate (2 * k) CHR '' ''"

fun print_items :: "nat \<Rightarrow> string list \<Rightarrow> string" where
  "print_items k [] = []"
| "print_items k [x] = newline k @ x"
| "print_items k (x # xs) = newline k @ x @ '','' @ print_items k xs"

text \<open>\<^verbatim>\<open>MarshalIndent\<close> at nesting level \<open>k\<close>.\<close>

fun print_json :: "nat \<Rightarrow> json \<Rightarrow> string" where
  "print_json k JNull = ''null''"
| "print_json k (JBool b) = (if b then ''true'' else ''false'')"
| "print_json k (JNum l) = l"
| "print_json k (JStr s) = quote s"
| "print_json k (JArr vs) = (if vs = [] then ''[]''
     else ''['' @ print_items (Suc k) (map (print_json (Suc k)) vs) @ newline k @ '']'')"
| "print_json k (JObj ms) = (if ms = [] then ''{}''
     else ''{'' @ print_items (Suc k) (map (\<lambda>(n, v). quote n @ '': '' @ print_json (Suc k) v) ms) @ newline k @ ''}'')"

definition is_space :: "char \<Rightarrow> bool" where
  "is_space c \<longleftrightarrow> c = CHR '' '' \<or> c = CHR 0x09 \<or> c = CHR 0x0D \<or> c = CHR 0x0A"

definition skip_ws :: "string \<Rightarrow> string" where
  "skip_ws s = dropWhile is_space s"

fun scan_word :: "string \<Rightarrow> string \<Rightarrow> string option" where
  "scan_word [] s = Some s"
| "scan_word (w # ws) (c # cs) = (if c = w then scan_word ws cs else None)"
| "scan_word (w # ws) [] = None"

definition maxNestingDepth :: nat where "maxNestingDepth = 10000"

text \<open>The parser. The first argument bounds the number of calls, the second is the number of open arrays and
  objects.\<close>

fun parse_value :: "nat \<Rightarrow> nat \<Rightarrow> string \<Rightarrow> (json \<times> string) option"
  and parse_elems :: "nat \<Rightarrow> nat \<Rightarrow> string \<Rightarrow> (json list \<times> string) option"
  and parse_members :: "nat \<Rightarrow> nat \<Rightarrow> string \<Rightarrow> ((string \<times> json) list \<times> string) option" where
  "parse_value 0 d s = None"
| "parse_value (Suc f) d s = (case skip_ws s of
      [] \<Rightarrow> None
    | c # cs \<Rightarrow>
        if c = CHR 0x22 then map_option (\<lambda>(x, r). (JStr x, r)) (scan_string cs)
        else if c = CHR ''['' then
          (if maxNestingDepth \<le> d then None
           else (case skip_ws cs of
               [] \<Rightarrow> None
             | x # xs \<Rightarrow> if x = CHR '']'' then Some (JArr [], xs)
                 else map_option (\<lambda>(vs, r). (JArr vs, r)) (parse_elems f (Suc d) (x # xs))))
        else if c = CHR ''{'' then
          (if maxNestingDepth \<le> d then None
           else (case skip_ws cs of
               [] \<Rightarrow> None
             | x # xs \<Rightarrow> if x = CHR ''}'' then Some (JObj [], xs)
                 else map_option (\<lambda>(ms, r). (JObj ms, r)) (parse_members f (Suc d) (x # xs))))
        else if c = CHR ''n'' then map_option (\<lambda>r. (JNull, r)) (scan_word ''ull'' cs)
        else if c = CHR ''t'' then map_option (\<lambda>r. (JBool True, r)) (scan_word ''rue'' cs)
        else if c = CHR ''f'' then map_option (\<lambda>r. (JBool False, r)) (scan_word ''alse'' cs)
        else map_option (\<lambda>(l, r). (JNum l, r)) (scan_number (c # cs)))"
| "parse_elems 0 d s = None"
| "parse_elems (Suc f) d s = (case parse_value f d s of
      None \<Rightarrow> None
    | Some (v, s) \<Rightarrow>
        (case skip_ws s of
           [] \<Rightarrow> None
         | c # cs \<Rightarrow>
             if c = CHR '','' then map_option (\<lambda>(vs, r). (v # vs, r)) (parse_elems f d cs)
             else if c = CHR '']'' then Some ([v], cs) else None))"
| "parse_members 0 d s = None"
| "parse_members (Suc f) d s = (case skip_ws s of
      [] \<Rightarrow> None
    | c # cs \<Rightarrow>
        if c \<noteq> CHR 0x22 then None
        else (case scan_string cs of
            None \<Rightarrow> None
          | Some (n, s) \<Rightarrow>
              (case skip_ws s of
                 [] \<Rightarrow> None
               | c # cs \<Rightarrow>
                   if c \<noteq> CHR '':'' then None
                   else (case parse_value f d cs of
                       None \<Rightarrow> None
                     | Some (v, s) \<Rightarrow>
                         (case skip_ws s of
                            [] \<Rightarrow> None
                          | c # cs \<Rightarrow>
                              if c = CHR '','' then map_option (\<lambda>(ms, r). ((n, v) # ms, r)) (parse_members f d cs)
                              else if c = CHR ''}'' then Some ([(n, v)], cs) else None)))))"

definition parse_json :: "string \<Rightarrow> json option" where
  "parse_json s = (case parse_value (Suc (length s)) 0 s of
      None \<Rightarrow> None
    | Some (v, r) \<Rightarrow> if skip_ws r = [] then Some v else None)"

subsection \<open>Reading back a string literal\<close>

lemma put_text_simps [simp]: "put_text p (Some (s, r)) = Some (p @ s, r)" "put_text p None = None"
  by (simp_all add: put_text_def)

lemma code_inject: "code a = code b \<longleftrightarrow> a = b"
  by simp

lemma char_of_code [simp]: "char_of (code c) = c"
  by simp

lemma hex_round: "n < 16 \<Longrightarrow> hex_value (hex_digit n) = Some n"
proof -
  assume "n < 16"
  then have "code (hex_digit n) = (if n < 10 then 0x30 + n else 0x57 + n)" by (simp add: hex_digit_def)
  then show ?thesis using \<open>n < 16\<close> by (simp add: hex_value_def Let_def)
qed

lemma getu4_hex:
  "r < 0x10000 \<Longrightarrow> getu4 (hex_digit (r div 4096 mod 16) # hex_digit (r div 256 mod 16) # hex_digit (r div 16 mod 16) # hex_digit (r mod 16) # s) = Some r"
proof -
  assume "r < 0x10000"
  have "r = r div 16 * 16 + r mod 16" "r div 16 = r div 256 * 16 + r div 16 mod 16"
    "r div 256 = r div 4096 * 16 + r div 256 mod 16"
    using div_mult2_eq[of r 16 16] div_mult2_eq[of r 256 16] by simp_all
  moreover have "r div 4096 mod 16 = r div 4096" using \<open>r < 0x10000\<close> by simp
  moreover have "hex_value (hex_digit (r div 4096)) = Some (r div 4096)" using \<open>r < 0x10000\<close> by (intro hex_round) simp
  ultimately show ?thesis by (simp add: hex_round)
qed

lemma scan_escape_rune:
  assumes "r < 0xD800 \<or> 0xE000 \<le> r \<and> r < 0x10000"
  shows "scan_string (escape_rune r @ s) = put_text (utf8_encode r) (scan_string s)"
proof -
  have "getu4 (hex_digit (r div 4096 mod 16) # hex_digit (r div 256 mod 16) # hex_digit (r div 16 mod 16) # hex_digit (r mod 16) # s) = Some r"
    by (rule getu4_hex) (use assms in auto)
  then show ?thesis using assms by (auto simp: escape_rune_def simple_escape_def)
qed

lemma escape_control:
  assumes "code c < 0x80"
  shows "escape c = escape_rune (code c) \<or> (\<exists>e. escape c = [CHR 0x5C, e] \<and> simple_escape e = Some c) \<or>
    escape c = [c] \<and> c \<noteq> CHR 0x22 \<and> c \<noteq> CHR 0x5C \<and> \<not> code c < 0x20"
proof -
  have "code (hex_digit 0) = code (CHR ''0'')" by (simp add: hex_digit_def)
  then have "hex_digit 0 = CHR ''0''" by (simp only: code_inject)
  moreover have "code c div 4096 mod 16 = 0" "code c div 256 mod 16 = 0" "code c div 16 mod 16 = code c div 16" using assms by simp_all
  ultimately show ?thesis unfolding escape_def escape_rune_def simple_escape_def by simp
qed

lemma scan_escape:
  assumes "code c < 0x80"
  shows "scan_string (escape c @ s) = put_text [c] (scan_string s)"
proof -
  have "utf8_encode (code c) = [c]" using assms by (simp add: utf8_encode_def)
  then show ?thesis using escape_control[OF assms] scan_escape_rune[of "code c" s] assms by auto
qed

lemma wide_prefix:
  assumes "wide c cs = Some n"
  shows "2 \<le> n" "n - 1 \<le> length cs" "wide c (take (n - 1) cs @ ys) = Some n" "0x80 \<le> code c"
  using assms by (auto simp: Let_def split: if_splits list.splits)

lemma scan_wide:
  assumes "wide c cs = Some n"
  shows "scan_string (c # take (n - 1) cs @ s) = put_text (c # take (n - 1) cs) (scan_string s)"
proof -
  have "c \<noteq> CHR 0x22" "c \<noteq> CHR 0x5C" using wide_prefix(4)[OF assms] by auto
  then show ?thesis using wide_prefix(1,2,4)[OF assms] wide_prefix(3)[OF assms, of s] by (simp del: wide.simps)
qed

lemma scan_quoted: "scan_string (quote_chars s @ CHR 0x22 # rest) = Some (to_valid s, rest)"
proof (induction s rule: quote_chars.induct)
  case (2 c cs)
  show ?case
  proof (cases "code c < 0x80")
    case True
    then show ?thesis using 2(1) scan_escape[OF True] by simp
  next
    case False
    show ?thesis
    proof (cases "wide c cs")
      case None
      then show ?thesis using False 2(2) scan_escape_rune[of RuneError] by (simp add: RuneError_def del: wide.simps)
    next
      case (Some n)
      have "scan_string ((if c # take (n - 1) cs = utf8_encode 0x2028 then escape_rune 0x2028
          else if c # take (n - 1) cs = utf8_encode 0x2029 then escape_rune 0x2029 else c # take (n - 1) cs) @ s) =
        put_text (c # take (n - 1) cs) (scan_string s)" for s
        using scan_wide[OF Some] scan_escape_rune[of "0x2028"] scan_escape_rune[of "0x2029"] by (simp del: scan_string.simps)
      note step = this
      show ?thesis using step
        using False Some 2(3)[OF False Some] by (simp del: wide.simps scan_string.simps)
    qed
  qed
qed simp

lemma to_valid_id: "valid_utf8 s \<Longrightarrow> to_valid s = s"
  by (induction s rule: to_valid.induct) (auto split: if_splits option.splits simp del: wide.simps)

subsection \<open>Reading back a number\<close>

lemma code_digit: "n < 10 \<Longrightarrow> code (digit n) = 0x30 + n"
  by (simp add: digit_def)

lemma digit_0: "digit 0 = CHR ''0''"
  using code_inject[of "digit 0" "CHR ''0''"] by (simp add: code_digit)

lemma dec_nat_digits: "list_all is_digit (dec_nat n) \<and> dec_nat n \<noteq> [] \<and> nat_of_digits (dec_nat n) = n"
proof (induction n rule: dec_nat.induct)
  case (1 n)
  have d: "is_digit (digit (n mod 10))" "n < 10 \<Longrightarrow> is_digit (digit n)"
    by (simp_all add: is_digit_def cont_def code_digit)
  show ?case
  proof (cases "n < 10")
    case True
    then show ?thesis using d by (simp add: nat_of_digits_def code_digit)
  next
    case False
    have s: "dec_nat n = dec_nat (n div 10) @ [digit (n mod 10)]" using False by (subst dec_nat.simps) simp
    have "nat_of_digits (dec_nat (n div 10) @ [digit (n mod 10)]) = nat_of_digits (dec_nat (n div 10)) * 10 + n mod 10"
      by (simp add: nat_of_digits_def code_digit del: dec_nat.simps)
    then show ?thesis using 1[OF False] d(1) unfolding s by simp
  qed
qed

lemma dec_nat_zero: "hd (dec_nat n) = CHR ''0'' \<longleftrightarrow> n = 0"
proof (induction n rule: dec_nat.induct)
  case (1 n)
  show ?case
  proof (cases "n < 10")
    case True
    have "digit n = CHR ''0'' \<longleftrightarrow> code (digit n) = code (CHR ''0'')" by (simp only: code_inject)
    then show ?thesis using True code_digit[OF True] by simp
  next
    case False
    then have s: "dec_nat n = dec_nat (n div 10) @ [digit (n mod 10)]" by (subst dec_nat.simps) simp
    show ?thesis using 1[OF False] False dec_nat_digits[of "n div 10"] unfolding s by simp
  qed
qed

declare dec_nat.simps [simp del]

lemma ParseUint_dec: "ParseUint (dec_nat n) = Some n"
  using dec_nat_digits[of n] by (simp add: ParseUint_def)

lemma dec_nat_head: "dec_nat n \<noteq> []" "is_digit (hd (dec_nat n))"
  using dec_nat_digits[of n] by (cases "dec_nat n"; simp)+

lemma dec_nat_Cons:
  obtains c cs where "dec_nat n = c # cs" "c \<noteq> CHR ''-''"
proof (cases "dec_nat n")
  case (Cons c cs)
  then have "c \<noteq> CHR ''-''" using dec_nat_head(2)[of n] by (auto simp: is_digit_def cont_def)
  then show thesis using that Cons by simp
qed (use dec_nat_head(1) in simp)

lemma ParseInt_dec: "ParseInt (dec_int i) = Some i"
proof (cases "i < 0")
  case False
  obtain c cs where c: "dec_nat (nat i) = c # cs" "c \<noteq> CHR ''-''" by (rule dec_nat_Cons)
  then show ?thesis using False ParseUint_dec[of "nat i"] by (simp add: ParseInt_def dec_int_def)
qed (simp add: ParseInt_def dec_int_def ParseUint_dec)

text \<open>The text behind a number literal does not go on with it.\<close>

definition number_ends :: "string \<Rightarrow> bool" where
  "number_ends s \<longleftrightarrow> (case s of [] \<Rightarrow> True | c # _ \<Rightarrow> \<not> is_digit c \<and> c \<notin> set ''.eE'')"

lemma scan_dec_nat:
  assumes "number_ends s"
  shows "scan_integer (dec_nat n @ s) = Some (dec_nat n, s)"
proof (cases "n = 0")
  case True
  then have "dec_nat n = ''0''" by (simp add: dec_nat.simps digit_0)
  then show ?thesis by (simp add: scan_integer_def)
next
  case False
  obtain c cs where c: "dec_nat n = c # cs" using dec_nat_head(1) by (cases "dec_nat n") auto
  have "c \<noteq> CHR ''0''" using dec_nat_zero[of n] False c by simp
  moreover have "takeWhile is_digit (dec_nat n @ s) = dec_nat n"
    using dec_nat_digits[of n] assms by (auto simp: number_ends_def list_all_iff takeWhile_append split: list.splits)
  ultimately show ?thesis by (simp add: scan_integer_def scan_digits_def c)
qed

lemma scan_dec_int:
  assumes "number_ends s"
  shows "scan_number (dec_int i @ s) = Some (dec_int i, s)"
proof -
  have f: "scan_fraction s = Some ([], s)" "scan_exponent s = Some ([], s)"
    using assms by (auto simp: number_ends_def scan_fraction_def scan_exponent_def split: list.splits)
  have "(case dec_nat n @ s of c # cs \<Rightarrow> if c = CHR ''-'' then ([c], cs) else ([], dec_nat n @ s) | [] \<Rightarrow> ([], dec_nat n @ s)) =
      ([], dec_nat n @ s)" for n by (rule dec_nat_Cons[of n]) auto
  then show ?thesis using scan_dec_nat[OF assms] f by (auto simp: scan_number_def dec_int_def)
qed

subsection \<open>Reading back a document\<close>

fun numbers_ok :: "json \<Rightarrow> bool" where
  "numbers_ok (JNum l) \<longleftrightarrow> (case ParseInt l of Some i \<Rightarrow> l = dec_int i | None \<Rightarrow> False)"
| "numbers_ok (JArr vs) \<longleftrightarrow> list_all numbers_ok vs"
| "numbers_ok (JObj ms) \<longleftrightarrow> list_all (\<lambda>(n, v). numbers_ok v) ms"
| "numbers_ok _ \<longleftrightarrow> True"

text \<open>The document that comes back: every string as the literal code can keep it.\<close>

fun clean :: "json \<Rightarrow> json" where
  "clean (JStr s) = JStr (to_valid s)"
| "clean (JArr vs) = JArr (map clean vs)"
| "clean (JObj ms) = JObj (map (\<lambda>(n, v). (to_valid n, clean v)) ms)"
| "clean v = v"

fun nesting :: "json \<Rightarrow> nat" where
  "nesting (JArr vs) = Suc (foldr max (map nesting vs) 0)"
| "nesting (JObj ms) = Suc (foldr max (map (\<lambda>(n, v). nesting v) ms) 0)"
| "nesting _ = 0"

text \<open>The number of nested calls that read a document.\<close>

fun calls :: "json \<Rightarrow> nat" where
  "calls (JArr vs) = Suc (sum_list (map (\<lambda>v. Suc (calls v)) vs))"
| "calls (JObj ms) = Suc (sum_list (map (\<lambda>(n, v). Suc (calls v)) ms))"
| "calls _ = 1"

lemma foldr_max_le: "foldr max xs (0 :: nat) \<le> k \<longleftrightarrow> (\<forall>x \<in> set xs. x \<le> k)"
  by (induction xs) auto

lemma skip_newline [simp]: "skip_ws (newline k @ s) = skip_ws s"
proof -
  have "dropWhile is_space (replicate n CHR '' '' @ s) = dropWhile is_space s" for n by (induction n) (auto simp: is_space_def)
  then show ?thesis by (simp add: skip_ws_def newline_def is_space_def)
qed

lemma parse_skip: "skip_ws a = skip_ws b \<Longrightarrow> parse_value f d a = parse_value f d b"
  by (cases f) simp_all

lemma parse_newline: "parse_value f d (newline k @ s) = parse_value f d s"
  by (rule parse_skip) simp

lemma skip_solid: "\<not> is_space c \<Longrightarrow> skip_ws (c # s) = c # s"
  by (simp add: skip_ws_def)

lemma number_ends_newline [simp]: "number_ends (newline k @ s)"
  by (simp add: number_ends_def newline_def is_digit_def cont_def)

lemma print_items_Cons:
  "print_items k (x # xs) = newline k @ x @ (if xs = [] then [] else '','' @ print_items k xs)"
  by (cases xs) auto

text \<open>The first byte of a document is not white space, and tells an item from a closing bracket.\<close>

lemma dec_int_head: obtains c cs where "dec_int i = c # cs" "is_digit c \<or> c = CHR ''-''"
  using dec_nat_head[of "nat i"] that by (cases "i < 0"; cases "dec_nat (nat i)") (auto simp: dec_int_def)

lemma print_head:
  assumes "numbers_ok v"
  obtains c cs where "print_json k v = c # cs" "\<not> is_space c" "c \<noteq> CHR '']''" "c \<noteq> CHR ''}''"
proof -
  have "\<exists>c cs. print_json k v = c # cs \<and> \<not> is_space c \<and> c \<noteq> CHR '']'' \<and> c \<noteq> CHR ''}''"
  proof (cases v)
    case (JNum l)
    then obtain i where l: "l = dec_int i" using assms by (auto split: option.splits)
    obtain c cs where c: "dec_int i = c # cs" "is_digit c \<or> c = CHR ''-''" by (rule dec_int_head)
    from c(2) have "\<not> is_space c" "c \<noteq> CHR '']''" "c \<noteq> CHR ''}''" by (auto simp: is_space_def is_digit_def cont_def)
    then show ?thesis using l c(1) JNum by simp
  qed (auto simp: quote_def is_space_def)
  then show thesis using that by blast
qed

lemma parse_items:
  assumes "vs \<noteq> []" "sum_list (map (\<lambda>v. Suc (calls v)) vs) \<le> f"
    and "\<And>v f rest. v \<in> set vs \<Longrightarrow> calls v \<le> f \<Longrightarrow> number_ends rest \<Longrightarrow> parse_value f d (print_json j v @ rest) = Some (clean v, rest)"
  shows "parse_elems f d (print_items i (map (print_json j) vs) @ newline k @ CHR '']'' # rest) = Some (map clean vs, rest)"
  using assms
proof (induction vs arbitrary: f)
  case (Cons v vs)
  from Cons.prems(2) obtain g where g: "f = Suc g" "calls v \<le> g" "sum_list (map (\<lambda>v. Suc (calls v)) vs) \<le> g" by (cases f) auto
  have v: "number_ends rest \<Longrightarrow> parse_value g d (print_json j v @ rest) = Some (clean v, rest)" for rest
    using Cons.prems(3)[of v g rest] g(2) by simp
  show ?case
  proof (cases "vs = []")
    case True
    then show ?thesis using v[of "newline k @ CHR '']'' # rest"] by (simp add: g(1) parse_newline skip_solid is_space_def)
  next
    case False
    have "parse_elems g d (print_items i (map (print_json j) vs) @ newline k @ CHR '']'' # rest) = Some (map clean vs, rest)"
      using Cons.IH[OF False g(3)] Cons.prems(3) by simp
    moreover have "number_ends (CHR '','' # s)" for s by (simp add: number_ends_def is_digit_def cont_def)
    ultimately show ?thesis using v False by (simp add: g(1) print_items_Cons parse_newline skip_solid is_space_def)
  qed
qed simp

lemma parse_member_items:
  assumes "ms \<noteq> []" "sum_list (map (\<lambda>(n, v). Suc (calls v)) ms) \<le> f"
    and "\<And>n v f rest. (n, v) \<in> set ms \<Longrightarrow> calls v \<le> f \<Longrightarrow> number_ends rest \<Longrightarrow> parse_value f d (print_json j v @ rest) = Some (clean v, rest)"
  shows "parse_members f d (print_items i (map (\<lambda>(n, v). quote n @ '': '' @ print_json j v) ms) @ newline k @ CHR ''}'' # rest) =
    Some (map (\<lambda>(n, v). (to_valid n, clean v)) ms, rest)"
  using assms
proof (induction ms arbitrary: f)
  case (Cons m ms)
  obtain n v where m: "m = (n, v)" by (cases m)
  from Cons.prems(2) obtain g where g: "f = Suc g" "calls v \<le> g" "sum_list (map (\<lambda>(n, v). Suc (calls v)) ms) \<le> g" by (cases f) (auto simp: m)
  have sp: "parse_value g d (CHR '' '' # s) = parse_value g d s" for s by (rule parse_skip) (simp add: skip_ws_def is_space_def)
  have v: "number_ends rest \<Longrightarrow> parse_value g d (CHR '' '' # print_json j v @ rest) = Some (clean v, rest)" for rest
    using Cons.prems(3)[of n v g rest] g(2) by (simp add: m sp)
  show ?case
  proof (cases "ms = []")
    case True
    then show ?thesis using v[of "newline k @ CHR ''}'' # rest"]
      by (simp add: g(1) m quote_def skip_solid is_space_def scan_quoted)
  next
    case False
    have "parse_members g d (print_items i (map (\<lambda>(n, v). quote n @ '': '' @ print_json j v) ms) @ newline k @ CHR ''}'' # rest) =
        Some (map (\<lambda>(n, v). (to_valid n, clean v)) ms, rest)"
      by (rule Cons.IH[OF False g(3)]) (rule Cons.prems(3), auto)
    moreover have "number_ends (CHR '','' # s)" for s by (simp add: number_ends_def is_digit_def cont_def)
    ultimately show ?thesis using v False
      by (simp add: g(1) m print_items_Cons quote_def skip_solid is_space_def scan_quoted)
  qed
qed simp

lemma parse_array:
  assumes ih: "\<And>v f rest. \<lbrakk>v \<in> set vs; calls v \<le> f; number_ends rest\<rbrakk> \<Longrightarrow>
      parse_value f (Suc d) (print_json (Suc k) v @ rest) = Some (clean v, rest)"
    and v: "numbers_ok (JArr vs)" "nesting (JArr vs) + d \<le> maxNestingDepth" "calls (JArr vs) \<le> f"
  shows "parse_value f d (print_json k (JArr vs) @ rest) = Some (clean (JArr vs), rest)"
proof -
  obtain g where g: "f = Suc g" "sum_list (map (\<lambda>v. Suc (calls v)) vs) \<le> g" using v(3) by (cases f) auto
  have d: "\<not> maxNestingDepth \<le> d" using v(2) by simp
  show ?thesis
  proof (cases vs)
    case Nil
    then show ?thesis using d by (simp add: g(1) skip_solid is_space_def)
  next
    case (Cons v vs')
    have items: "parse_elems g (Suc d) (print_items (Suc k) (map (print_json (Suc k)) vs) @ newline k @ CHR '']'' # rest) = Some (map clean vs, rest)"
      by (rule parse_items[OF _ g(2)]) (simp_all add: Cons ih[unfolded Cons])
    obtain c cs where c: "print_json (Suc k) v = c # cs" "\<not> is_space c" "c \<noteq> CHR '']''"
      by (rule print_head[of v "Suc k"]) (use assms(2) Cons in auto)
    have "parse_elems g (Suc d) (newline i @ s) = parse_elems g (Suc d) s" for i s by (cases g) (simp_all add: parse_newline)
    then show ?thesis using items d c by (simp add: g(1) skip_solid is_space_def Cons print_items_Cons)
  qed
qed

lemma parse_object:
  assumes ih: "\<And>n v f rest. \<lbrakk>(n, v) \<in> set ms; calls v \<le> f; number_ends rest\<rbrakk> \<Longrightarrow>
      parse_value f (Suc d) (print_json (Suc k) v @ rest) = Some (clean v, rest)"
    and v: "nesting (JObj ms) + d \<le> maxNestingDepth" "calls (JObj ms) \<le> f"
  shows "parse_value f d (print_json k (JObj ms) @ rest) = Some (clean (JObj ms), rest)"
proof -
  obtain g where g: "f = Suc g" "sum_list (map (\<lambda>(n, v). Suc (calls v)) ms) \<le> g" using v(2) by (cases f) auto
  have d: "\<not> maxNestingDepth \<le> d" using v(1) by simp
  show ?thesis
  proof (cases ms)
    case Nil
    then show ?thesis using d by (simp add: g(1) skip_solid is_space_def)
  next
    case (Cons m ms')
    have items: "parse_members g (Suc d) (print_items (Suc k) (map (\<lambda>(n, v). quote n @ '': '' @ print_json (Suc k) v) ms) @ newline k @ CHR ''}'' # rest) =
        Some (map (\<lambda>(n, v). (to_valid n, clean v)) ms, rest)"
      by (rule parse_member_items[OF _ g(2) ih]) (simp add: Cons)
    obtain n v where m: "m = (n, v)" by (cases m)
    have "parse_members g (Suc d) (newline i @ s) = parse_members g (Suc d) s" for i s by (cases g) simp_all
    then show ?thesis using items d by (simp add: g(1) skip_solid is_space_def Cons m print_items_Cons quote_def)
  qed
qed

lemma parse_print:
  assumes "numbers_ok v" "nesting v + d \<le> maxNestingDepth" "calls v \<le> f" "number_ends rest"
  shows "parse_value f d (print_json k v @ rest) = Some (clean v, rest)"
  using assms
proof (induction v arbitrary: d f rest k rule: json.induct)
  case JNull
  then show ?case by (cases f) (simp_all add: skip_solid is_space_def)
next
  case (JBool b)
  then show ?case by (cases f) (simp_all add: skip_solid is_space_def)
next
  case (JNum l)
  then obtain i where l: "l = dec_int i" by (auto split: option.splits)
  obtain c cs where c: "dec_int i = c # cs" "is_digit c \<or> c = CHR ''-''" by (rule dec_int_head)
  have "\<not> is_space c" "c \<notin> set ''[{ntf'' \<union> {CHR 0x22}" using c(2) by (auto simp: is_space_def is_digit_def cont_def)
  then show ?case using JNum.prems(3,4) scan_dec_int[of rest i] c(1)
    by (cases f) (simp_all add: l skip_solid)
next
  case (JStr s)
  then show ?case by (cases f) (simp_all add: quote_def skip_solid is_space_def scan_quoted)
next
  case (JArr vs)
  show ?case
  proof (rule parse_array[OF _ JArr.prems(1-3)])
    fix v f rest assume v: "v \<in> set vs" "calls v \<le> f" "number_ends rest"
    have "numbers_ok v" "nesting v + Suc d \<le> maxNestingDepth"
      using JArr.prems(1,2) v(1) foldr_max_le[of "map nesting vs" "maxNestingDepth - Suc d"] by (auto simp: list_all_iff)
    from JArr.IH[OF v(1) this v(2,3)] show "parse_value f (Suc d) (print_json (Suc k) v @ rest) = Some (clean v, rest)" .
  qed
next
  case (JObj ms)
  show ?case
  proof (rule parse_object[OF _ JObj.prems(2,3)])
    fix n v f rest assume v: "(n, v) \<in> set ms" "calls v \<le> f" "number_ends rest"
    have "numbers_ok v" "nesting v + Suc d \<le> maxNestingDepth"
      using JObj.prems(1,2) v(1) foldr_max_le[of "map (\<lambda>(n, v). nesting v) ms" "maxNestingDepth - Suc d"] by (auto simp: list_all_iff)
    from JObj.IH[OF v(1) _ this v(2,3)] show "parse_value f (Suc d) (print_json (Suc k) v @ rest) = Some (clean v, rest)" by simp
  qed
qed

lemma print_items_length: "sum_list (map (\<lambda>x. Suc (length x)) xs) \<le> length (print_items k xs)"
  by (induction k xs rule: print_items.induct) (auto simp: newline_def)

lemma calls_le: "numbers_ok v \<Longrightarrow> calls v \<le> length (print_json k v)"
proof (induction v arbitrary: k rule: json.induct)
  case (JNum l)
  then obtain i where l: "l = dec_int i" by (auto split: option.splits)
  obtain c cs where "dec_int i = c # cs" by (rule dec_int_head)
  then show ?case by (simp add: l)
next
  case (JArr vs)
  have "sum_list (map (\<lambda>v. Suc (calls v)) vs) \<le> sum_list (map (\<lambda>x. Suc (length x)) (map (print_json (Suc k)) vs))"
    unfolding map_map comp_def by (rule sum_list_mono) (use JArr in \<open>auto simp: list_all_iff\<close>)
  then show ?case using print_items_length[of "map (print_json (Suc k)) vs" "Suc k"] by (auto simp: newline_def)
next
  case (JObj ms)
  let ?f = "\<lambda>(n, v). quote n @ '': '' @ print_json (Suc k) v"
  have "sum_list (map (\<lambda>(n, v). Suc (calls v)) ms) \<le> sum_list (map (\<lambda>x. Suc (length x)) (map ?f ms))"
    unfolding map_map comp_def
  proof (rule sum_list_mono)
    fix m assume m: "m \<in> set ms"
    obtain n v where nv: "m = (n, v)" by (cases m)
    have "calls v \<le> length (print_json (Suc k) v)" using JObj.IH[OF m] JObj.prems m nv by (auto simp: list_all_iff)
    then show "(case m of (n, v) \<Rightarrow> Suc (calls v)) \<le> Suc (length (?f m))" by (simp add: nv)
  qed
  then show ?case using print_items_length[of "map ?f ms" "Suc k"] by (auto simp: newline_def)
qed (auto simp: quote_def)

lemma parse_json_print:
  assumes "numbers_ok v" "nesting v \<le> maxNestingDepth"
  shows "parse_json (print_json 0 v) = Some (clean v)"
proof -
  have "parse_value (Suc (length (print_json 0 v))) 0 (print_json 0 v @ []) = Some (clean v, [])"
    using assms calls_le[OF assms(1), of 0] by (intro parse_print) (simp_all add: number_ends_def)
  then show ?thesis by (simp add: parse_json_def skip_ws_def)
qed

end
