(* ===== verification/Catalog_Codec.thy ===== *)
theory Catalog_Codec
  imports Go_Json Record_Codec "HOL-Library.Finite_Map"
begin

text \<open>
  The catalog's document (\<^verbatim>\<open>internal/catalog/catalog.go\<close>): the metadata types, the JSON value
  \<^verbatim>\<open>json.MarshalIndent\<close> makes of the state, and the decoding \<^verbatim>\<open>json.Unmarshal\<close> makes of a JSON value, by the rules of
  \<^verbatim>\<open>encoding/json\<close>: a member is matched to a field by its exact name or else without regard to case, an unknown member is
  skipped, null leaves a value as it is or empties a slice or map, and a value of the wrong kind or out of range is an
  error. A nil slice or map and an empty one are the same value here; the empty ones are printed as Go prints nil
  slices and empty maps, which is what a catalog that the code built contains. (A document that names one array member
  twice in the same object is read as if the last one had no predecessor.)
\<close>

subsection \<open>The metadata\<close>

record IndexMeta =
  im_Name :: string
  im_Column :: "64 word"
  im_File :: string

record TableMeta =
  tm_Name :: string
  tm_Schema :: Schema
  tm_File :: string
  tm_Indexes :: "IndexMeta list"

record catalog_state =
  NextID :: u32
  Tables :: "(string, TableMeta) fmap"

subsection \<open>Encoding\<close>

definition json_of_nat :: "nat \<Rightarrow> json" where "json_of_nat n = JNum (dec_int (int n))"

definition json_of_slice :: "('a \<Rightarrow> json) \<Rightarrow> 'a list \<Rightarrow> json" where
  "json_of_slice f xs = (if xs = [] then JNull else JArr (map f xs))"

definition json_of_column :: "Column \<Rightarrow> json" where
  "json_of_column c = JObj [(''Name'', JStr (col_Name c)), (''Type'', json_of_nat (unat (col_Type c))), (''Nullable'', JBool (Nullable c))]"

definition json_of_schema :: "Schema \<Rightarrow> json" where
  "json_of_schema s = JObj [(''Columns'', json_of_slice json_of_column (Columns s))]"

definition json_of_index :: "IndexMeta \<Rightarrow> json" where
  "json_of_index i = JObj [(''name'', JStr (im_Name i)), (''column'', JNum (dec_int (sint (im_Column i)))), (''file'', JStr (im_File i))]"

definition json_of_table :: "TableMeta \<Rightarrow> json" where
  "json_of_table t = JObj [(''name'', JStr (tm_Name t)), (''schema'', json_of_schema (tm_Schema t)), (''file'', JStr (tm_File t)),
     (''indexes'', json_of_slice json_of_index (tm_Indexes t))]"

definition json_of_state :: "catalog_state \<Rightarrow> json" where
  "json_of_state s = JObj [(''next_id'', json_of_nat (unat (NextID s))),
     (''tables'', JObj (map (\<lambda>(n, t). (n, json_of_table t)) (sorted_list_of_fmap (Tables s))))]"

definition MarshalIndent :: "catalog_state \<Rightarrow> string" where
  "MarshalIndent s = print_json 0 (json_of_state s)"

subsection \<open>Decoding\<close>

text \<open>Field names without regard to case. Of the characters outside ASCII only U+017F and U+212A fold to a letter.\<close>

fun fold_name :: "string \<Rightarrow> string" where
  "fold_name [] = []"
| "fold_name (c # cs) = (
     if cont 0x61 0x7A c then char_of (code c - 0x20) # fold_name cs
     else if c = CHR 0xC5 \<and> take 1 cs = [CHR 0xBF] then CHR ''S'' # fold_name (drop 1 cs)
     else if c = CHR 0xE2 \<and> take 2 cs = [CHR 0x84, CHR 0xAA] then CHR ''K'' # fold_name (drop 2 cs)
     else c # fold_name cs)"

definition field :: "string list \<Rightarrow> string \<Rightarrow> string option" where
  "field names n = (if n \<in> set names then Some n else find (\<lambda>x. fold_name x = fold_name n) names)"

definition decode_string :: "json \<Rightarrow> string \<Rightarrow> string option" where
  "decode_string v old = (case v of JNull \<Rightarrow> Some old | JStr s \<Rightarrow> Some s | _ \<Rightarrow> None)"

definition decode_bool :: "json \<Rightarrow> bool \<Rightarrow> bool option" where
  "decode_bool v old = (case v of JNull \<Rightarrow> Some old | JBool b \<Rightarrow> Some b | _ \<Rightarrow> None)"

definition decode_uint :: "json \<Rightarrow> 'a::len word \<Rightarrow> 'a word option" where
  "decode_uint v old = (case v of
      JNull \<Rightarrow> Some old
    | JNum l \<Rightarrow> (case ParseUint l of Some n \<Rightarrow> if n < 2 ^ LENGTH('a) then Some (of_nat n) else None | None \<Rightarrow> None)
    | _ \<Rightarrow> None)"

definition decode_int :: "json \<Rightarrow> 64 word \<Rightarrow> 64 word option" where
  "decode_int v old = (case v of
      JNull \<Rightarrow> Some old
    | JNum l \<Rightarrow> (case ParseInt l of Some i \<Rightarrow> if - (2 ^ 63) \<le> i \<and> i < 2 ^ 63 then Some (of_int i) else None | None \<Rightarrow> None)
    | _ \<Rightarrow> None)"

fun decode_members :: "('a \<Rightarrow> string \<Rightarrow> json \<Rightarrow> 'a option) \<Rightarrow> (string \<times> json) list \<Rightarrow> 'a \<Rightarrow> 'a option" where
  "decode_members assign [] x = Some x"
| "decode_members assign ((n, v) # ms) x = (case assign x n v of None \<Rightarrow> None | Some x \<Rightarrow> decode_members assign ms x)"

definition decode_struct :: "('a \<Rightarrow> string \<Rightarrow> json \<Rightarrow> 'a option) \<Rightarrow> json \<Rightarrow> 'a \<Rightarrow> 'a option" where
  "decode_struct assign v x = (case v of JNull \<Rightarrow> Some x | JObj ms \<Rightarrow> decode_members assign ms x | _ \<Rightarrow> None)"

definition decode_slice :: "(json \<Rightarrow> 'a option) \<Rightarrow> json \<Rightarrow> 'a list option" where
  "decode_slice dec v = (case v of JNull \<Rightarrow> Some [] | JArr vs \<Rightarrow> those (map dec vs) | _ \<Rightarrow> None)"

definition decode_map :: "(json \<Rightarrow> 'a option) \<Rightarrow> json \<Rightarrow> (string, 'a) fmap \<Rightarrow> (string, 'a) fmap option" where
  "decode_map dec v m = (case v of
      JNull \<Rightarrow> Some fmempty
    | JObj ms \<Rightarrow> decode_members (\<lambda>m n v. map_option (\<lambda>x. fmupd n x m) (dec v)) ms m
    | _ \<Rightarrow> None)"

definition set_column :: "Column \<Rightarrow> string \<Rightarrow> json \<Rightarrow> Column option" where
  "set_column c n v = (let f = field [''Name'', ''Type'', ''Nullable''] n in
     if f = Some ''Name'' then map_option (\<lambda>x. c\<lparr>col_Name := x\<rparr>) (decode_string v (col_Name c))
     else if f = Some ''Type'' then map_option (\<lambda>x. c\<lparr>col_Type := x\<rparr>) (decode_uint v (col_Type c))
     else if f = Some ''Nullable'' then map_option (\<lambda>x. c\<lparr>Nullable := x\<rparr>) (decode_bool v (Nullable c))
     else Some c)"

definition zero_column :: Column where
  "zero_column = \<lparr>col_Name = [], col_Type = 0, Nullable = False\<rparr>"

definition set_schema :: "Schema \<Rightarrow> string \<Rightarrow> json \<Rightarrow> Schema option" where
  "set_schema s n v = (if field [''Columns''] n = Some ''Columns''
     then map_option (\<lambda>x. s\<lparr>Columns := x\<rparr>) (decode_slice (\<lambda>v. decode_struct set_column v zero_column) v)
     else Some s)"

definition set_index :: "IndexMeta \<Rightarrow> string \<Rightarrow> json \<Rightarrow> IndexMeta option" where
  "set_index i n v = (let f = field [''name'', ''column'', ''file''] n in
     if f = Some ''name'' then map_option (\<lambda>x. i\<lparr>im_Name := x\<rparr>) (decode_string v (im_Name i))
     else if f = Some ''column'' then map_option (\<lambda>x. i\<lparr>im_Column := x\<rparr>) (decode_int v (im_Column i))
     else if f = Some ''file'' then map_option (\<lambda>x. i\<lparr>im_File := x\<rparr>) (decode_string v (im_File i))
     else Some i)"

definition zero_index :: IndexMeta where
  "zero_index = \<lparr>im_Name = [], im_Column = 0, im_File = []\<rparr>"

definition set_table :: "TableMeta \<Rightarrow> string \<Rightarrow> json \<Rightarrow> TableMeta option" where
  "set_table t n v = (let f = field [''name'', ''schema'', ''file'', ''indexes''] n in
     if f = Some ''name'' then map_option (\<lambda>x. t\<lparr>tm_Name := x\<rparr>) (decode_string v (tm_Name t))
     else if f = Some ''schema'' then map_option (\<lambda>x. t\<lparr>tm_Schema := x\<rparr>) (decode_struct set_schema v (tm_Schema t))
     else if f = Some ''file'' then map_option (\<lambda>x. t\<lparr>tm_File := x\<rparr>) (decode_string v (tm_File t))
     else if f = Some ''indexes'' then
       map_option (\<lambda>x. t\<lparr>tm_Indexes := x\<rparr>) (decode_slice (\<lambda>v. decode_struct set_index v zero_index) v)
     else Some t)"

definition zero_table :: TableMeta where
  "zero_table = \<lparr>tm_Name = [], tm_Schema = \<lparr>Columns = []\<rparr>, tm_File = [], tm_Indexes = []\<rparr>"

definition set_state :: "catalog_state \<Rightarrow> string \<Rightarrow> json \<Rightarrow> catalog_state option" where
  "set_state s n v = (let f = field [''next_id'', ''tables''] n in
     if f = Some ''next_id'' then map_option (\<lambda>x. s\<lparr>NextID := x\<rparr>) (decode_uint v (NextID s))
     else if f = Some ''tables'' then
       map_option (\<lambda>x. s\<lparr>Tables := x\<rparr>) (decode_map (\<lambda>v. decode_struct set_table v zero_table) v (Tables s))
     else Some s)"

definition SyntaxError :: err where "SyntaxError = Errorf ''json: syntax error''"
definition UnmarshalTypeError :: err where "UnmarshalTypeError = Errorf ''json: cannot unmarshal''"

definition Unmarshal :: "string \<Rightarrow> catalog_state \<Rightarrow> err + catalog_state" where
  "Unmarshal data s = (case parse_json data of
      None \<Rightarrow> Inl SyntaxError
    | Some v \<Rightarrow> (case decode_struct set_state v s of None \<Rightarrow> Inl UnmarshalTypeError | Some s \<Rightarrow> Inr s))"

subsection \<open>Reading back a state\<close>

definition valid_column :: "Column \<Rightarrow> Column" where
  "valid_column c = c\<lparr>col_Name := to_valid (col_Name c)\<rparr>"
definition valid_index :: "IndexMeta \<Rightarrow> IndexMeta" where
  "valid_index i = i\<lparr>im_Name := to_valid (im_Name i), im_File := to_valid (im_File i)\<rparr>"
definition valid_table :: "TableMeta \<Rightarrow> TableMeta" where
  "valid_table t = \<lparr>tm_Name = to_valid (tm_Name t), tm_Schema = \<lparr>Columns = map valid_column (Columns (tm_Schema t))\<rparr>,
     tm_File = to_valid (tm_File t), tm_Indexes = map valid_index (tm_Indexes t)\<rparr>"

lemma numbers_ok_int [simp]: "numbers_ok (JNum (dec_int i))"
  by (simp add: ParseInt_dec)

lemma numbers_ok_slice: "(\<And>x. numbers_ok (f x)) \<Longrightarrow> numbers_ok (json_of_slice f xs)"
  by (simp add: json_of_slice_def list_all_iff)

lemma numbers_ok_table: "numbers_ok (json_of_table t)"
  by (simp add: json_of_table_def json_of_schema_def json_of_nat_def json_of_index_def json_of_column_def numbers_ok_slice
      del: numbers_ok.simps(1))

lemma numbers_ok_state: "numbers_ok (json_of_state s)"
  by (auto simp: json_of_state_def json_of_nat_def numbers_ok_table list_all_iff simp del: numbers_ok.simps(1))

lemma nesting_slice: "(\<And>x. nesting (f x) \<le> k) \<Longrightarrow> nesting (json_of_slice f xs) \<le> Suc k"
  by (auto simp: json_of_slice_def foldr_max_le)

lemma nesting_table: "nesting (json_of_table t) \<le> 4"
proof -
  have "nesting (json_of_slice json_of_column cs) \<le> Suc 1" "nesting (json_of_slice json_of_index is) \<le> Suc 1" for cs "is"
    by (rule nesting_slice, simp add: json_of_column_def json_of_index_def json_of_nat_def)+
  from this(1)[of "Columns (tm_Schema t)"] this(2)[of "tm_Indexes t"] show ?thesis
    by (simp add: json_of_table_def json_of_schema_def)
qed

lemma nesting_state: "nesting (json_of_state s) \<le> maxNestingDepth"
proof -
  have "foldr max (map (\<lambda>(n, v). nesting v) (map (\<lambda>(n, t). (n, json_of_table t)) ts)) 0 \<le> 4" for ts :: "(string \<times> TableMeta) list"
    using nesting_table by (auto simp: foldr_max_le)
  from this[of "sorted_list_of_fmap (Tables s)"] show ?thesis by (simp add: json_of_state_def json_of_nat_def maxNestingDepth_def)
qed

lemma ParseUint_dec_int: "ParseUint (dec_int (int n)) = Some n"
  by (simp add: dec_int_def ParseUint_dec)

lemma uint_back: "decode_uint (json_of_nat (unat (w :: 'a::len word))) old = Some w"
  using unsigned_less[of w, where 'a = nat] ParseUint_dec_int[of "unat w"] by (simp add: decode_uint_def json_of_nat_def)

lemma int_back: "decode_int (JNum (dec_int (sint w))) old = Some w"
  using sint_greater_eq[of w] sint_lt[of w] by (simp add: decode_int_def ParseInt_dec)

lemma string_back: "decode_string (JStr s) old = Some s"
  by (simp add: decode_string_def)

lemma bool_back: "decode_bool (JBool b) old = Some b"
  by (simp add: decode_bool_def)

lemma to_valid_ascii [simp]: "list_all (\<lambda>c. code c < 0x80) s \<Longrightarrow> to_valid s = s"
  by (induction s) auto

lemma clean_nat [simp]: "clean (json_of_nat n) = json_of_nat n"
  by (simp add: json_of_nat_def)

lemmas value_back = uint_back int_back string_back bool_back

lemma column_back: "decode_struct set_column (clean (json_of_column c)) zero_column = Some (valid_column c)"
  by (simp add: json_of_column_def decode_struct_def set_column_def field_def value_back valid_column_def zero_column_def)

lemma index_back: "decode_struct set_index (clean (json_of_index i)) zero_index = Some (valid_index i)"
  by (simp add: json_of_index_def decode_struct_def set_index_def field_def value_back valid_index_def zero_index_def)

lemma those_map: "(\<And>x. f x = Some (g x)) \<Longrightarrow> those (map f xs) = Some (map g xs)"
  by (induction xs) simp_all

lemma slice_back:
  assumes "\<And>x. dec (clean (f x)) = Some (g x)"
  shows "decode_slice dec (clean (json_of_slice f xs)) = Some (map g xs)"
  using those_map[of "\<lambda>x. dec (clean (f x))" g xs] assms by (simp add: decode_slice_def json_of_slice_def comp_def)

lemma schema_back: "decode_struct set_schema (clean (json_of_schema s)) s0 = Some (s0\<lparr>Columns := map valid_column (Columns s)\<rparr>)"
  using slice_back[of "\<lambda>v. decode_struct set_column v zero_column" json_of_column valid_column "Columns s"] column_back
  by (simp add: json_of_schema_def decode_struct_def[of set_schema] set_schema_def field_def)

lemma table_back: "decode_struct set_table (clean (json_of_table t)) zero_table = Some (valid_table t)"
  using slice_back[of "\<lambda>v. decode_struct set_index v zero_index" json_of_index valid_index "tm_Indexes t"] index_back
  by (simp add: json_of_table_def decode_struct_def[of set_table] set_table_def field_def value_back schema_back valid_table_def zero_table_def)

definition read_tables :: "(string \<times> TableMeta) list \<Rightarrow> (string, TableMeta) fmap \<Rightarrow> (string, TableMeta) fmap" where
  "read_tables ts m = fold (\<lambda>(n, t). fmupd (to_valid n) (valid_table t)) ts m"

lemma tables_back:
  "decode_map (\<lambda>v. decode_struct set_table v zero_table) (clean (JObj (map (\<lambda>(n, t). (n, json_of_table t)) ts))) m = Some (read_tables ts m)"
  by (simp add: decode_map_def) (induction ts arbitrary: m, auto simp: read_tables_def table_back)

text \<open>What comes back of any state, with no condition on it.\<close>

lemma Unmarshal_MarshalIndent:
  "Unmarshal (MarshalIndent s) s0 = Inr \<lparr>NextID = NextID s, Tables = read_tables (sorted_list_of_fmap (Tables s)) (Tables s0)\<rparr>"
  using parse_json_print[OF numbers_ok_state nesting_state, of s] tables_back
  by (simp add: Unmarshal_def MarshalIndent_def json_of_state_def decode_struct_def[of set_state] set_state_def field_def value_back)

text \<open>A state whose strings are UTF-8 comes back as it was.\<close>

definition utf8_table :: "TableMeta \<Rightarrow> bool" where
  "utf8_table t \<longleftrightarrow> valid_utf8 (tm_Name t) \<and> valid_utf8 (tm_File t) \<and> list_all (\<lambda>c. valid_utf8 (col_Name c)) (Columns (tm_Schema t)) \<and>
     list_all (\<lambda>i. valid_utf8 (im_Name i) \<and> valid_utf8 (im_File i)) (tm_Indexes t)"

definition utf8_state :: "catalog_state \<Rightarrow> bool" where
  "utf8_state s \<longleftrightarrow> fmpred (\<lambda>n t. valid_utf8 n \<and> utf8_table t) (Tables s)"

lemma valid_table_id: "utf8_table t \<Longrightarrow> valid_table t = t"
proof -
  assume u: "utf8_table t"
  have "map valid_column (Columns (tm_Schema t)) = Columns (tm_Schema t)" "map valid_index (tm_Indexes t) = tm_Indexes t"
    using u by (auto simp: utf8_table_def valid_column_def valid_index_def list_all_iff to_valid_id intro!: map_idI)
  then show ?thesis using u by (simp add: utf8_table_def valid_table_def to_valid_id)
qed

lemma read_tables_id:
  assumes "list_all (\<lambda>(n, t). valid_utf8 n \<and> utf8_table t) ts" "distinct (map fst ts)"
  shows "fmlookup (read_tables ts m) n = (case map_of ts n of None \<Rightarrow> fmlookup m n | Some t \<Rightarrow> Some t)"
  using assms
proof (induction ts arbitrary: m)
  case (Cons x ts)
  obtain k t where x: "x = (k, t)" by (cases x)
  have "valid_utf8 k" "utf8_table t" using Cons.prems(1) by (simp_all add: x)
  then have "read_tables (x # ts) m = read_tables ts (fmupd k t m)" by (simp add: read_tables_def x to_valid_id valid_table_id)
  moreover have "map_of ts k = None" using Cons.prems(2) by (simp add: x map_of_eq_None_iff)
  ultimately show ?case using Cons.IH[of "fmupd k t m"] Cons.prems by (auto simp: x split: option.splits)
qed (simp add: read_tables_def)

lemma Unmarshal_back:
  assumes "utf8_state s" "Tables s0 = fmempty"
  shows "Unmarshal (MarshalIndent s) s0 = Inr s"
proof -
  let ?ts = "sorted_list_of_fmap (Tables s)"
  have ts: "list_all (\<lambda>(n, t). valid_utf8 n \<and> utf8_table t) ?ts" using assms(1) by (simp add: utf8_state_def curry_def)
  have "distinct (map fst ?ts)" by (simp add: sorted_list_of_fmap_def comp_def sorted_list_of_fset.rep_eq)
  then have "read_tables ?ts fmempty = Tables s"
    by (intro fmap_ext) (simp add: read_tables_id[OF ts] split: option.split)
  then show ?thesis using Unmarshal_MarshalIndent[of s s0] assms(2) by simp
qed

end
