(* ===== verification/System_Catalog.thy ===== *)
theory System_Catalog
  imports Catalog_Codec Disk_Manager
begin

text \<open>
  The system catalog of \<^verbatim>\<open>internal/catalog/catalog.go\<close> and \<^verbatim>\<open>store.go\<close>: tables and indexes by name, with the files
  that back them, kept in memory and written as one JSON document on every change. The document goes through the
  \<^verbatim>\<open>blobStore\<close> interface; \<open>blob_store\<close> is its contract, interpreted on the \<^verbatim>\<open>fileStore\<close> over a model of the \<^verbatim>\<open>os\<close>
  calls it makes. Each call of the OS may fail, and a failed write may leave any part of its data behind; an
  exhausted list of answers means success.

  The mutex is left out: each method is one step. The maps and slices of the model are values, so the copies the code makes
  to keep callers from changing the catalog's own are the identity here.
\<close>

subsection \<open>The file system\<close>

record file_system =
  fs_files :: "string \<rightharpoonup> string"
  fs_outcomes :: "io_outcome list"

definition fs_next :: "file_system \<Rightarrow> io_outcome \<times> file_system" where
  "fs_next fs = (case fs_outcomes fs of [] \<Rightarrow> (IoOk, fs) | r # rs \<Rightarrow> (r, fs\<lparr>fs_outcomes := rs\<rparr>))"

definition os_ErrNotExist :: err where "os_ErrNotExist = Sentinel ''file does not exist''"

definition os_ReadFile :: "file_system \<Rightarrow> string \<Rightarrow> (err + string) \<times> file_system" where
  "os_ReadFile fs path = (let (r, fs) = fs_next fs in
     case r of
       IoFail _ \<Rightarrow> (Inl EIO, fs)
     | IoOk \<Rightarrow> (case fs_files fs path of None \<Rightarrow> Inl (Wrap ''open'' os_ErrNotExist) | Some d \<Rightarrow> Inr d, fs))"

definition os_WriteFile :: "file_system \<Rightarrow> string \<Rightarrow> string \<Rightarrow> (err + unit) \<times> file_system" where
  \<comment> \<open>\<open>IoFail 0\<close> is a failure to open, \<open>IoFail (Suc n)\<close> one after \<open>n\<close> bytes were written\<close>
  "os_WriteFile fs path data = (let (r, fs) = fs_next fs in
     case r of
       IoFail 0 \<Rightarrow> (Inl EIO, fs)
     | IoFail (Suc n) \<Rightarrow> (Inl EIO, fs\<lparr>fs_files := (fs_files fs)(path \<mapsto> take n data)\<rparr>)
     | IoOk \<Rightarrow> (Inr (), fs\<lparr>fs_files := (fs_files fs)(path \<mapsto> data)\<rparr>))"

definition os_Rename :: "file_system \<Rightarrow> string \<Rightarrow> string \<Rightarrow> (err + unit) \<times> file_system" where
  "os_Rename fs old new = (let (r, fs) = fs_next fs in
     case r of
       IoFail _ \<Rightarrow> (Inl EIO, fs)
     | IoOk \<Rightarrow>
         (case fs_files fs old of
            None \<Rightarrow> (Inl (Wrap ''rename'' os_ErrNotExist), fs)
          | Some d \<Rightarrow> (Inr (), fs\<lparr>fs_files := (fs_files fs)(old := None, new \<mapsto> d)\<rparr>)))"

definition os_MkdirAll :: "file_system \<Rightarrow> string \<Rightarrow> (err + unit) \<times> file_system" where
  \<comment> \<open>directories hold no bytes of their own\<close>
  "os_MkdirAll fs dir = (let (r, fs) = fs_next fs in (case r of IoFail _ \<Rightarrow> Inl EIO | IoOk \<Rightarrow> Inr (), fs))"

text \<open>\<^verbatim>\<open>filepath.Join\<close> of two elements: the non-empty ones joined by a slash, and cleaned.\<close>

fun split_path :: "string \<Rightarrow> string \<Rightarrow> string list" where
  "split_path w [] = [w]"
| "split_path w (c # cs) = (if c = CHR ''/'' then w # split_path [] cs else split_path (w @ [c]) cs)"

definition clean_step :: "bool \<Rightarrow> string list \<Rightarrow> string \<Rightarrow> string list" where
  \<comment> \<open>the elements kept so far, last one first\<close>
  "clean_step rooted acc w = (
     if w = [] \<or> w = ''.'' then acc
     else if w = ''..'' then
       (case acc of x # xs \<Rightarrow> if x = ''..'' then w # acc else xs | [] \<Rightarrow> if rooted then [] else [w])
     else w # acc)"

definition filepath_Clean :: "string \<Rightarrow> string" where
  "filepath_Clean p = (
     let rooted = (case p of c # _ \<Rightarrow> c = CHR ''/'' | [] \<Rightarrow> False);
         ws = rev (foldl (clean_step rooted) [] (split_path [] p));
         body = concat (map (\<lambda>w. CHR ''/'' # w) ws)
     in if rooted then (if ws = [] then ''/'' else body) else if ws = [] then ''.'' else tl body)"

definition filepath_Join :: "string \<Rightarrow> string \<Rightarrow> string" where
  "filepath_Join a b = (if a = [] \<and> b = [] then [] else filepath_Clean (if a = [] then b else if b = [] then a else a @ CHR ''/'' # b))"

subsection \<open>The store\<close>

record 's blobStore =
  bs_load :: "'s \<Rightarrow> (err + string option) \<times> 's"
  bs_save :: "'s \<Rightarrow> string \<Rightarrow> (err + unit) \<times> 's"

definition fileStore_load :: "string \<Rightarrow> file_system \<Rightarrow> (err + string option) \<times> file_system" where
  "fileStore_load path fs = (let (r, fs) = os_ReadFile fs path in
     case r of
       Inl e \<Rightarrow> if errors_Is e os_ErrNotExist then (Inr None, fs) else (Inl e, fs)
     | Inr data \<Rightarrow> (Inr (Some data), fs))"

definition fileStore_save :: "string \<Rightarrow> file_system \<Rightarrow> string \<Rightarrow> (err + unit) \<times> file_system" where
  "fileStore_save path fs data = (let tmp = path @ ''.tmp''; (r, fs) = os_WriteFile fs tmp data in
     case r of
       Inl e \<Rightarrow> (Inl e, fs)
     | Inr _ \<Rightarrow> os_Rename fs tmp path)"

definition fileStore :: "string \<Rightarrow> file_system blobStore" where
  "fileStore path = \<lparr>bs_load = fileStore_load path, bs_save = fileStore_save path\<rparr>"

subsection \<open>The catalog\<close>

definition ErrTableExists :: err where "ErrTableExists = Sentinel ''catalog: table already exists''"
definition ErrTableNotFound :: err where "ErrTableNotFound = Sentinel ''catalog: table not found''"
definition ErrIndexExists :: err where "ErrIndexExists = Sentinel ''catalog: index already exists''"
definition ErrBadColumn :: err where "ErrBadColumn = Sentinel ''catalog: column index out of range''"
definition ErrEmptyName :: err where "ErrEmptyName = Sentinel ''catalog: empty name''"
definition ErrNoColumns :: err where "ErrNoColumns = Sentinel ''catalog: table needs at least one column''"

definition clone :: "TableMeta \<Rightarrow> TableMeta" where
  "clone t = t\<lparr>tm_Schema := \<lparr>Columns = [] @ Columns (tm_Schema t)\<rparr>, tm_Indexes := [] @ tm_Indexes t\<rparr>"

record 's Catalog =
  cat_dir :: string
  cat_store :: 's
  cat_state :: catalog_state

definition empty_state :: catalog_state where
  "empty_state = \<lparr>NextID = 0, Tables = fmempty\<rparr>"

definition openWith :: "'s blobStore \<Rightarrow> string \<Rightarrow> 's \<Rightarrow> (err + 's Catalog) \<times> 's" where
  "openWith S dir store = (let (r, store) = bs_load S store in
     case r of
       Inl e \<Rightarrow> (Inl (Wrap ''catalog: load'' e), store)
     | Inr None \<Rightarrow> (Inr \<lparr>cat_dir = dir, cat_store = store, cat_state = empty_state\<rparr>, store)
     | Inr (Some data) \<Rightarrow>
         (case Unmarshal data empty_state of
            Inl e \<Rightarrow> (Inl (Wrap ''catalog: parse'' e), store)
          | Inr st \<Rightarrow> (Inr \<lparr>cat_dir = dir, cat_store = store, cat_state = st\<rparr>, store)))"

definition catalog_Open :: "string \<Rightarrow> file_system \<Rightarrow> (err + file_system Catalog) \<times> file_system" where
  "catalog_Open dir fs = (let (r, fs) = os_MkdirAll fs dir in
     case r of
       Inl e \<Rightarrow> (Inl (Wrap ''catalog: mkdir'' e), fs)
     | Inr _ \<Rightarrow> openWith (fileStore (filepath_Join dir ''catalog.json'')) dir fs)"

definition Dir :: "'s Catalog \<Rightarrow> string" where "Dir c = cat_dir c"

definition fileName :: "u32 \<Rightarrow> string" where
  "fileName rid = ''rel_'' @ dec_nat (unat rid) @ ''.db''"

definition persist :: "'s blobStore \<Rightarrow> 's Catalog \<Rightarrow> (err + unit) \<times> 's Catalog" where
  "persist S c = (let (r, store) = bs_save S (cat_store c) (MarshalIndent (cat_state c)); c = c\<lparr>cat_store := store\<rparr> in
     case r of
       Inl e \<Rightarrow> (Inl (Wrap ''catalog: save'' e), c)
     | Inr _ \<Rightarrow> (Inr (), c))"

definition set_table_entry :: "'s Catalog \<Rightarrow> string \<Rightarrow> TableMeta option \<Rightarrow> u32 \<Rightarrow> 's Catalog" where
  \<comment> \<open>the assignments to \<^verbatim>\<open>c.state.Tables[name]\<close>, or its deletion, and to \<^verbatim>\<open>c.state.NextID\<close>\<close>
  "set_table_entry c name tm rid = c\<lparr>cat_state := \<lparr>NextID = rid, Tables = (case tm of
       None \<Rightarrow> fmdrop name (Tables (cat_state c))
     | Some tm \<Rightarrow> fmupd name tm (Tables (cat_state c)))\<rparr>\<rparr>"

definition CreateTable :: "'s blobStore \<Rightarrow> 's Catalog \<Rightarrow> string \<Rightarrow> Schema \<Rightarrow> (err + TableMeta) \<times> 's Catalog" where
  "CreateTable S c name schema = (
     if name = [] then (Inl ErrEmptyName, c)
     else if length (Columns schema) = 0 then (Inl ErrNoColumns, c)
     else case fmlookup (Tables (cat_state c)) name of
       Some _ \<Rightarrow> (Inl (Wrap ''catalog'' ErrTableExists), c)
     | None \<Rightarrow>
        (let rid = NextID (cat_state c);
             tm = \<lparr>tm_Name = name, tm_Schema = \<lparr>Columns = [] @ Columns schema\<rparr>, tm_File = fileName rid, tm_Indexes = []\<rparr>;
             c = set_table_entry c name (Some tm) (rid + 1);
             (r, c) = persist S c
         in case r of
              Inl e \<Rightarrow> (Inl e, set_table_entry c name None rid)
            | Inr _ \<Rightarrow> (Inr (clone tm), c)))"

definition CreateIndex :: "'s blobStore \<Rightarrow> 's Catalog \<Rightarrow> string \<Rightarrow> string \<Rightarrow> 64 word \<Rightarrow> (err + IndexMeta) \<times> 's Catalog" where
  "CreateIndex S c table name column = (
     if name = [] then (Inl ErrEmptyName, c)
     else case fmlookup (Tables (cat_state c)) table of
       None \<Rightarrow> (Inl (Wrap ''catalog'' ErrTableNotFound), c)
     | Some tm \<Rightarrow>
         if sint column < 0 \<or> int (length (Columns (tm_Schema tm))) \<le> sint column then (Inl (Wrap ''catalog: column'' ErrBadColumn), c)
         else if list_ex (\<lambda>ix. im_Name ix = name) (tm_Indexes tm) then (Inl (Wrap ''catalog: index'' ErrIndexExists), c)
         else
          (let rid = NextID (cat_state c);
               im = \<lparr>im_Name = name, im_Column = column, im_File = fileName rid\<rparr>;
               updated = clone tm;
               updated = updated\<lparr>tm_Indexes := tm_Indexes updated @ [im]\<rparr>;
               c = set_table_entry c table (Some updated) (rid + 1);
               (r, c) = persist S c
           in case r of
                Inl e \<Rightarrow> (Inl e, set_table_entry c table (Some tm) rid)
              | Inr _ \<Rightarrow> (Inr im, c)))"

definition GetTable :: "'s Catalog \<Rightarrow> string \<Rightarrow> TableMeta \<times> bool" where
  "GetTable c name = (case fmlookup (Tables (cat_state c)) name of
      None \<Rightarrow> (zero_table, False)
    | Some tm \<Rightarrow> (clone tm, True))"

definition ListTables :: "string list \<Rightarrow> 's Catalog \<Rightarrow> TableMeta list" where
  \<comment> \<open>\<open>order\<close> lists the keys as the map iteration happens to visit them; \<^verbatim>\<open>sort.Slice\<close> promises nothing on
    equal names, which a catalog the code built does not have\<close>
  "ListTables order c = sort_key tm_Name (map (\<lambda>n. clone (the (fmlookup (Tables (cat_state c)) n))) order)"

subsection \<open>What a change of the catalog does\<close>

text \<open>Why a table or an index is refused before anything changes, and the state after it was recorded.\<close>

definition table_refusal :: "catalog_state \<Rightarrow> string \<Rightarrow> Schema \<Rightarrow> err option" where
  "table_refusal st name schema = (if name = [] then Some ErrEmptyName else if Columns schema = [] then Some ErrNoColumns
     else if fmlookup (Tables st) name \<noteq> None then Some (Wrap ''catalog'' ErrTableExists) else None)"

definition table_created :: "catalog_state \<Rightarrow> string \<Rightarrow> Schema \<Rightarrow> TableMeta \<Rightarrow> catalog_state \<Rightarrow> bool" where
  "table_created st name schema tm st' \<longleftrightarrow>
     tm = \<lparr>tm_Name = name, tm_Schema = \<lparr>Columns = Columns schema\<rparr>, tm_File = fileName (NextID st), tm_Indexes = []\<rparr> \<and>
     st' = \<lparr>NextID = NextID st + 1, Tables = fmupd name tm (Tables st)\<rparr>"

definition index_refusal :: "catalog_state \<Rightarrow> string \<Rightarrow> string \<Rightarrow> 64 word \<Rightarrow> err option" where
  "index_refusal st table name column = (if name = [] then Some ErrEmptyName else
     case fmlookup (Tables st) table of
       None \<Rightarrow> Some (Wrap ''catalog'' ErrTableNotFound)
     | Some tm \<Rightarrow>
         if \<not> (0 \<le> sint column \<and> sint column < int (length (Columns (tm_Schema tm)))) then Some (Wrap ''catalog: column'' ErrBadColumn)
         else if name \<in> im_Name ` set (tm_Indexes tm) then Some (Wrap ''catalog: index'' ErrIndexExists) else None)"

definition index_created :: "catalog_state \<Rightarrow> string \<Rightarrow> string \<Rightarrow> 64 word \<Rightarrow> IndexMeta \<Rightarrow> catalog_state \<Rightarrow> bool" where
  "index_created st table name column im st' \<longleftrightarrow>
     im = \<lparr>im_Name = name, im_Column = column, im_File = fileName (NextID st)\<rparr> \<and>
     (case fmlookup (Tables st) table of None \<Rightarrow> False
      | Some tm \<Rightarrow> st' = \<lparr>NextID = NextID st + 1, Tables = fmupd table (tm\<lparr>tm_Indexes := tm_Indexes tm @ [im]\<rparr>) (Tables st)\<rparr>)"

text \<open>A change is refused with no effect, or fails to be written and leaves memory and store as they were, or is recorded in both.\<close>

definition changed :: "('s \<Rightarrow> string option) \<Rightarrow> ('s \<Rightarrow> bool) \<Rightarrow> 's Catalog \<Rightarrow> err option \<Rightarrow> ('a \<Rightarrow> catalog_state \<Rightarrow> bool) \<Rightarrow>
    err + 'a \<Rightarrow> 's Catalog \<Rightarrow> bool" where
  "changed blob quiet c refusal created r c' \<longleftrightarrow> (case refusal of
      Some e \<Rightarrow> r = Inl e \<and> c' = c
    | None \<Rightarrow> cat_dir c' = cat_dir c \<and>
        (case r of
           Inl e \<Rightarrow> cat_state c' = cat_state c \<and> blob (cat_store c') = blob (cat_store c) \<and> \<not> quiet (cat_store c) \<and>
             (\<exists>e'. e = Wrap ''catalog: save'' e')
         | Inr x \<Rightarrow> created x (cat_state c') \<and> blob (cat_store c') = Some (MarshalIndent (cat_state c')) \<and>
             (quiet (cat_store c) \<longrightarrow> quiet (cat_store c'))))"

text \<open>The store holds the document of the state in memory.\<close>

definition in_step :: "('s \<Rightarrow> string option) \<Rightarrow> 's Catalog \<Rightarrow> bool" where
  "in_step blob c \<longleftrightarrow> (case blob (cat_store c) of
      None \<Rightarrow> cat_state c = empty_state
    | Some d \<Rightarrow> Unmarshal d empty_state = Inr (cat_state c))"

lemma clone_id [simp]: "clone t = t"
  by (simp add: clone_def)

lemma fmdrop_new: "fmlookup m k = None \<Longrightarrow> fmdrop k (fmupd k v m) = m"
  by (intro fmap_ext) auto

lemma fmupd_same: "fmlookup m k = Some v \<Longrightarrow> fmupd k v m = m"
  by (intro fmap_ext) auto

subsection \<open>The contract of the store\<close>

locale blob_store =
  fixes S :: "'s blobStore" and blob :: "'s \<Rightarrow> string option" and quiet :: "'s \<Rightarrow> bool"
  assumes load_keeps: "bs_load S s = (r, s') \<Longrightarrow> blob s' = blob s \<and> (\<forall>x. r = Inr x \<longrightarrow> x = blob s)"
    and load_quiet: "quiet s \<Longrightarrow> bs_load S s = (r, s') \<Longrightarrow> quiet s' \<and> (\<exists>x. r = Inr x)"
    and save_effect: "bs_save S s d = (w, s') \<Longrightarrow> blob s' = (case w of Inl _ \<Rightarrow> blob s | Inr _ \<Rightarrow> Some d)"
    and save_quiet: "quiet s \<Longrightarrow> bs_save S s d = (w, s') \<Longrightarrow> quiet s' \<and> w = Inr ()"
begin

lemma openWith_cases:
  assumes "openWith S dir s = (r, s')"
  shows "blob s' = blob s"
    "r = Inr c \<Longrightarrow> cat_store c = s' \<and> cat_dir c = dir \<and> in_step blob c"
    "quiet s \<Longrightarrow> quiet s' \<and> (case blob s of
       None \<Rightarrow> r = Inr \<lparr>cat_dir = dir, cat_store = s', cat_state = empty_state\<rparr>
     | Some d \<Rightarrow> (case Unmarshal d empty_state of
          Inl e \<Rightarrow> r = Inl (Wrap ''catalog: parse'' e)
        | Inr st \<Rightarrow> r = Inr \<lparr>cat_dir = dir, cat_store = s', cat_state = st\<rparr>))"
proof -
  obtain x s1 where l: "bs_load S s = (x, s1)" by (cases "bs_load S s")
  note k = load_keeps[OF l]
  have s': "s' = s1" using assms l by (auto simp: openWith_def split: sum.splits option.splits)
  then show "blob s' = blob s" using k by simp
  show "cat_store c = s' \<and> cat_dir c = dir \<and> in_step blob c" if "r = Inr c"
    using assms l k that by (auto simp: openWith_def in_step_def split: sum.splits option.splits)
  show "quiet s' \<and> (case blob s of
       None \<Rightarrow> r = Inr \<lparr>cat_dir = dir, cat_store = s', cat_state = empty_state\<rparr>
     | Some d \<Rightarrow> (case Unmarshal d empty_state of
          Inl e \<Rightarrow> r = Inl (Wrap ''catalog: parse'' e)
        | Inr st \<Rightarrow> r = Inr \<lparr>cat_dir = dir, cat_store = s', cat_state = st\<rparr>))" if q: "quiet s"
  proof -
    obtain y where "x = Inr y" "quiet s1" using load_quiet[OF q l] by auto
    then show ?thesis using assms l k s' by (auto simp: openWith_def split: sum.splits option.splits)
  qed
qed

text \<open>A catalog in step with its store is what opening the store again gives.\<close>

lemma reopen:
  assumes "in_step blob c" "quiet (cat_store c)"
  shows "\<exists>s'. openWith S dir (cat_store c) = (Inr \<lparr>cat_dir = dir, cat_store = s', cat_state = cat_state c\<rparr>, s') \<and> blob s' = blob (cat_store c)"
proof -
  obtain r s' where o: "openWith S dir (cat_store c) = (r, s')" by (cases "openWith S dir (cat_store c)")
  show ?thesis using openWith_cases(1,3)[OF o] assms o by (auto simp: in_step_def split: option.splits)
qed

text \<open>What writing the document does, in the one case and in the other.\<close>

lemma persist_cases:
  assumes "persist S c = (r, c')"
  obtains (saved) s where "r = Inr ()" "c' = c\<lparr>cat_store := s\<rparr>" "blob s = Some (MarshalIndent (cat_state c))"
      "quiet (cat_store c) \<Longrightarrow> quiet s"
  | (failed) e s where "r = Inl (Wrap ''catalog: save'' e)" "c' = c\<lparr>cat_store := s\<rparr>" "blob s = blob (cat_store c)"
      "\<not> quiet (cat_store c)"
proof -
  obtain x s where s: "bs_save S (cat_store c) (MarshalIndent (cat_state c)) = (x, s)"
    by (cases "bs_save S (cat_store c) (MarshalIndent (cat_state c))")
  note e = save_effect[OF s] and q = save_quiet[OF _ s]
  show thesis
  proof (cases x)
    case (Inl err)
    then have "\<not> quiet (cat_store c)" using q by auto
    then show thesis using failed[of err s] assms s e Inl by (simp add: persist_def)
  next
    case (Inr u)
    then show thesis using saved[of s] assms s e q by (simp add: persist_def)
  qed
qed

lemma persist_entry:
  assumes st: "st = cat_state c" and p: "persist S (set_table_entry c name (Some tm) rid) = (r, c1)"
    and undo: "Tables (cat_state (set_table_entry (set_table_entry c name (Some tm) rid) name old (NextID st))) = Tables st"
    and made: "created x \<lparr>NextID = rid, Tables = fmupd name tm (Tables st)\<rparr>"
  shows "changed blob quiet c None created (case r of Inl e \<Rightarrow> Inl e | Inr _ \<Rightarrow> Inr x)
    (case r of Inl e \<Rightarrow> set_table_entry c1 name old (NextID st) | Inr _ \<Rightarrow> c1)"
  using p
proof (cases rule: persist_cases)
  case (saved s)
  then show ?thesis using made by (simp add: changed_def set_table_entry_def st)
next
  case (failed e s)
  have "cat_state (set_table_entry c1 name old (NextID st)) = st"
    using undo by (cases old) (simp_all add: failed(2) set_table_entry_def)
  then show ?thesis using failed by (simp add: changed_def st) (simp add: set_table_entry_def)
qed

lemma CreateTable_spec:
  assumes "CreateTable S c name schema = (r, c')"
  shows "changed blob quiet c (table_refusal (cat_state c) name schema) (table_created (cat_state c) name schema) r c'"
proof (cases "table_refusal (cat_state c) name schema")
  case None
  let ?st = "cat_state c"
  let ?tm = "\<lparr>tm_Name = name, tm_Schema = \<lparr>Columns = Columns schema\<rparr>, tm_File = fileName (NextID ?st), tm_Indexes = []\<rparr>"
  have ok: "name \<noteq> []" "Columns schema \<noteq> []" "fmlookup (Tables ?st) name = None"
    using None by (auto simp: table_refusal_def split: if_splits)
  obtain x c1 where p: "persist S (set_table_entry c name (Some ?tm) (NextID ?st + 1)) = (x, c1)"
    by (cases "persist S (set_table_entry c name (Some ?tm) (NextID ?st + 1))")
  have u: "Tables (cat_state (set_table_entry (set_table_entry c name (Some ?tm) (NextID ?st + 1)) name None (NextID ?st))) = Tables ?st"
    using ok(3) by (simp add: set_table_entry_def fmdrop_new)
  have "changed blob quiet c None (table_created ?st name schema) (case x of Inl e \<Rightarrow> Inl e | Inr _ \<Rightarrow> Inr ?tm)
      (case x of Inl e \<Rightarrow> set_table_entry c1 name None (NextID ?st) | Inr _ \<Rightarrow> c1)"
    by (rule persist_entry[OF refl p u]) (simp add: table_created_def)
  moreover have "(r, c') = (case x of Inl e \<Rightarrow> Inl e | Inr _ \<Rightarrow> Inr ?tm, case x of Inl e \<Rightarrow> set_table_entry c1 name None (NextID ?st) | Inr _ \<Rightarrow> c1)"
    using assms ok p by (simp add: CreateTable_def Let_def split: sum.splits)
  ultimately show ?thesis unfolding None by (simp split: sum.splits)
next
  case (Some e)
  then show ?thesis using assms by (auto simp: CreateTable_def changed_def table_refusal_def split: if_splits option.splits)
qed

lemma CreateIndex_spec:
  assumes "CreateIndex S c table name column = (r, c')"
  shows "changed blob quiet c (index_refusal (cat_state c) table name column) (index_created (cat_state c) table name column) r c'"
proof (cases "index_refusal (cat_state c) table name column")
  case None
  let ?st = "cat_state c"
  obtain tm where ok: "name \<noteq> []" "fmlookup (Tables ?st) table = Some tm" "0 \<le> sint column" "sint column < int (length (Columns (tm_Schema tm)))"
    "name \<notin> im_Name ` set (tm_Indexes tm)"
    using None by (auto simp: index_refusal_def split: if_splits option.splits)
  define im where "im = \<lparr>im_Name = name, im_Column = column, im_File = fileName (NextID ?st)\<rparr>"
  let ?tm = "tm\<lparr>tm_Indexes := tm_Indexes tm @ [im]\<rparr>"
  obtain x c1 where p: "persist S (set_table_entry c table (Some ?tm) (NextID ?st + 1)) = (x, c1)"
    by (cases "persist S (set_table_entry c table (Some ?tm) (NextID ?st + 1))")
  have u: "Tables (cat_state (set_table_entry (set_table_entry c table (Some ?tm) (NextID ?st + 1)) table (Some tm) (NextID ?st))) = Tables ?st"
    using ok(2) by (simp add: set_table_entry_def fmupd_same)
  have "changed blob quiet c None (index_created ?st table name column) (case x of Inl e \<Rightarrow> Inl e | Inr _ \<Rightarrow> Inr im)
      (case x of Inl e \<Rightarrow> set_table_entry c1 table (Some tm) (NextID ?st) | Inr _ \<Rightarrow> c1)"
    by (rule persist_entry[OF refl p u]) (simp add: index_created_def im_def ok(2))
  moreover have "\<not> list_ex (\<lambda>ix. im_Name ix = name) (tm_Indexes tm)" using ok(5) by (auto simp: list_ex_iff)
  then have "(r, c') = (case x of Inl e \<Rightarrow> Inl e | Inr _ \<Rightarrow> Inr im, case x of Inl e \<Rightarrow> set_table_entry c1 table (Some tm) (NextID ?st) | Inr _ \<Rightarrow> c1)"
    using assms ok(1-4) p by (simp add: CreateIndex_def Let_def im_def split: sum.splits)
  ultimately show ?thesis unfolding None by (simp split: sum.splits)
next
  case (Some e)
  then show ?thesis using assms
    by (auto simp: CreateIndex_def changed_def index_refusal_def list_ex_iff split: if_splits option.splits)
qed

end

interpretation json_file: blob_store "fileStore path" "\<lambda>fs. fs_files fs path" "\<lambda>fs. fs_outcomes fs = []" for path
proof
  fix s s' :: file_system and r
  assume l: "bs_load (fileStore path) s = (r, s')"
  show "fs_files s' path = fs_files s path \<and> (\<forall>x. r = Inr x \<longrightarrow> x = fs_files s path)"
    using l by (auto simp: fileStore_def fileStore_load_def os_ReadFile_def fs_next_def EIO_def os_ErrNotExist_def
        split: list.splits io_outcome.splits option.splits)
  show "fs_outcomes s' = [] \<and> (\<exists>x. r = Inr x)" if "fs_outcomes s = []"
    using l that by (auto simp: fileStore_def fileStore_load_def os_ReadFile_def fs_next_def os_ErrNotExist_def split: option.splits)
next
  fix s s' :: file_system and d w
  assume l: "bs_save (fileStore path) s d = (w, s')"
  have ne: "path @ ''.tmp'' \<noteq> path" by simp
  then show "fs_files s' path = (case w of Inl _ \<Rightarrow> fs_files s path | Inr _ \<Rightarrow> Some d)"
    using l by (auto simp: fileStore_def fileStore_save_def os_WriteFile_def os_Rename_def fs_next_def Let_def
        split: list.splits io_outcome.splits nat.splits option.splits)
  show "fs_outcomes s' = [] \<and> w = Inr ()" if "fs_outcomes s = []"
    using l that by (auto simp: fileStore_def fileStore_save_def os_WriteFile_def os_Rename_def fs_next_def)
qed

subsection \<open>Well-formed catalogs\<close>

lemma fileName_inject: "fileName a = fileName b \<longleftrightarrow> a = b"
proof -
  have "nat_of_digits (dec_nat n) = n" for n using dec_nat_digits[of n] by simp
  then have "dec_nat m = dec_nat n \<Longrightarrow> m = n" for m n by metis
  then show ?thesis by (auto simp: fileName_def word_unat_eq_iff)
qed

text \<open>The files of a state, each with the table or the index it belongs to.\<close>

definition rel_files :: "catalog_state \<Rightarrow> ((string \<times> string option) \<times> string) set" where
  "rel_files st = {((n, None), tm_File t) | n t. fmlookup (Tables st) n = Some t} \<union>
     {((n, Some (im_Name i)), im_File i) | n t i. fmlookup (Tables st) n = Some t \<and> i \<in> set (tm_Indexes t)}"

definition table_ok :: "string \<Rightarrow> TableMeta \<Rightarrow> bool" where
  "table_ok n t \<longleftrightarrow> tm_Name t = n \<and> n \<noteq> [] \<and> Columns (tm_Schema t) \<noteq> [] \<and> distinct (map im_Name (tm_Indexes t)) \<and>
     (\<forall>i \<in> set (tm_Indexes t). 0 \<le> sint (im_Column i) \<and> sint (im_Column i) < int (length (Columns (tm_Schema t))))"

definition catalog_ok :: "catalog_state \<Rightarrow> bool" where
  "catalog_ok st \<longleftrightarrow> (\<forall>n t. fmlookup (Tables st) n = Some t \<longrightarrow> table_ok n t) \<and>
     (\<forall>rel f. (rel, f) \<in> rel_files st \<longrightarrow> (\<exists>k < NextID st. f = fileName k)) \<and>
     (\<forall>rel rel' f. (rel, f) \<in> rel_files st \<and> (rel', f) \<in> rel_files st \<longrightarrow> rel = rel')"

lemma catalog_ok_empty: "catalog_ok empty_state"
  by (simp add: catalog_ok_def empty_state_def rel_files_def)

text \<open>One more relation with a file of its own.\<close>

lemma catalog_ok_add:
  assumes st: "catalog_ok st" and room: "NextID st < 4294967295" "NextID st' = NextID st + 1"
    and files: "rel_files st' \<subseteq> insert (rel, fileName (NextID st)) (rel_files st)"
    and tables: "\<And>n t. fmlookup (Tables st') n = Some t \<Longrightarrow> table_ok n t"
  shows "catalog_ok st'"
proof -
  have lt: "NextID st < NextID st'" using room unat_plus_1[OF room(1)] by (simp add: word_less_nat_alt)
  have old: "\<exists>k < NextID st. f = fileName k" if "(r, f) \<in> rel_files st" for r f
    using st that unfolding catalog_ok_def by blast
  have "\<exists>k < NextID st'. f = fileName k" if "(r, f) \<in> rel_files st'" for r f
    using files that lt old[of r f] by (auto intro: less_trans)
  moreover have "r = r'" if "(r, f) \<in> rel_files st'" "(r', f) \<in> rel_files st'" for r r' f
  proof -
    have new: "(x, fileName (NextID st)) \<notin> rel_files st" for x using old[of x "fileName (NextID st)"] by (auto simp: fileName_inject)
    have "(r, f) = (rel, fileName (NextID st)) \<or> (r, f) \<in> rel_files st" "(r', f) = (rel, fileName (NextID st)) \<or> (r', f) \<in> rel_files st"
      using files that by auto
    then show ?thesis using new st unfolding catalog_ok_def by blast
  qed
  ultimately show ?thesis using tables unfolding catalog_ok_def by blast
qed

lemma table_created_ok:
  assumes "catalog_ok st" "NextID st < 4294967295" "table_refusal st name schema = None" "table_created st name schema tm st'"
  shows "catalog_ok st'"
proof (rule catalog_ok_add[OF assms(1,2)])
  have new: "fmlookup (Tables st) name = None" "name \<noteq> []" "Columns schema \<noteq> []"
    using assms(3) by (auto simp: table_refusal_def split: if_splits)
  show "NextID st' = NextID st + 1" using assms(4) by (simp add: table_created_def)
  show "rel_files st' \<subseteq> insert ((name, None), fileName (NextID st)) (rel_files st)"
    using assms(4) by (auto simp: table_created_def rel_files_def split: if_splits)
  show "table_ok n t" if "fmlookup (Tables st') n = Some t" for n t
    using that assms(1,4) new by (auto simp: table_created_def catalog_ok_def table_ok_def split: if_splits)
qed

lemma index_created_ok:
  assumes "catalog_ok st" "NextID st < 4294967295" "index_refusal st table name column = None" "index_created st table name column im st'"
  shows "catalog_ok st'"
proof (rule catalog_ok_add[OF assms(1,2)])
  obtain tm where tm: "fmlookup (Tables st) table = Some tm" "name \<notin> im_Name ` set (tm_Indexes tm)" "0 \<le> sint column"
    "sint column < int (length (Columns (tm_Schema tm)))"
    using assms(3) by (auto simp: index_refusal_def split: if_splits option.splits)
  have im: "im = \<lparr>im_Name = name, im_Column = column, im_File = fileName (NextID st)\<rparr>"
    "st' = \<lparr>NextID = NextID st + 1, Tables = fmupd table (tm\<lparr>tm_Indexes := tm_Indexes tm @ [im]\<rparr>) (Tables st)\<rparr>"
    using assms(4) tm(1) by (auto simp: index_created_def)
  show "NextID st' = NextID st + 1" by (simp add: im(2))
  show "rel_files st' \<subseteq> insert ((table, Some name), fileName (NextID st)) (rel_files st)"
    using tm(1) by (fastforce simp: im rel_files_def split: if_splits)
  have "table_ok table tm" using assms(1) tm(1) by (simp add: catalog_ok_def)
  then have "table_ok table (tm\<lparr>tm_Indexes := tm_Indexes tm @ [im]\<rparr>)" using tm by (auto simp: table_ok_def im(1))
  then show "table_ok n t" if "fmlookup (Tables st') n = Some t" for n t
    using that assms(1) by (auto simp: im(2) catalog_ok_def split: if_splits)
qed

subsection \<open>Runs of a catalog\<close>

inductive catalog_step :: "'s blobStore \<Rightarrow> 's Catalog \<Rightarrow> 's Catalog \<Rightarrow> bool" for S c where
  table: "CreateTable S c name schema = (r, c') \<Longrightarrow> catalog_step S c c'"
| index: "CreateIndex S c tab name column = (r, c') \<Longrightarrow> catalog_step S c c'"

inductive_cases catalog_stepE: "catalog_step S c c'"

text \<open>Whatever the result of a change, the catalog stays well formed and its counter grows by one at most.\<close>

definition grows :: "catalog_state \<Rightarrow> catalog_state \<Rightarrow> bool" where
  "grows st st' \<longleftrightarrow> unat (NextID st') \<le> Suc (unat (NextID st)) \<and> (catalog_ok st \<and> NextID st < 4294967295 \<longrightarrow> catalog_ok st')"

lemma unat_suc_le: "unat (w + 1 :: 'a::len word) \<le> Suc (unat w)"
  using mod_less_eq_dividend[of "Suc (unat w)" "2 ^ LENGTH('a)"] by (simp add: unat_word_ariths)

context blob_store
begin

lemma changed_grows:
  assumes "changed blob quiet c refusal created r c'"
    and "\<And>x. refusal = None \<Longrightarrow> created x (cat_state c') \<Longrightarrow> grows (cat_state c) (cat_state c')"
  shows "grows (cat_state c) (cat_state c')"
  using assms by (auto simp: changed_def grows_def split: option.splits sum.splits)

lemma step_grows: "catalog_step S c c' \<Longrightarrow> grows (cat_state c) (cat_state c')"
proof (erule catalog_stepE)
  fix name schema r assume "CreateTable S c name schema = (r, c')"
  from CreateTable_spec[OF this] show ?thesis
    by (rule changed_grows) (use table_created_ok in \<open>auto simp: grows_def table_created_def unat_suc_le\<close>)
next
  fix tab name column r assume "CreateIndex S c tab name column = (r, c')"
  from CreateIndex_spec[OF this] show ?thesis
    by (rule changed_grows) (use index_created_ok in \<open>auto simp: grows_def index_created_def unat_suc_le split: option.splits\<close>)
qed

lemma run_ok:
  assumes "(catalog_step S ^^ n) c c'" "cat_state c = empty_state" "n < 2 ^ 32"
  shows "catalog_ok (cat_state c') \<and> unat (NextID (cat_state c')) \<le> n"
  using assms(1,3)
proof (induction n arbitrary: c')
  case 0
  then show ?case using assms(2) catalog_ok_empty by (simp add: empty_state_def)
next
  case (Suc n)
  then obtain c1 where c1: "(catalog_step S ^^ n) c c1" "catalog_step S c1 c'" by auto
  have ih: "catalog_ok (cat_state c1)" "unat (NextID (cat_state c1)) \<le> n" using Suc.IH[OF c1(1)] Suc.prems(2) by auto
  have "unat (4294967295 :: u32) = 2 ^ 32 - 1" by simp
  then have "NextID (cat_state c1) < 4294967295" using ih(2) Suc.prems(2) by (simp add: word_less_nat_alt)
  then show ?case using step_grows[OF c1(2)] ih by (auto simp: grows_def)
qed

lemma step_in_step:
  assumes "changed blob quiet c refusal created r c'" "in_step blob c" "utf8_state (cat_state c')"
  shows "in_step blob c'"
  using assms Unmarshal_back[OF assms(3), of empty_state]
  by (auto simp: changed_def in_step_def empty_state_def split: option.splits sum.splits)

end

subsection \<open>Listing\<close>

lemma insort_key_map: "insort_key f (g x) (map g xs) = map g (insort_key (\<lambda>x. f (g x)) x xs)"
  by (induction xs) auto

lemma sort_key_map: "sort_key f (map g xs) = map g (sort_key (\<lambda>x. f (g x)) xs)"
  by (induction xs) (simp_all add: insort_key_map)

lemma sort_key_id: "(\<And>x. x \<in> set xs \<Longrightarrow> f x = x) \<Longrightarrow> sort_key f xs = sort xs"
proof (induction xs)
  case (Cons x xs)
  have "insort_key f x ys = insort x ys" if "\<And>y. y \<in> set ys \<Longrightarrow> f y = y" "f x = x" for x ys
    using that by (induction ys) auto
  from this[of "sort xs" x] show ?case using Cons by auto
qed simp

lemma ListTables_names:
  assumes ok: "\<And>n t. fmlookup (Tables (cat_state c)) n = Some t \<Longrightarrow> tm_Name t = n"
    and order: "distinct order" "set order = fmdom' (Tables (cat_state c))"
  shows "ListTables order c = map snd (sorted_list_of_fmap (Tables (cat_state c)))"
proof -
  let ?T = "Tables (cat_state c)" and ?g = "\<lambda>n. the (fmlookup (Tables (cat_state c)) n)"
  have name: "tm_Name (?g n) = n" if n: "n \<in> set order" for n
  proof -
    obtain t where "fmlookup ?T n = Some t" using n order(2) by (auto simp: fmlookup_dom'_iff)
    then show ?thesis using ok[of n t] by simp
  qed
  have "ListTables order c = map ?g (sort_key (\<lambda>n. tm_Name (?g n)) order)" by (simp add: ListTables_def sort_key_map)
  also have "sort_key (\<lambda>n. tm_Name (?g n)) order = sort order" by (rule sort_key_id) (rule name)
  also have "sort order = sorted_list_of_set (set order)" using order(1) by (simp add: sorted_list_of_set_sort_remdups distinct_remdups_id)
  also have "\<dots> = sorted_list_of_fset (fmdom ?T)" by (simp add: order(2) fmdom'_alt_def sorted_list_of_fset.rep_eq)
  finally show ?thesis by (simp add: sorted_list_of_fmap_def)
qed

subsection \<open>Properties\<close>

definition new_disk :: file_system where
  "new_disk = \<lparr>fs_files = Map.empty, fs_outcomes = []\<rparr>"

definition new_catalog :: "file_system Catalog" where
  "new_catalog = \<lparr>cat_dir = ''db'', cat_store = new_disk, cat_state = empty_state\<rparr>"

definition id_schema :: Schema where
  "id_schema = \<lparr>Columns = [\<lparr>col_Name = ''id'', col_Type = TypeInt, Nullable = False\<rparr>]\<rparr>"

text \<open>C27. Creating a table on the file store: an empty name, a schema without columns or a name that is taken is refused with no
  effect; otherwise the table is recorded under its name with the next file, the counter is advanced and the new document is
  in the store, or the document cannot be written and both memory and store are exactly what they were. A failure to
  write occurs only if some OS call fails.\<close>

theorem CreateTable_refines:
  "case CreateTable (fileStore path) c name schema of (r, c') \<Rightarrow>
     changed (\<lambda>fs. fs_files fs path) (\<lambda>fs. fs_outcomes fs = []) c (table_refusal (cat_state c) name schema)
       (table_created (cat_state c) name schema) r c'"
  using json_file.CreateTable_spec[of path c name schema] by (simp split: prod.split)

text \<open>C28. Creating an index on the file store: an empty name, an unknown table, a column outside the schema or an index name that the
  table has is refused with no effect; otherwise the index is appended to the table's with the next file and the new document is in
  the store, or the document cannot be written and both memory and store are exactly what they were.\<close>

theorem CreateIndex_refines:
  "case CreateIndex (fileStore path) c table name column of (r, c') \<Rightarrow>
     changed (\<lambda>fs. fs_files fs path) (\<lambda>fs. fs_outcomes fs = []) c (index_refusal (cat_state c) table name column)
       (index_created (cat_state c) table name column) r c'"
  using json_file.CreateIndex_spec[of path c table name column] by (simp split: prod.split)

text \<open>C29. A table whose creation succeeded survives a restart: when the strings of the catalog are UTF-8 and no OS call
  fails, opening the file again gives the same state, and the table is found with the metadata that was
  returned.\<close>

theorem catalog_reopen:
  assumes "CreateTable (fileStore path) c name schema = (Inr tm, c')" "utf8_state (cat_state c')" "fs_outcomes (cat_store c') = []"
  shows "\<exists>c'' fs. openWith (fileStore path) dir (cat_store c') = (Inr c'', fs) \<and> cat_state c'' = cat_state c' \<and>
    GetTable c'' name = (tm, True)"
proof -
  have ch: "changed (\<lambda>fs. fs_files fs path) (\<lambda>fs. fs_outcomes fs = []) c (table_refusal (cat_state c) name schema)
    (table_created (cat_state c) name schema) (Inr tm) c'" by (rule json_file.CreateTable_spec[OF assms(1)])
  then have st: "table_created (cat_state c) name schema tm (cat_state c')" "fs_files (cat_store c') path = Some (MarshalIndent (cat_state c'))"
    by (auto simp: changed_def split: option.splits)
  have "in_step (\<lambda>fs. fs_files fs path) c'" using Unmarshal_back[OF assms(2), of empty_state] st(2) by (simp add: in_step_def empty_state_def)
  from json_file.reopen[OF this assms(3), of dir] obtain fs where
    o: "openWith (fileStore path) dir (cat_store c') = (Inr \<lparr>cat_dir = dir, cat_store = fs, cat_state = cat_state c'\<rparr>, fs)" by blast
  have "fmlookup (Tables (cat_state c')) name = Some tm" using st(1) by (simp add: table_created_def)
  then show ?thesis using o by (simp add: GetTable_def)
qed

lemma new_table:
  "\<exists>tm c'. CreateTable (fileStore ''c'') new_catalog ''users'' id_schema = (Inr tm, c') \<and> fs_outcomes (cat_store c') = [] \<and>
    table_created empty_state ''users'' id_schema tm (cat_state c')"
proof -
  obtain r c' where ct: "CreateTable (fileStore ''c'') new_catalog ''users'' id_schema = (r, c')"
    by (cases "CreateTable (fileStore ''c'') new_catalog ''users'' id_schema")
  have "table_refusal empty_state ''users'' id_schema = None" by (simp add: table_refusal_def empty_state_def id_schema_def)
  then show ?thesis using json_file.CreateTable_spec[OF ct] ct
    by (auto simp: changed_def new_catalog_def new_disk_def split: sum.splits)
qed

theorem catalog_reopen_witness:
  "\<exists>tm c' c'' fs. CreateTable (fileStore ''c'') new_catalog ''users'' id_schema = (Inr tm, c') \<and>
     openWith (fileStore ''c'') ''db'' (cat_store c') = (Inr c'', fs) \<and> GetTable c'' ''users'' = (tm, True)"
proof -
  obtain tm c' where c': "CreateTable (fileStore ''c'') new_catalog ''users'' id_schema = (Inr tm, c')" "fs_outcomes (cat_store c') = []"
    "table_created empty_state ''users'' id_schema tm (cat_state c')" using new_table by blast
  have "fileName 0 = ''rel_0.db''" by (simp add: fileName_def dec_nat.simps digit_0)
  then have "utf8_state (cat_state c')"
    using c'(3) by (auto simp: table_created_def utf8_state_def utf8_table_def empty_state_def id_schema_def)
  from catalog_reopen[OF c'(1) this c'(2), of "''db''"] c'(1) show ?thesis by blast
qed

text \<open>C30. Starting from an empty catalog, after fewer than \<open>2 ^ 32\<close> calls of \<^verbatim>\<open>CreateTable\<close> and \<^verbatim>\<open>CreateIndex\<close> in any order and with any
  results, the catalog is well formed: every table is stored under its own non-empty name with at least one column, its index
  names are distinct and its index columns in range, and no two tables or indexes share a file.\<close>

theorem catalog_files_distinct:
  assumes "(catalog_step (fileStore path) ^^ n) c c'" "cat_state c = empty_state" "n < 2 ^ 32"
  shows "catalog_ok (cat_state c')"
  using json_file.run_ok[OF assms] by blast

theorem catalog_files_distinct_witness:
  "\<exists>c'. (catalog_step (fileStore ''c'') ^^ 1) new_catalog c' \<and> fmlookup (Tables (cat_state c')) ''users'' \<noteq> None \<and> catalog_ok (cat_state c')"
proof -
  obtain tm c' where c': "CreateTable (fileStore ''c'') new_catalog ''users'' id_schema = (Inr tm, c')"
    "table_created empty_state ''users'' id_schema tm (cat_state c')" using new_table by blast
  then have "(catalog_step (fileStore ''c'') ^^ 1) new_catalog c'" by (auto intro: catalog_step.table)
  from catalog_files_distinct[OF this] this show ?thesis using c'(2) by (auto simp: new_catalog_def table_created_def)
qed

text \<open>C31. Saving is atomic: when it succeeds the file holds the new document, when it fails it holds what it held before, and at no
  moment in between, even after a write cut off half-way, does it hold anything else. No other file but the temporary one
  changes.\<close>

theorem save_atomic:
  "case fileStore_save path fs data of (r, fs') \<Rightarrow>
     fs_files fs' path = (case r of Inl _ \<Rightarrow> fs_files fs path | Inr _ \<Rightarrow> Some data) \<and>
     fs_files (snd (os_WriteFile fs (path @ ''.tmp'') data)) path = fs_files fs path \<and>
     (\<forall>p. p = path \<or> p = path @ ''.tmp'' \<or> fs_files fs' p = fs_files fs p)"
  by (auto simp: fileStore_save_def os_WriteFile_def os_Rename_def fs_next_def Let_def
      split: list.splits io_outcome.splits nat.splits option.splits)

text \<open>\<^verbatim>\<open>ListTables\<close> returns the metadata of every table in increasing order of name, whatever order the map iteration visits them
  in.\<close>

theorem ListTables_by_name:
  assumes "catalog_ok (cat_state c)" "distinct order" "set order = fmdom' (Tables (cat_state c))"
  shows "ListTables order c = map snd (sorted_list_of_fmap (Tables (cat_state c)))"
  by (rule ListTables_names[OF _ assms(2,3)]) (use assms(1) in \<open>auto simp: catalog_ok_def table_ok_def\<close>)

theorem ListTables_by_name_witness:
  "\<exists>tm c'. CreateTable (fileStore ''c'') new_catalog ''users'' id_schema = (Inr tm, c') \<and> ListTables [''users''] c' = [tm]"
proof -
  obtain tm c' where c': "CreateTable (fileStore ''c'') new_catalog ''users'' id_schema = (Inr tm, c')"
    "table_created empty_state ''users'' id_schema tm (cat_state c')" using new_table by blast
  have "table_refusal empty_state ''users'' id_schema = None" by (simp add: table_refusal_def empty_state_def id_schema_def)
  then have "catalog_ok (cat_state c')" using table_created_ok[OF catalog_ok_empty _ _ c'(2)] by (simp add: empty_state_def)
  moreover have t: "Tables (cat_state c') = fmupd ''users'' tm fmempty" using c'(2) by (simp add: table_created_def empty_state_def)
  ultimately have "ListTables [''users''] c' = map snd (sorted_list_of_fmap (Tables (cat_state c')))"
    by (intro ListTables_by_name) simp_all
  then show ?thesis using c'(1) t by (simp add: sorted_list_of_fmap_def sorted_list_of_fset.rep_eq)
qed

subsection \<open>Limits of the catalog\<close>

text \<open>The counter is 32 bits wide and wraps: the table created after the last id shares its file with the first.\<close>

theorem file_name_reused:
  assumes "NextID st = 4294967295" "table_created st n1 s1 tm1 st1" "table_created st1 n2 s2 tm2 st2"
  shows "tm_File tm2 = fileName 0"
  using assms by (simp add: table_created_def fileName_inject)

text \<open>A name that is not UTF-8 is accepted and written, but is not what reopening finds.\<close>

theorem invalid_name_lost:
  assumes "CreateTable (fileStore path) new_catalog [CHR 0xFF] schema = (Inr tm, c')"
  shows "\<exists>c'' fs. openWith (fileStore path) dir (cat_store c') = (Inr c'', fs) \<and> GetTable c'' [CHR 0xFF] = (zero_table, False)"
proof -
  have ch: "changed (\<lambda>fs. fs_files fs path) (\<lambda>fs. fs_outcomes fs = []) new_catalog (table_refusal (cat_state new_catalog) [CHR 0xFF] schema)
    (table_created (cat_state new_catalog) [CHR 0xFF] schema) (Inr tm) c'" by (rule json_file.CreateTable_spec[OF assms])
  then have st: "cat_state c' = \<lparr>NextID = 1, Tables = fmupd [CHR 0xFF] tm fmempty\<rparr>" "fs_files (cat_store c') path = Some (MarshalIndent (cat_state c'))"
    "fs_outcomes (cat_store c') = []"
    by (auto simp: changed_def table_created_def new_catalog_def new_disk_def empty_state_def split: option.splits)
  have "sorted_list_of_fmap (fmupd [CHR 0xFF] tm fmempty) = [([CHR 0xFF], tm)]"
    by (simp add: sorted_list_of_fmap_def sorted_list_of_fset.rep_eq)
  moreover have "to_valid [CHR 0xFF] \<noteq> [CHR 0xFF]" by (simp add: utf8_encode_def RuneError_def)
  ultimately have un: "\<exists>st. Unmarshal (MarshalIndent (cat_state c')) empty_state = Inr st \<and> fmlookup (Tables st) [CHR 0xFF] = None"
    using Unmarshal_MarshalIndent[of "cat_state c'" empty_state] by (auto simp: st(1) read_tables_def empty_state_def)
  obtain r fs where o: "openWith (fileStore path) dir (cat_store c') = (r, fs)" by (cases "openWith (fileStore path) dir (cat_store c')")
  show ?thesis using json_file.openWith_cases(3)[OF o st(3)] un o st(2) by (auto simp: GetTable_def)
qed

end
