(* ===== verification/Spec2Isabelle.thy ===== *)
theory Spec2Isabelle
  imports Shared_Pool BTree_Failure Disk_Threads System_Catalog
begin

text \<open>
  A verification library for mini_db, a disk-oriented storage engine in Go. This theory only joins the library; the
  properties stand in the theories of the components they are about, each behind a text that starts with its number.

  \<^bold>\<open>The program.\<close> Under \<^verbatim>\<open>src/internal\<close>, bottom up: bit-field helpers (\<^verbatim>\<open>util\<close>); byte layouts of a page
  frame, its header, slot entries and tuple headers, and the slotted page (\<^verbatim>\<open>storage/page\<close>); a disk manager
  that keeps a file as an array of 8192-byte pages (\<^verbatim>\<open>storage/disk\<close>); a buffer pool with an LRU replacer
  that serves the pages of several files from a fixed set of frames (\<^verbatim>\<open>storage/buffer\<close>); two access methods that work through
  one file of the pool, the heap (\<^verbatim>\<open>access/heap\<close>) and the B+ tree index (\<^verbatim>\<open>access/nbtree\<close>); the codec of
  typed rows (\<^verbatim>\<open>record\<close>); and the system catalog (\<^verbatim>\<open>catalog\<close>), which keeps names, schemas and file names in a
  JSON document of its own. \<^verbatim>\<open>cmd/server\<close> prints a line.

  \<^bold>\<open>How the code is modelled.\<close> A \<^verbatim>\<open>uintN\<close> is an \<open>N\<close>-bit word and keeps its wrap-around, a byte slice is a list of bytes, a
  struct a record. An error is a value of \<open>err\<close>, returned on the left of a sum; of its text only the constant part is kept, and
  what \<^verbatim>\<open>errors.Is\<close> sees. A method takes the state it works on and returns it changed. Where the
  code can panic (an index or slice out of range), the model returns \<open>option\<close> and \<open>None\<close> is the panic; a loop that might not
  end is a \<^verbatim>\<open>partial_function\<close>, whose \<open>None\<close> also covers running forever, so each theorem of the form ``returns
  \<open>Some\<close>'' excludes both. There is no fuel in the model of the program itself; the JSON parser, a part of Go's library, counts
  down its input length plus one, which bounds its nesting, and the limit of 10000 levels \<^verbatim>\<open>encoding/json\<close> has. A view of a page
  (\<^verbatim>\<open>PageHeader\<close>, \<^verbatim>\<open>SlottedPage\<close>, \<^verbatim>\<open>node\<close>) is the bytes it aliases; a \<^verbatim>\<open>*page.Page\<close> from the pool is the index
  of its frame, read and written through the pool, so that two holders of a page see each other's writes.
  Every call of the operating system takes its answer from a list of outcomes in the state: success, or
  failure after any number of bytes. The theorems hold for every such list; ``no I/O failure pending'' (\<open>disk_quiet\<close>, \<open>all_quiet\<close>) is
  the empty list, and is assumed only where a theorem says that something succeeds.

  \<^bold>\<open>The theories, and what they show.\<close>

  \<^item> \<open>Db_Prelude\<close>: words, errors, slices, big-endian integers and their simp collections.

  \<^item> \<open>Bit_Fields\<close> (\<^verbatim>\<open>util/bits.go\<close>): \<open>ReadBits\<close> and \<open>WriteBits\<close> against the bit stream of the buffer; they are total on page-sized
    buffers. Locale \<open>bit_field\<close> has the laws of one packed field.

  \<^item> \<open>Page_Layout\<close> (\<^verbatim>\<open>page.go\<close>, \<^verbatim>\<open>page_header.go\<close>, \<^verbatim>\<open>slot_entry.go\<close>, \<^verbatim>\<open>tuple.go\<close>): every setter updates one field of the abstract
    record and no other; the packed fields are interpretations of \<open>bit_field\<close>.

  \<^item> \<open>Slotted_Page\<close> (\<^verbatim>\<open>slotted_page.go\<close>): the layout invariant \<open>wf_page\<close>, the list of \<open>tuples\<close> as abstraction, and \<open>InsertTuple\<close> as append.

  \<^item> \<open>Disk_Manager\<close> (\<^verbatim>\<open>disk.go\<close>): the file as a list of pages under failing and partial I/O. Locale
    \<open>page_store\<close> is the \<^verbatim>\<open>diskManager\<close> interface the pool declares, interpreted as \<open>disk\<close>.

  \<^item> \<open>Disk_Threads\<close> (\<^verbatim>\<open>disk.go\<close> again): goroutines inside calls of one manager, as a step relation. The mutex guards the page count, and all of
    \<^verbatim>\<open>AllocatePage\<close>; the positioned reads and writes run without it, one \<^verbatim>\<open>pread\<close> or \<^verbatim>\<open>pwrite\<close> of any length per step. Every step changes no page, a
    part of one page in place, or publishes one blank page; allocated ids are distinct; a read that no write to its page overlaps returns
    the page; no call blocks for ever; and a goroutine that runs alone computes what \<open>Disk_Manager\<close> has.

  \<^item> \<open>LRU_Replacer\<close> (\<^verbatim>\<open>lru_replacer.go\<close>): locale \<open>eviction_queue\<close>, interpreted as \<open>lru\<close>.

  \<^item> \<open>Buffer_Pool\<close> (\<^verbatim>\<open>buffer_pool.go\<close>): all operations, in the context of \<open>page_store\<close>. \<open>page_of\<close> is the current content
    of a page, in its frame or on disk; \<open>pool_inv\<close> is the invariant, with every frame free, pinned or waiting, and no change lost.

  \<^item> \<open>Pool_Steps\<close>: the pool as the step relation \<open>pool_step\<close>, its reachable states, and the theorems of
    the pool: what a fetch serves, allocation, release, eviction, and the checkpoint (\<open>FlushAll\<close>, \<open>Sync\<close>).

  \<^item> \<open>Pool_Threads\<close>: the two pool methods that leave the lock, \<^verbatim>\<open>Sync\<close> and \<^verbatim>\<open>numPages\<close>, in parts between which any other method may run. An \<^verbatim>\<open>fsync\<close> lasts
    while other methods write to its file, and the device takes the bytes of the files one by one, at any time and in any order (\<open>device_step\<close>). Locale
    \<open>file_history\<close> carries a relation over all calls of a disk manager but \<^verbatim>\<open>Sync\<close>, interpreted for the bytes on the device (\<open>device\<close>) and for the page
    count and the length of the file (\<open>growth\<close>). The pool's invariant holds throughout, and a \<^verbatim>\<open>Sync\<close> that succeeds has put every byte the files had at its start on the
    device, as the file had it at some moment of the call; the bytes of one page may be from different moments.

  \<^item> \<open>Shared_Pool\<close>: the access methods when other goroutines use the same pool between any two of their calls. \<open>others_step\<close> is what those may do (anything to
    other files; reading this one, flushing and syncing), \<open>SharedHandle\<close> the \<^verbatim>\<open>FileHandle\<close> with such steps around each call. It keeps the contract \<open>page_cache\<close>
    below, so the heap and the index refine their maps under interference too; and the operations of another goroutine on another file are
    such steps (\<open>traced\<close>), so goroutines with a file each do not disturb each other. No call is promised to succeed there, as the others may pin every frame.

  \<^item> \<open>Pager_Interface\<close> (\<^verbatim>\<open>FileHandle\<close>, and the \<^verbatim>\<open>pager\<close> interface of both access methods): locale \<open>page_cache\<close>, the view of one
    file with its pages and pins; a \<open>sublocale\<close> derives it for a handle over any \<open>page_store\<close>. \<open>traced\<close> carries a relation over the calls of
    any operation verified against the contract.

  \<^item> \<open>Heap_File\<close> (\<^verbatim>\<open>heap.go\<close>): the heap over \<open>page_cache\<close> refines a map from tuple ids to tuples.

  \<^item> \<open>BTree_Node\<close> (\<^verbatim>\<open>node.go\<close>): the node arrays (locale \<open>node_area\<close>), binary search, insertion and the two splits on lists of
    entries; \<open>btree_caps\<close> are the conditions on the capacities, which the program's 584 and 681 meet (\<open>production\<close>).
    \<open>BTree_Spec\<close>: abstract B+ trees, their search-tree and sibling-chain invariants, and how pages store them.
    \<open>BTree_Index\<close> (\<^verbatim>\<open>nbtree.go\<close>): the operations. \<open>BTree_Search\<close>, \<open>BTree_Insert\<close>: their correctness in
    locale \<open>btree_index\<close>. \<open>BTree_Correct\<close>: opening, the interpretation \<open>index\<close> on the real pool and disk, and the theorems over
    the map from keys to TIDs an index file represents (\<open>index_map\<close>).

  \<^item> \<open>Record_Codec\<close> (\<^verbatim>\<open>record.go\<close>): \<open>Encode\<close> and \<open>Decode\<close>, round trip, totality and the exact conditions of success.

  \<^item> \<open>Go_Json\<close>: printing and parsing JSON as \<^verbatim>\<open>encoding/json\<close> does, with the round trip \<open>parse_json_print\<close>. \<open>Catalog_Codec\<close>
    (types of \<^verbatim>\<open>catalog.go\<close>): the document of a catalog state and its decoding. \<open>System_Catalog\<close> (\<^verbatim>\<open>catalog.go\<close>, \<^verbatim>\<open>store.go\<close>): the
    operations over locale \<open>blob_store\<close>, interpreted as \<open>json_file\<close>; changes are all or nothing in memory and in the file,
    survive reopening, and never give two relations one file.

  \<^item> \<open>Restart\<close>: checkpoint, reopening the device's bytes and reading through a new pool, for the index and for the heap. \<^verbatim>\<open>Open\<close> refuses bytes that are not a whole number
    of pages, which a failed extension can leave; without a failure the bytes are whole (\<open>whole_file\<close>, another interpretation of \<open>file_history\<close>).
    \<open>Row_Storage\<close>: a row encoded, stored in a heap file, indexed in a second file of the same pool and found again; and a client of
    both files as a step relation (\<open>table_step\<close>), under which no tuple is ever lost, and no key is lost or dangles while no insertion into the index has failed half-way; after
    such a failure the client leaves the index alone.

  \<^bold>\<open>What a failed operation leaves.\<close> An insertion into an index that fails half-way through a split may leave the entry in a
  node that stays full: \<open>btree_Insert_refines\<close> promises the invariants of the pool for every result, but the map only for a
  success or a duplicate key, because that is what the code provides. Two such failures have a theorem of their own: \<open>full_leaf_overflows\<close>, and, in
  \<open>BTree_Failure\<close>, \<open>failed_growth_hides_keys\<close>, where the root has split and no page can be had for the new root, with an index file that has one page
  id left, on which it happens.

  \<^bold>\<open>Not modelled.\<close> The catalog's mutex, and the pool's apart from the two methods of \<open>Pool_Threads\<close>, are held over whole methods, so each method is one step
  there and interleavings are those of whole methods; closing the disk manager belongs to its one owner and is not interleaved. What a goroutine sees of a page that another one
  writes while it holds the frame is left to the callers, in the code and here: \<open>Shared_Pool\<close> takes what a goroutine does to the bytes of its pages between two calls of the
  pool as one step, and has one writer per file, as the comments of \<^verbatim>\<open>heap.go\<close> and \<^verbatim>\<open>nbtree.go\<close> ask for. The arguments printed into error
  texts, file paths of the disk manager, the difference of nil and empty slices, and the identity of the copies \<^verbatim>\<open>clone\<close> makes. A crash in the
  middle of a write is covered only as far as the failed calls are; the catalog's store has no model of what a
  power loss takes back, as the code does not sync it. \<^verbatim>\<open>cmd/server/main.go\<close>, which has no logic. The
  SQL, transaction and logging layers the documentation plans do not exist in the source.
\<close>

end
